(* ===== verification/Prelude.thy ===== *)
theory Prelude
  imports Main "HOL-Library.Word" "HOL-Library.Multiset"
begin

text \<open>
  Shared vocabulary of the development: the machine types of \<^verbatim>\<open>src/src/std/ints.h\<close> and
  \<^verbatim>\<open>src/src/sphinxdefs.h\<close>, the raw memory accesses the components share (little-endian
  dwords and quads), the collections of simplification rules and the generic lemmas on lists,
  options and words that the component proofs use.
\<close>

unbundle bit_operations_syntax

named_theorems model_defs \<open>definitions of straight-line operations, unfolded together\<close>
named_theorems shape_simps \<open>facts about sizes and fields an operation keeps\<close>

type_synonym byte = "8 word"
type_synonym dword = "32 word"
type_synonym qword = "64 word"
type_synonym RowID_t = dword
type_synonym DocID_t = qword
type_synonym SphOffset_t = qword

text \<open>\<^verbatim>\<open>const RowID_t INVALID_ROWID = 0xFFFFFFFF\<close>\<close>

definition INVALID_ROWID :: RowID_t where
  "INVALID_ROWID = 0xFFFFFFFF"

subsection \<open>Words\<close>

lemma unat_drop_bit_div:
  fixes v :: "'a::len word"
  shows "unat (drop_bit n v) = unat v div 2 ^ n"
proof -
  have "unat (drop_bit n v) = drop_bit n (take_bit LENGTH('a) (unat v))"
    by (rule unsigned_drop_bit_eq)
  also have "take_bit LENGTH('a) (unat v) = unat v"
    by (simp add: take_bit_nat_eq_self)
  finally show ?thesis by (simp only: drop_bit_eq_div)
qed

lemma drop_bit_zero_iff:
  fixes v :: "'a::len word"
  shows "drop_bit n v = 0 \<longleftrightarrow> unat v < 2 ^ n"
proof -
  have "drop_bit n v = 0 \<longleftrightarrow> unat (drop_bit n v) = 0"
    by (simp only: unat_eq_zero)
  then show ?thesis
    by (simp add: unat_drop_bit_div div_eq_0_iff)
qed

lemma unat_drop_bit_less:
  fixes v :: "'a::len word"
  assumes "v \<noteq> 0" "0 < n"
  shows "unat (drop_bit n v) < unat v"
proof -
  have "0 < unat v" using assms by (simp add: unat_gt_0)
  moreover have "1 < (2::nat) ^ n" using assms(2) by (simp add: one_less_power del: One_nat_def)
  ultimately show ?thesis by (simp only: unat_drop_bit_div) (rule div_less_dividend)
qed

lemma take_bit_ge_length:
  fixes v :: "'a::len word"
  assumes "unat v < 2 ^ n"
  shows "take_bit n v = v"
  using assms by (simp add: word_unat_eq_iff unsigned_take_bit_eq take_bit_nat_eq_self)

lemma bit_push_bit_word:
  fixes w :: "'a::len word"
  assumes "n < LENGTH('a)"
  shows "bit (push_bit m w) n \<longleftrightarrow> m \<le> n \<and> bit w (n - m)"
  using assms by (simp add: bit_push_bit_iff)

lemma bit_clear_low_word:
  fixes v :: "'a::len word"
  assumes "n < LENGTH('a)"
  shows "bit (v AND NOT (mask m)) n \<longleftrightarrow> bit v n \<and> m \<le> n"
  using assms by (auto simp: bit_and_iff bit_not_iff bit_mask_iff)

subsection \<open>Options as results of reads\<close>

lemma bind_Some_conv: "Option.bind m f = Some y \<longleftrightarrow> (\<exists>x. m = Some x \<and> f x = Some y)"
  by (cases m) auto

end
