(* ===== verification/Zip.thy ===== *)
theory Zip
  imports Prelude
begin

text \<open>
  The variable-length integer codec of \<^verbatim>\<open>src/src/std/zip_impl.h\<close>: septets with a continuation
  bit, most significant first (BE) or least significant first (LE). A \<^verbatim>\<open>WRITER\<close> is the list of
  bytes it was given; a \<^verbatim>\<open>READER\<close> is the list of bytes still to be read, and reading past its
  end is \<^const>\<open>None\<close>. The templates are polymorphic in the word width; the flag \<open>sg\<close> says
  whether \<^verbatim>\<open>T\<close> is a signed type, whose right shift is arithmetic.
\<close>

section \<open>Operations\<close>

function zipped_len_loop :: "'a::len word \<Rightarrow> nat \<Rightarrow> nat" where
  "zipped_len_loop uValue nBytes =
     (if uValue \<noteq> 0 then zipped_len_loop (drop_bit 7 uValue) (nBytes + 1) else nBytes)"
  by pat_completeness auto
termination
  by (relation "measure (\<lambda>(u, n). unat u)") (auto simp: unat_drop_bit_less)

declare zipped_len_loop.simps [simp del]

definition sphCalcZippedLen :: "'a::len word \<Rightarrow> nat" where
  "sphCalcZippedLen tValue = zipped_len_loop (drop_bit 7 tValue) 1"

definition shr :: "bool \<Rightarrow> nat \<Rightarrow> 'a::len word \<Rightarrow> 'a word" where
  "shr sg n v = (if sg then signed_drop_bit n v else drop_bit n v)"

fun zip_be_loop :: "bool \<Rightarrow> nat \<Rightarrow> 'a::len word \<Rightarrow> byte list" where
  "zip_be_loop sg 0 tValue = []"
| "zip_be_loop sg (Suc i) tValue =
     (ucast (0x7f AND shr sg (7 * i) tValue) OR (if i \<noteq> 0 then 0x80 else 0)) # zip_be_loop sg i tValue"

definition ZipValueBE :: "bool \<Rightarrow> 'a::len word \<Rightarrow> byte list" where
  "ZipValueBE sg tValue = zip_be_loop sg (sphCalcZippedLen tValue) tValue"

fun unzip_be_loop :: "'a::len word \<Rightarrow> byte list \<Rightarrow> ('a word \<times> byte list) option" where
  "unzip_be_loop res [] = None"
| "unzip_be_loop res (b # bs) =
     (if b AND 0x80 \<noteq> 0 then unzip_be_loop (push_bit 7 res OR ucast (b AND 0x7f)) bs
      else Some (push_bit 7 res OR ucast b, bs))"

definition UnzipValueBE_reference :: "byte list \<Rightarrow> ('a::len word \<times> byte list) option" where
  "UnzipValueBE_reference bs = unzip_be_loop 0 bs"

text \<open>\<^verbatim>\<open>UnzipValueBE\<close> for 4-byte types is unrolled; for 8-byte types it is the loop again.\<close>

fun fnGet :: "byte list \<Rightarrow> (byte \<times> byte list) option" where
  "fnGet [] = None"
| "fnGet (b # bs) = Some (b, bs)"

definition UnzipValueBE4 :: "byte list \<Rightarrow> (dword \<times> byte list) option" where
  "UnzipValueBE4 r0 =
    (case fnGet r0 of None \<Rightarrow> None | Some (b, r1) \<Rightarrow>
      let res = ucast (b AND 0x7f) in
      if b AND 0x80 = 0 then Some (res, r1) else
    (case fnGet r1 of None \<Rightarrow> None | Some (b, r2) \<Rightarrow>
      let res = push_bit 7 res OR ucast (b AND 0x7f) in
      if b AND 0x80 = 0 then Some (res, r2) else
    (case fnGet r2 of None \<Rightarrow> None | Some (b, r3) \<Rightarrow>
      let res = push_bit 7 res OR ucast (b AND 0x7f) in
      if b AND 0x80 = 0 then Some (res, r3) else
    (case fnGet r3 of None \<Rightarrow> None | Some (b, r4) \<Rightarrow>
      let res = push_bit 7 res OR ucast (b AND 0x7f) in
      if b AND 0x80 = 0 then Some (res, r4) else
    (case fnGet r4 of None \<Rightarrow> None | Some (b, r5) \<Rightarrow>
      Some (push_bit 7 res OR ucast b, r5))))))"

definition UnzipValueBE8 :: "byte list \<Rightarrow> (qword \<times> byte list) option" where
  "UnzipValueBE8 bs = unzip_be_loop 0 bs"

definition UnzipIntBE :: "byte list \<Rightarrow> (dword \<times> byte list) option" where
  "UnzipIntBE pBuf = UnzipValueBE4 pBuf"

definition UnzipOffsetBE :: "byte list \<Rightarrow> (SphOffset_t \<times> byte list) option" where
  "UnzipOffsetBE pBuf = UnzipValueBE8 pBuf"

function ZipValueLE :: "'a::len word \<Rightarrow> byte list" where
  "ZipValueLE uValue =
     (let bOut = ucast (uValue AND 0x7f); uNext = drop_bit 7 uValue in
      if uNext \<noteq> 0 then (bOut OR 0x80) # ZipValueLE uNext else [bOut])"
  by pat_completeness auto
termination
proof (relation "measure unat", goal_cases)
  case 1
  show ?case by simp
next
  case (2 u b n)
  then have "u \<noteq> 0" by auto
  with 2 show ?case by (simp add: unat_drop_bit_less)
qed

declare ZipValueLE.simps [simp del]

fun unzip_le_loop :: "'a::len word \<Rightarrow> byte \<Rightarrow> byte list \<Rightarrow> ('a word \<times> byte list) option" where
  "unzip_le_loop res iOff [] = None"
| "unzip_le_loop res iOff (b # bs) =
     (let res = res + push_bit (unat iOff) (ucast (b AND 0x7f)); iOff = iOff + 7 in
      if b AND 0x80 \<noteq> 0 then unzip_le_loop res iOff bs else Some (res, bs))"

definition UnzipValueLE_reference :: "byte list \<Rightarrow> ('a::len word \<times> byte list) option" where
  "UnzipValueLE_reference bs = unzip_le_loop 0 0 bs"

definition UnzipValueLE4 :: "byte list \<Rightarrow> (dword \<times> byte list) option" where
  "UnzipValueLE4 r0 =
    (case fnGet r0 of None \<Rightarrow> None | Some (b, r1) \<Rightarrow>
      let res = ucast (b AND 0x7f) in
      if b AND 0x80 = 0 then Some (res, r1) else
    (case fnGet r1 of None \<Rightarrow> None | Some (b, r2) \<Rightarrow>
      let res = res OR push_bit 7 (ucast (b AND 0x7f)) in
      if b AND 0x80 = 0 then Some (res, r2) else
    (case fnGet r2 of None \<Rightarrow> None | Some (b, r3) \<Rightarrow>
      let res = res OR push_bit 14 (ucast (b AND 0x7f)) in
      if b AND 0x80 = 0 then Some (res, r3) else
    (case fnGet r3 of None \<Rightarrow> None | Some (b, r4) \<Rightarrow>
      if b AND 0x80 = 0 then Some (res OR push_bit 21 (ucast (b AND 0x7f)), r4) else
    (case fnGet r4 of None \<Rightarrow> None | Some (b', r5) \<Rightarrow>
      Some ((res OR push_bit 21 (ucast (b AND 0x7f))) OR push_bit 28 (ucast b'), r5))))))"

definition UnzipValueLE8 :: "byte list \<Rightarrow> (qword \<times> byte list) option" where
  "UnzipValueLE8 r0 =
    (case fnGet r0 of None \<Rightarrow> None | Some (b, r1) \<Rightarrow>
      let res = ucast (b AND 0x7f) in
      if b AND 0x80 = 0 then Some (res, r1) else
    (case fnGet r1 of None \<Rightarrow> None | Some (b, r2) \<Rightarrow>
      let res = res OR push_bit 7 (ucast (b AND 0x7f)) in
      if b AND 0x80 = 0 then Some (res, r2) else
    (case fnGet r2 of None \<Rightarrow> None | Some (b, r3) \<Rightarrow>
      let res = res OR push_bit 14 (ucast (b AND 0x7f)) in
      if b AND 0x80 = 0 then Some (res, r3) else
    (case fnGet r3 of None \<Rightarrow> None | Some (b, r4) \<Rightarrow>
      let res = res OR push_bit 21 (ucast (b AND 0x7f)) in
      if b AND 0x80 = 0 then Some (res, r4) else
    (case fnGet r4 of None \<Rightarrow> None | Some (b, r5) \<Rightarrow>
      let res = res OR push_bit 28 (ucast (b AND 0x7f)) in
      if b AND 0x80 = 0 then Some (res, r5) else
    (case fnGet r5 of None \<Rightarrow> None | Some (b, r6) \<Rightarrow>
      let res = res OR push_bit 35 (ucast (b AND 0x7f)) in
      if b AND 0x80 = 0 then Some (res, r6) else
    (case fnGet r6 of None \<Rightarrow> None | Some (b, r7) \<Rightarrow>
      let res = res OR push_bit 42 (ucast (b AND 0x7f)) in
      if b AND 0x80 = 0 then Some (res, r7) else
    (case fnGet r7 of None \<Rightarrow> None | Some (b, r8) \<Rightarrow>
      let res = res OR push_bit 49 (ucast (b AND 0x7f)) in
      if b AND 0x80 = 0 then Some (res, r8) else
    (case fnGet r8 of None \<Rightarrow> None | Some (b, r9) \<Rightarrow>
      if b AND 0x80 = 0 then Some (res OR push_bit 56 (ucast (b AND 0x7f)), r9) else
    (case fnGet r9 of None \<Rightarrow> None | Some (b', r10) \<Rightarrow>
      Some ((res OR push_bit 56 (ucast (b AND 0x7f))) OR push_bit 63 (ucast b'), r10)))))))))))"

definition UnzipIntLE :: "byte list \<Rightarrow> (dword \<times> byte list) option" where
  "UnzipIntLE pBuf = UnzipValueLE4 pBuf"

definition UnzipOffsetLE :: "byte list \<Rightarrow> (SphOffset_t \<times> byte list) option" where
  "UnzipOffsetLE pBuf = UnzipValueLE8 pBuf"

section \<open>Length of an encoding\<close>

lemma zipped_len_loop_bounds:
  fixes u :: "'a::len word"
  shows "n \<le> zipped_len_loop u n \<and> unat u < 2 ^ (7 * (zipped_len_loop u n - n)) \<and>
    (u \<noteq> 0 \<longrightarrow> n < zipped_len_loop u n \<and> 2 ^ (7 * (zipped_len_loop u n - n - 1)) \<le> unat u)"
proof (induction u n rule: zipped_len_loop.induct)
  case (1 u n)
  show ?case
  proof (cases "u = 0")
    case True
    then show ?thesis by (simp add: zipped_len_loop.simps)
  next
    case False
    define d where "d = zipped_len_loop (drop_bit 7 u) (n + 1) - (n + 1)"
    from "1.IH"[OF False] have le: "n + 1 \<le> zipped_len_loop (drop_bit 7 u) (n + 1)"
      and up: "unat u div 128 < 2 ^ (7 * d)"
      and lo: "drop_bit 7 u \<noteq> 0 \<longrightarrow> 0 < d \<and> 2 ^ (7 * (d - 1)) \<le> unat u div 128"
      by (auto simp: d_def unat_drop_bit_div)
    have z: "zipped_len_loop u n = n + 1 + d"
      using False le by (subst zipped_len_loop.simps) (simp add: d_def)
    have "unat u < 128 * 2 ^ (7 * d)"
      using up by (simp add: less_mult_imp_div_less div_less_iff_less_mult mult.commute)
    then have A: "unat u < 2 ^ (7 * (zipped_len_loop u n - n))"
      by (simp add: z power_add)
    have B: "2 ^ (7 * d) \<le> unat u"
    proof (cases "drop_bit 7 u = 0")
      case True
      then have "d = 0" by (simp add: d_def zipped_len_loop.simps)
      with False show ?thesis by (simp add: Suc_le_eq unat_gt_0)
    next
      case 2: False
      with lo have "0 < d" and *: "2 ^ (7 * (d - 1)) \<le> unat u div 128" by auto
      have "(2::nat) ^ (7 * d) = 128 * 2 ^ (7 * (d - 1))"
        using \<open>0 < d\<close> by (cases d) (simp_all add: power_add)
      also have "\<dots> \<le> 128 * (unat u div 128)" using * by simp
      also have "\<dots> \<le> unat u" by simp
      finally show ?thesis .
    qed
    show ?thesis using A B by (simp add: z)
  qed
qed

lemma sphCalcZippedLen_bounds:
  fixes v :: "'a::len word"
  shows "1 \<le> sphCalcZippedLen v" and "unat v < 2 ^ (7 * sphCalcZippedLen v)"
    and "1 < sphCalcZippedLen v \<Longrightarrow> 2 ^ (7 * (sphCalcZippedLen v - 1)) \<le> unat v"
proof -
  let ?w = "drop_bit 7 v"
  define d where "d = zipped_len_loop ?w 1 - 1"
  have b: "1 \<le> zipped_len_loop ?w 1" and up: "unat v div 128 < 2 ^ (7 * d)"
    and lo: "?w \<noteq> 0 \<longrightarrow> 2 ^ (7 * (d - 1)) \<le> unat v div 128"
    using zipped_len_loop_bounds[of 1 ?w] by (auto simp: d_def unat_drop_bit_div)
  have z: "sphCalcZippedLen v = 1 + d" using b by (simp add: sphCalcZippedLen_def d_def)
  show "1 \<le> sphCalcZippedLen v" by (simp add: z)
  show "unat v < 2 ^ (7 * sphCalcZippedLen v)"
    using up by (simp add: z power_add div_less_iff_less_mult mult.commute)
  assume "1 < sphCalcZippedLen v"
  then have "0 < d" by (simp add: z)
  have "?w \<noteq> 0"
  proof
    assume "?w = 0"
    then have "d = 0" by (simp add: d_def zipped_len_loop.simps)
    with \<open>0 < d\<close> show False by simp
  qed
  have "(2::nat) ^ (7 * d) = 128 * 2 ^ (7 * (d - 1))"
    using \<open>0 < d\<close> by (cases d) (simp_all add: power_add)
  also have "\<dots> \<le> 128 * (unat v div 128)" using lo \<open>?w \<noteq> 0\<close> by simp
  also have "\<dots> \<le> unat v" by simp
  finally show "2 ^ (7 * (sphCalcZippedLen v - 1)) \<le> unat v" by (simp add: z)
qed

lemma sphCalcZippedLen_le:
  fixes v :: "'a::len word"
  assumes "LENGTH('a) \<le> 7 * n" "0 < n"
  shows "sphCalcZippedLen v \<le> n"
proof (rule ccontr)
  assume a: "\<not> ?thesis"
  let ?l = "sphCalcZippedLen v"
  from a assms have "1 < ?l" by simp
  then have "2 ^ (7 * (?l - 1)) \<le> unat v" by (rule sphCalcZippedLen_bounds)
  also have "unat v < 2 ^ LENGTH('a)" by (rule unsigned_less)
  finally have "7 * (?l - 1) < LENGTH('a)" by simp
  with a assms show False by simp
qed

lemma length_zip_be_loop [simp]: "length (zip_be_loop sg n v) = n"
  by (induction n) auto

section \<open>Big-endian round trip\<close>

lemma bit_shr_low:
  fixes v :: "'a::len word"
  assumes "n + j < LENGTH('a)"
  shows "bit (shr sg n v) j = bit v (n + j)"
  using assms by (auto simp: shr_def bit_simps)

definition be_septet :: "bool \<Rightarrow> nat \<Rightarrow> 'a::len word \<Rightarrow> byte" where
  "be_septet sg i v = ucast (0x7f AND shr sg (7 * i) v) OR (if i \<noteq> 0 then 0x80 else 0)"

lemma bit_0x7f: "bit (0x7f :: int) j \<longleftrightarrow> j < 7"
proof -
  have "(0x7f :: int) = mask 7" by (simp add: mask_eq_exp_minus_1)
  then show ?thesis by (simp only: bit_mask_iff) auto
qed

lemma bit_0x80: "bit (0x80 :: int) j \<longleftrightarrow> j = 7"
proof -
  have "(0x80 :: int) = 2 ^ 7" by simp
  then show ?thesis by (simp only: bit_exp_iff) auto
qed

lemma be_septet_cont: "be_septet sg i v AND 0x80 \<noteq> 0 \<longleftrightarrow> i \<noteq> 0"
proof (cases "i = 0")
  case True
  have "be_septet sg 0 v AND 0x80 = 0"
    by (rule bit_word_eqI) (simp add: be_septet_def bit_and_iff bit_or_iff bit_ucast_iff bit_0x7f bit_0x80)
  with True show ?thesis by simp
next
  case False
  then have "bit (be_septet sg i v AND 0x80) 7"
    by (simp add: be_septet_def bit_simps bit_0x80)
  with False show ?thesis by (metis bit_0_eq bot_apply bot_bool_def)
qed

lemma bit_be_septet_low:
  fixes v :: "'a::len word"
  shows "bit (ucast (be_septet sg i v AND 0x7f) :: 'a word) j \<longleftrightarrow>
    j < LENGTH('a) \<and> j < 7 \<and> bit (shr sg (7 * i) v) j"
  by (auto simp: be_septet_def bit_simps bit_0x7f bit_0x80)

lemma be_septet_last:
  fixes v :: "'a::len word"
  shows "(ucast (be_septet sg 0 v) :: 'a word) = ucast (be_septet sg 0 v AND 0x7f)"
  by (rule bit_word_eqI) (auto simp: be_septet_def bit_simps bit_0x7f)

lemma be_step:
  fixes v res :: "'a::len word"
  assumes "push_bit (7 * Suc i) res = v AND NOT (mask (7 * Suc i))"
  shows "push_bit (7 * i) (push_bit 7 res OR ucast (be_septet sg i v AND 0x7f)) = v AND NOT (mask (7 * i))"
    (is "?l = ?r")
proof (rule bit_word_eqI)
  fix n assume n: "n < LENGTH('a)"
  have "bit (push_bit (7 * Suc i) res) n = bit (v AND NOT (mask (7 * Suc i))) n"
    by (simp only: assms)
  then have h: "7 * Suc i \<le> n \<Longrightarrow> bit res (n - 7 * Suc i) = bit v n"
    by (simp only: bit_push_bit_word[OF n] bit_clear_low_word[OF n] simp_thms)
  have l: "bit ?l n \<longleftrightarrow> 7 * i \<le> n \<and>
    (7 \<le> n - 7 * i \<and> bit res (n - 7 * i - 7) \<or> n - 7 * i < 7 \<and> bit (shr sg (7 * i) v) (n - 7 * i))"
    using n by (simp only: bit_push_bit_word[OF n] bit_or_iff bit_be_septet_low bit_push_bit_iff) auto
  show "bit ?l n = bit ?r n"
  proof (cases "7 * Suc i \<le> n")
    case True
    then show ?thesis using h by (simp only: l bit_clear_low_word[OF n]) (auto simp: diff_diff_left add.commute)
  next
    case False
    then have "7 * i \<le> n \<Longrightarrow> bit (shr sg (7 * i) v) (n - 7 * i) = bit v n"
      using n by (subst bit_shr_low) auto
    with False show ?thesis by (simp only: l bit_clear_low_word[OF n]) auto
  qed
qed

lemma unzip_be_loop_zip:
  fixes v res :: "'a::len word"
  assumes "push_bit (7 * k) res = v AND NOT (mask (7 * k))" "0 < k"
  shows "unzip_be_loop res (zip_be_loop sg k v @ rest) = Some (v, rest)"
  using assms
proof (induction k arbitrary: res)
  case 0
  then show ?case by simp
next
  case (Suc i)
  note st = be_step[OF Suc.prems(1), of sg]
  have z: "zip_be_loop sg (Suc i) v = be_septet sg i v # zip_be_loop sg i v"
    by (simp add: be_septet_def)
  show ?case
  proof (cases "i = 0")
    case True
    with st have "push_bit 7 res OR ucast (be_septet sg 0 v AND 0x7f) = v" by simp
    then have v: "push_bit 7 res OR ucast (be_septet sg 0 v) = v"
      by (simp only: be_septet_last)
    have nc: "\<not> be_septet sg 0 v AND 0x80 \<noteq> 0"
      using be_septet_cont[of sg 0 v] by simp
    have "unzip_be_loop res (be_septet sg 0 v # rest) =
      Some (push_bit 7 res OR ucast (be_septet sg 0 v), rest)"
      using nc by (simp only: unzip_be_loop.simps if_False)
    moreover have "zip_be_loop sg (Suc i) v @ rest = be_septet sg 0 v # rest"
      using True by (simp add: be_septet_def)
    ultimately show ?thesis by (simp only: v)
  next
    case False
    then have "be_septet sg i v AND 0x80 \<noteq> 0" by (simp only: be_septet_cont simp_thms)
    then have "unzip_be_loop res (be_septet sg i v # zip_be_loop sg i v @ rest) =
      unzip_be_loop (push_bit 7 res OR ucast (be_septet sg i v AND 0x7f)) (zip_be_loop sg i v @ rest)"
      by simp
    also have "\<dots> = Some (v, rest)"
      using False by (intro Suc.IH st) simp
    finally show ?thesis by (simp only: z append_Cons)
  qed
qed

lemma high_bits_zero:
  fixes v :: "'a::len word"
  assumes "unat v < 2 ^ n"
  shows "v AND NOT (mask n) = 0"
proof -
  have "take_bit n v = v" using assms by (rule take_bit_ge_length)
  then have "v AND mask n = v" by (simp add: take_bit_eq_mask)
  then have "v AND NOT (mask n) = (v AND mask n) AND NOT (mask n)" by simp
  also have "\<dots> = 0" by (simp add: and.assoc)
  finally show ?thesis .
qed

lemma unzip_be_zip_value:
  "unzip_be_loop 0 (ZipValueBE sg v @ rest) = Some (v, rest)"
  unfolding ZipValueBE_def
  using sphCalcZippedLen_bounds(1)[of v] sphCalcZippedLen_bounds(2)[of v]
  by (intro unzip_be_loop_zip) (simp_all add: high_bits_zero)

section \<open>The unrolled readers are the loops\<close>

text \<open>\<open>terminated n bs\<close>: a byte without the continuation bit is among the first \<open>n\<close> bytes.\<close>

fun terminated :: "nat \<Rightarrow> byte list \<Rightarrow> bool" where
  "terminated 0 bs = False"
| "terminated (Suc n) [] = False"
| "terminated (Suc n) (b # bs) = (b AND 0x80 = 0 \<or> terminated n bs)"

lemma terminated_mono: "terminated m bs \<Longrightarrow> m \<le> n \<Longrightarrow> terminated n bs"
proof (induction m bs arbitrary: n rule: terminated.induct)
  case (3 m b bs)
  then show ?case by (cases n) auto
qed auto

lemma terminated_append: "terminated n bs \<Longrightarrow> terminated n (bs @ cs)"
  by (induction n bs rule: terminated.induct) auto

lemma no_cont_low7:
  fixes b :: byte
  assumes "b AND 0x80 = 0"
  shows "b AND 0x7f = b"
proof (rule bit_word_eqI)
  fix n assume "n < LENGTH(8)"
  have "\<not> bit (b AND 0x80) 7" using assms by simp
  then have "\<not> bit b 7" by (simp add: bit_and_iff bit_0x80)
  with \<open>n < LENGTH(8)\<close> show "bit (b AND 0x7f) n = bit b n"
    by (cases "n = 7") (auto simp: bit_and_iff bit_0x7f)
qed

lemma UnzipValueBE4_eq_loop:
  assumes "terminated 5 bs"
  shows "UnzipValueBE4 bs = unzip_be_loop 0 bs"
proof -
  have five: "(5::nat) = Suc (Suc (Suc (Suc (Suc 0))))" by simp
  show ?thesis
    using assms unfolding five
    by (auto simp: UnzipValueBE4_def Let_def no_cont_low7 elim!: terminated.elims)
qed

lemma zip_be_loop_terminated: "0 < n \<Longrightarrow> terminated n (zip_be_loop sg n v)"
proof (induction n)
  case (Suc n)
  show ?case
  proof (cases "n = 0")
    case True
    have "be_septet sg 0 v AND 0x80 = 0" using be_septet_cont[of sg 0 v] by simp
    with True show ?thesis by (simp add: be_septet_def)
  next
    case False
    with Suc.IH show ?thesis by simp
  qed
qed simp

lemma ZipValueBE_terminated:
  fixes v :: "'a::len word"
  assumes "LENGTH('a) \<le> 7 * n" "0 < n"
  shows "terminated n (ZipValueBE sg v @ rest)"
proof -
  have "terminated (sphCalcZippedLen v) (ZipValueBE sg v)"
    unfolding ZipValueBE_def
    using sphCalcZippedLen_bounds(1)[of v] by (intro zip_be_loop_terminated) simp
  then show ?thesis
    using sphCalcZippedLen_le[OF assms] by (blast intro: terminated_mono terminated_append)
qed

section \<open>Little-endian round trip\<close>

text \<open>The loop of \<^verbatim>\<open>UnzipValueLE_reference\<close> with the offset as a number and \<^verbatim>\<open>|=\<close> for \<^verbatim>\<open>+=\<close>.\<close>

fun unzip_le_or :: "nat \<Rightarrow> 'a::len word \<Rightarrow> byte list \<Rightarrow> ('a word \<times> byte list) option" where
  "unzip_le_or k res [] = None"
| "unzip_le_or k res (b # bs) =
     (if b AND 0x80 \<noteq> 0 then unzip_le_or (k + 7) (res OR push_bit k (ucast (b AND 0x7f))) bs
      else Some (res OR push_bit k (ucast (b AND 0x7f)), bs))"

lemma or_push_bit_eq_add:
  fixes a b :: "'a::len word"
  assumes "take_bit k a = a"
  shows "a OR push_bit k b = a + push_bit k b"
proof (rule disjunctive_add[symmetric])
  fix n
  have "bit a n = bit (take_bit k a) n" by (simp add: assms)
  then show "\<not> bit a n \<or> \<not> bit (push_bit k b) n"
    by (auto simp: bit_take_bit_iff bit_push_bit_iff)
qed

lemma take_bit_or_push:
  fixes a :: "'a::len word"
  assumes "take_bit k a = a"
  shows "take_bit (k + 7) (a OR push_bit k (ucast ((b::byte) AND 0x7f))) = a OR push_bit k (ucast (b AND 0x7f))"
proof (rule bit_word_eqI)
  fix n assume n: "n < LENGTH('a)"
  have a: "bit a n \<Longrightarrow> n < k" using assms by (metis bit_take_bit_iff)
  have b: "bit (ucast (b AND 0x7f) :: 'a word) m \<Longrightarrow> m < 7" for m
    by (auto simp: bit_ucast_iff bit_and_iff bit_0x7f)
  show "bit (take_bit (k + 7) (a OR push_bit k (ucast (b AND 0x7f)))) n =
      bit (a OR push_bit k (ucast (b AND 0x7f))) n"
    unfolding bit_take_bit_iff bit_or_iff bit_push_bit_word[OF n]
    using a b[of "n - k"] by auto
qed

lemma unzip_le_loop_eq_or:
  assumes "take_bit k res = res" "terminated n bs" "k + 7 * n < 256"
  shows "unzip_le_loop res (of_nat k) bs = unzip_le_or k res bs"
  using assms
proof (induction n bs arbitrary: k res rule: terminated.induct)
  case (3 n b bs)
  have k: "unat (of_nat k :: byte) = k"
    using "3.prems"(3) by (simp add: unat_of_nat)
  have e: "res + push_bit k (ucast (b AND 0x7f)) = res OR push_bit k (ucast (b AND 0x7f))"
    using or_push_bit_eq_add[OF "3.prems"(1)] by simp
  show ?case
  proof (cases "b AND 0x80 = 0")
    case True
    then show ?thesis by (simp add: Let_def k e)
  next
    case False
    with "3.prems"(2) have t: "terminated n bs" by simp
    have "unzip_le_loop (res OR push_bit k (ucast (b AND 0x7f))) (of_nat (k + 7)) bs =
      unzip_le_or (k + 7) (res OR push_bit k (ucast (b AND 0x7f))) bs"
      using "3.IH"[OF take_bit_or_push[OF "3.prems"(1)] t] "3.prems"(3) by simp
    with False show ?thesis by (simp add: Let_def k e)
  qed
qed auto

lemma UnzipValueLE4_eq_or:
  assumes "terminated 5 bs"
  shows "UnzipValueLE4 bs = unzip_le_or 0 0 bs"
proof -
  have five: "(5::nat) = Suc (Suc (Suc (Suc (Suc 0))))" by simp
  show ?thesis
    using assms unfolding five
    by (auto simp: UnzipValueLE4_def Let_def no_cont_low7 elim!: terminated.elims)
qed

lemma UnzipValueLE8_eq_or:
  assumes "terminated 10 bs"
  shows "UnzipValueLE8 bs = unzip_le_or 0 0 bs"
proof -
  have ten: "(10::nat) = Suc (Suc (Suc (Suc (Suc (Suc (Suc (Suc (Suc (Suc 0)))))))))" by simp
  show ?thesis
    using assms unfolding ten
    by (auto simp: UnzipValueLE8_def Let_def no_cont_low7 elim!: terminated.elims)
qed

definition le_septet :: "'a::len word \<Rightarrow> byte" where
  "le_septet u = ucast (u AND 0x7f)"

lemma le_septet_no_cont: "le_septet u AND 0x80 = 0"
  by (rule bit_word_eqI) (auto simp: le_septet_def bit_and_iff bit_ucast_iff bit_0x7f bit_0x80)

lemma le_septet_cont: "(le_septet u OR 0x80) AND 0x80 \<noteq> 0"
proof -
  have "bit ((le_septet u OR 0x80) AND 0x80) 7" by (simp add: bit_and_iff bit_or_iff bit_0x80)
  then show ?thesis by (metis bit_0_eq bot_apply bot_bool_def)
qed

lemma le_septet_low:
  fixes u :: "'a::len word"
  shows "(ucast ((le_septet u OR 0x80) AND 0x7f) :: 'a word) = take_bit 7 u"
    and "(ucast (le_septet u AND 0x7f) :: 'a word) = take_bit 7 u"
proof -
  show "(ucast ((le_septet u OR 0x80) AND 0x7f) :: 'a word) = take_bit 7 u"
    by (rule bit_word_eqI)
      (auto simp: le_septet_def bit_and_iff bit_or_iff bit_ucast_iff bit_0x7f bit_0x80 bit_take_bit_iff)
  show "(ucast (le_septet u AND 0x7f) :: 'a word) = take_bit 7 u"
    by (rule bit_word_eqI)
      (auto simp: le_septet_def bit_and_iff bit_ucast_iff bit_0x7f bit_take_bit_iff)
qed

lemma ZipValueLE_unfold:
  "ZipValueLE u = (if drop_bit 7 u \<noteq> 0 then (le_septet u OR 0x80) # ZipValueLE (drop_bit 7 u) else [le_septet u])"
  by (subst ZipValueLE.simps) (simp add: le_septet_def Let_def)

lemma take_bit_or_push_septet:
  fixes v :: "'a::len word"
  shows "take_bit k v OR push_bit k (take_bit 7 (drop_bit k v)) = take_bit (k + 7) v"
  by (rule bit_word_eqI)
    (auto simp: bit_or_iff bit_take_bit_iff bit_push_bit_word bit_drop_bit_eq)

lemma unzip_le_or_zip:
  fixes v :: "'a::len word"
  assumes "u = drop_bit k v"
  shows "unzip_le_or k (take_bit k v) (ZipValueLE u @ rest) = Some (v, rest)"
  using assms
proof (induction u arbitrary: k rule: ZipValueLE.induct)
  case (1 u)
  have st: "take_bit k v OR push_bit k (take_bit 7 u) = take_bit (k + 7) v"
    by (simp only: "1.prems" take_bit_or_push_septet)
  show ?case
  proof (cases "drop_bit 7 u = 0")
    case True
    then have "drop_bit (k + 7) v = 0" by (simp add: "1.prems" drop_bit_drop_bit add.commute)
    then have "take_bit (k + 7) v = v" by (simp add: drop_bit_zero_iff take_bit_ge_length)
    with True st show ?thesis
      by (simp add: ZipValueLE_unfold[of u] le_septet_no_cont le_septet_low)
  next
    case False
    have "drop_bit 7 u = drop_bit (k + 7) v" by (simp add: "1.prems" drop_bit_drop_bit add.commute)
    then have "unzip_le_or (k + 7) (take_bit (k + 7) v) (ZipValueLE (drop_bit 7 u) @ rest) = Some (v, rest)"
      by (rule "1.IH"[OF refl refl False])
    with False st show ?thesis
      by (simp add: ZipValueLE_unfold[of u] le_septet_cont le_septet_low)
  qed
qed

lemma ZipValueLE_terminated:
  fixes u :: "'a::len word"
  assumes "unat u < 2 ^ (7 * n)" "0 < n"
  shows "terminated n (ZipValueLE u @ rest)"
  using assms
proof (induction n arbitrary: u)
  case (Suc n)
  show ?case
  proof (cases "drop_bit 7 u = 0")
    case True
    then show ?thesis by (simp add: ZipValueLE_unfold[of u] le_septet_no_cont)
  next
    case False
    have "unat u div 128 < 2 ^ (7 * n)"
      using Suc.prems(1) by (simp add: power_add div_less_iff_less_mult mult.commute)
    moreover have "0 < n"
    proof (rule ccontr)
      assume "\<not> 0 < n"
      with \<open>unat u div 128 < 2 ^ (7 * n)\<close> have "unat (drop_bit 7 u) = 0"
        by (simp add: unat_drop_bit_div)
      then have "drop_bit 7 u = 0" by (simp only: unat_eq_zero)
      with False show False by simp
    qed
    ultimately have "terminated n (ZipValueLE (drop_bit 7 u) @ rest)"
      by (intro Suc.IH) (simp_all add: unat_drop_bit_div)
    with False show ?thesis by (simp add: ZipValueLE_unfold[of u])
  qed
qed simp

section \<open>Properties\<close>

text \<open>C10: decoding an encoded value gives the value back and leaves exactly the bytes that follow
  it, for the big-endian codec of 4-byte and 8-byte types; the arithmetic right shift of a signed
  type does not disturb it.\<close>

theorem zip_be_roundtrip:
  "UnzipIntBE (ZipValueBE sg v @ rest) = Some (v, rest) \<and>
   UnzipOffsetBE (ZipValueBE sg w @ rest) = Some (w, rest)"
  using ZipValueBE_terminated[of 5 sg v rest]
  by (simp add: UnzipIntBE_def UnzipOffsetBE_def UnzipValueBE8_def UnzipValueBE4_eq_loop unzip_be_zip_value)

text \<open>C11: the little-endian codec is a round trip too, and the unrolled readers agree with the
  reference loop on every input whose encoding ends within the 5 (10) bytes a value can take.\<close>

theorem zip_le_roundtrip:
  "UnzipIntLE (ZipValueLE v @ rest) = Some (v, rest) \<and>
   UnzipOffsetLE (ZipValueLE w @ rest) = Some (w, rest) \<and>
   (terminated 5 bs \<longrightarrow> UnzipValueLE4 bs = UnzipValueLE_reference bs \<and> UnzipValueBE4 bs = UnzipValueBE_reference bs) \<and>
   (terminated 10 bs \<longrightarrow> UnzipValueLE8 bs = UnzipValueLE_reference bs)"
proof (intro conjI impI)
  have "unat v < 2 ^ 32" using unsigned_less[of v] by simp
  then have "terminated 5 (ZipValueLE v @ rest)"
    by (intro ZipValueLE_terminated) simp_all
  with unzip_le_or_zip[of v 0 v rest] show "UnzipIntLE (ZipValueLE v @ rest) = Some (v, rest)"
    by (simp add: UnzipIntLE_def UnzipValueLE4_eq_or)
  have "unat w < 2 ^ 64" using unsigned_less[of w] by simp
  then have "terminated 10 (ZipValueLE w @ rest)"
    by (intro ZipValueLE_terminated) simp_all
  with unzip_le_or_zip[of w 0 w rest] show "UnzipOffsetLE (ZipValueLE w @ rest) = Some (w, rest)"
    by (simp add: UnzipOffsetLE_def UnzipValueLE8_eq_or)
next
  assume t: "terminated 5 bs"
  then show "UnzipValueLE4 bs = UnzipValueLE_reference bs"
    using unzip_le_loop_eq_or[of 0 "0 :: dword" 5 bs]
    by (simp add: UnzipValueLE_reference_def UnzipValueLE4_eq_or)
  from t show "UnzipValueBE4 bs = UnzipValueBE_reference bs"
    by (simp add: UnzipValueBE_reference_def UnzipValueBE4_eq_loop)
next
  assume "terminated 10 bs"
  then show "UnzipValueLE8 bs = UnzipValueLE_reference bs"
    using unzip_le_loop_eq_or[of 0 "0 :: qword" 10 bs]
    by (simp add: UnzipValueLE_reference_def UnzipValueLE8_eq_or)
qed

theorem zip_le_roundtrip_witness:
  "terminated 5 [0x85, 0x01] \<and> UnzipValueLE4 [0x85, 0x01] = UnzipValueLE_reference [0x85, 0x01] \<and>
   UnzipValueLE8 [0x85, 0x01] = UnzipValueLE_reference [0x85, 0x01]"
proof -
  have t: "terminated 5 [0x85, 0x01]" and u: "terminated 10 [0x85, 0x01]" by code_simp+
  show ?thesis using t u zip_le_roundtrip[of 0 "[]" 0 "[0x85, 0x01]"] by blast
qed

text \<open>C12: an encoding is never empty, takes at most 5 bytes for a 4-byte and 10 bytes for an
  8-byte type, and is the shortest one: a value of \<open>k\<close> bytes does not fit in fewer septets.\<close>

theorem zip_be_length:
  "length (ZipValueBE sg v) = sphCalcZippedLen v \<and> 1 \<le> sphCalcZippedLen v \<and>
   sphCalcZippedLen (x :: dword) \<le> 5 \<and> sphCalcZippedLen (y :: qword) \<le> 10 \<and>
   (\<forall>k. unat v < 2 ^ (7 * k) \<longrightarrow> 0 < k \<longrightarrow> sphCalcZippedLen v \<le> k)"
proof (intro conjI allI impI)
  show "length (ZipValueBE sg v) = sphCalcZippedLen v" by (simp add: ZipValueBE_def)
  show "1 \<le> sphCalcZippedLen v" by (rule sphCalcZippedLen_bounds)
  show "sphCalcZippedLen x \<le> 5" and "sphCalcZippedLen y \<le> 10"
    by (rule sphCalcZippedLen_le; simp)+
next
  fix k :: nat assume k: "unat v < 2 ^ (7 * k)" "0 < k"
  show "sphCalcZippedLen v \<le> k"
  proof (rule ccontr)
    assume "\<not> ?thesis"
    then have l: "1 < sphCalcZippedLen v" and "7 * k \<le> 7 * (sphCalcZippedLen v - 1)"
      using k(2) by auto
    with sphCalcZippedLen_bounds(3)[OF l] have "2 ^ (7 * k) \<le> unat v"
      by (meson le_trans one_le_numeral power_increasing)
    with k(1) show False by simp
  qed
qed

theorem zip_be_length_witness:
  "unat (300 :: dword) < 2 ^ (7 * 2) \<and> sphCalcZippedLen (300 :: dword) \<le> 2"
  using zip_be_length[of False "300 :: dword" 0 0] by auto

end
