(* ===== verification/Binary_Search.thy ===== *)
theory Binary_Search
  imports Prelude
begin

text \<open>
  The binary searches of \<^verbatim>\<open>src/src/std/binarysearch_impl.h\<close>. Pointers into an array are integer
  indices (a search over an empty array has \<^verbatim>\<open>pEnd = pStart - 1\<close>), \<open>tPred\<close> is the key of the
  element at an index, a null result is \<^const>\<open>None\<close>; a null \<^verbatim>\<open>pStart\<close>, for which the searches return null at once,
  has no index and is left out.
\<close>

section \<open>Operations\<close>

function binary_search_loop :: "(int \<Rightarrow> 'k::linorder) \<Rightarrow> int \<Rightarrow> int \<Rightarrow> 'k \<Rightarrow> int option" where
  "binary_search_loop tPred pStart pEnd tRef =
    (if pEnd - pStart > 1 then
       if tRef < tPred pStart \<or> tPred pEnd < tRef then None
       else
         let pMid = pStart + (pEnd - pStart) div 2 in
         if tRef = tPred pMid then Some pMid
         else if tRef < tPred pMid then binary_search_loop tPred pStart pMid tRef
         else binary_search_loop tPred pMid pEnd tRef
     else None)"
  by pat_completeness auto
termination
  by (relation "measure (\<lambda>(f, s, e, r). nat (e - s))") auto

declare binary_search_loop.simps [simp del]

definition BinarySearch :: "(int \<Rightarrow> 'k::linorder) \<Rightarrow> int \<Rightarrow> int \<Rightarrow> 'k \<Rightarrow> int option" where
  "BinarySearch tPred pStart pEnd tRef =
    (if pEnd < pStart then None
     else if tPred pStart = tRef then Some pStart
     else if tPred pEnd = tRef then Some pEnd
     else binary_search_loop tPred pStart pEnd tRef)"

function binary_search_first_idx_loop ::
  "(int \<Rightarrow> 'k::linorder) \<Rightarrow> int \<Rightarrow> int \<Rightarrow> 'k \<Rightarrow> int" where
  "binary_search_first_idx_loop tPred iStart iEnd tRef =
    (if iEnd - iStart > 1 then
       if tRef < tPred iStart \<or> tRef > tPred iEnd then -1
       else
         let iMid = iStart + (iEnd - iStart) div 2 in
         if tPred iMid \<ge> tRef then binary_search_first_idx_loop tPred iStart iMid tRef
         else binary_search_first_idx_loop tPred iMid iEnd tRef
     else if tPred iStart = tRef then iStart
     else if tPred iEnd = tRef then iEnd
     else -1)"
  by pat_completeness auto
termination
  by (relation "measure (\<lambda>(f, s, e, r). nat (e - s))") auto

declare binary_search_first_idx_loop.simps [simp del]

definition BinarySearchFirst_idx :: "(int \<Rightarrow> 'k::linorder) \<Rightarrow> int \<Rightarrow> int \<Rightarrow> 'k \<Rightarrow> int" where
  "BinarySearchFirst_idx tPred iStart iEnd tRef = binary_search_first_idx_loop tPred iStart iEnd tRef"

function binary_search_first_loop :: "(int \<Rightarrow> 'k::linorder) \<Rightarrow> int \<Rightarrow> int \<Rightarrow> 'k \<Rightarrow> int" where
  "binary_search_first_loop tPred pStart pEnd tRef =
    (if pStart < pEnd then
       let pMid = pStart + (pEnd - pStart) div 2 in
       if tRef > tPred pMid then binary_search_first_loop tPred (pMid + 1) pEnd tRef
       else binary_search_first_loop tPred pStart pMid tRef
     else pStart)"
  by pat_completeness auto
termination
  by (relation "measure (\<lambda>(f, s, e, r). nat (e - s))") auto

declare binary_search_first_loop.simps [simp del]

text \<open>The loop of the source runs while \<^verbatim>\<open>pStart != pEnd\<close>; it is entered with
  \<^verbatim>\<open>pStart <= pEnd\<close> only and keeps that, so the guard here is the same one.\<close>

definition BinarySearchFirst :: "(int \<Rightarrow> 'k::linorder) \<Rightarrow> int \<Rightarrow> int \<Rightarrow> 'k \<Rightarrow> int option" where
  "BinarySearchFirst tPred pStart pEnd tRef =
    (if pEnd < pStart then None else Some (binary_search_first_loop tPred pStart pEnd tRef))"

definition key_sorted :: "(int \<Rightarrow> 'k::linorder) \<Rightarrow> int \<Rightarrow> int \<Rightarrow> bool" where
  "key_sorted f s e \<longleftrightarrow> (\<forall>i j. s \<le> i \<longrightarrow> i \<le> j \<longrightarrow> j \<le> e \<longrightarrow> f i \<le> f j)"

section \<open>Correctness\<close>

lemma key_sorted_sub: "key_sorted f s e \<Longrightarrow> s \<le> s' \<Longrightarrow> e' \<le> e \<Longrightarrow> key_sorted f s' e'"
  by (auto simp: key_sorted_def)

lemma key_sortedD: "key_sorted f s e \<Longrightarrow> s \<le> i \<Longrightarrow> i \<le> j \<Longrightarrow> j \<le> e \<Longrightarrow> f i \<le> f j"
  by (auto simp: key_sorted_def)

lemma binary_search_loop_sound:
  "binary_search_loop f s e r = Some m \<Longrightarrow> s < m \<and> m < e \<and> f m = r"
proof (induction f s e r rule: binary_search_loop.induct)
  case (1 f s e r)
  define mid where "mid = s + (e - s) div 2"
  from "1.prems" have g: "e - s > 1" "\<not> (r < f s \<or> f e < r)"
    by (auto simp: binary_search_loop.simps[of f s e] split: if_splits)
  then have mid: "s < mid" "mid < e" by (auto simp: mid_def)
  have eq: "binary_search_loop f s e r = (if r = f mid then Some mid
      else if r < f mid then binary_search_loop f s mid r else binary_search_loop f mid e r)"
    using g by (subst binary_search_loop.simps) (simp add: Let_def flip: mid_def)
  show ?case
  proof (cases "r = f mid")
    case True
    with "1.prems"[unfolded eq] mid show ?thesis by simp
  next
    case neq: False
    show ?thesis
    proof (cases "r < f mid")
      case True
      with "1.prems" neq have "binary_search_loop f s mid r = Some m" by (simp add: eq)
      with "1.IH"(1)[OF g mid_def neq True] mid show ?thesis by auto
    next
      case False
      with "1.prems" neq have "binary_search_loop f mid e r = Some m" by (simp add: eq)
      with "1.IH"(2)[OF g mid_def neq False] mid show ?thesis by auto
    qed
  qed
qed

lemma binary_search_loop_complete:
  "key_sorted f s e \<Longrightarrow> s < i \<Longrightarrow> i < e \<Longrightarrow> f i = r \<Longrightarrow> f s \<noteq> r \<Longrightarrow> f e \<noteq> r \<Longrightarrow>
    binary_search_loop f s e r \<noteq> None"
proof (induction f s e r rule: binary_search_loop.induct)
  case (1 f s e r)
  define mid where "mid = s + (e - s) div 2"
  from "1.prems" have g: "e - s > 1" by auto
  then have mid: "s < mid" "mid < e" by (auto simp: mid_def)
  have b: "f s \<le> r" "r \<le> f e"
    using key_sortedD[OF "1.prems"(1), of s i] key_sortedD[OF "1.prems"(1), of i e] "1.prems" by auto
  then have nb: "\<not> (r < f s \<or> f e < r)" by auto
  show ?case
  proof (cases "r = f mid")
    case True
    with g nb show ?thesis by (simp add: binary_search_loop.simps[of f s e] Let_def flip: mid_def)
  next
    case neq: False
    show ?thesis
    proof (cases "r < f mid")
      case True
      have "i < mid"
        using key_sortedD[OF "1.prems"(1), of mid i] mid "1.prems" True by force
      with True neq have "binary_search_loop f s mid r \<noteq> None"
        using "1.IH"(1)[OF g nb mid_def neq True] "1.prems" mid key_sorted_sub[OF "1.prems"(1), of s mid]
        by auto
      with g nb neq True show ?thesis by (simp add: binary_search_loop.simps[of f s e] Let_def flip: mid_def)
    next
      case False
      have "mid < i"
        using key_sortedD[OF "1.prems"(1), of i mid] mid "1.prems" False neq by force
      with False neq have "binary_search_loop f mid e r \<noteq> None"
        using "1.IH"(2)[OF g nb mid_def neq False] "1.prems" mid key_sorted_sub[OF "1.prems"(1), of mid e]
        by auto
      with g nb neq False show ?thesis by (simp add: binary_search_loop.simps[of f s e] Let_def flip: mid_def)
    qed
  qed
qed

lemma BinarySearch_Some:
  "BinarySearch f s e r = Some m \<Longrightarrow> s \<le> m \<and> m \<le> e \<and> f m = r"
  by (auto simp: BinarySearch_def split: if_splits dest: binary_search_loop_sound)

lemma BinarySearch_iff:
  assumes "key_sorted f s e"
  shows "BinarySearch f s e r \<noteq> None \<longleftrightarrow> (\<exists>i. s \<le> i \<and> i \<le> e \<and> f i = r)"
proof
  show "BinarySearch f s e r \<noteq> None \<Longrightarrow> \<exists>i. s \<le> i \<and> i \<le> e \<and> f i = r"
    using BinarySearch_Some[of f s e r] by blast
next
  assume "\<exists>i. s \<le> i \<and> i \<le> e \<and> f i = r"
  then obtain i where i: "s \<le> i" "i \<le> e" "f i = r" by blast
  show "BinarySearch f s e r \<noteq> None"
  proof (cases "f s = r \<or> f e = r")
    case True
    with i show ?thesis by (auto simp: BinarySearch_def)
  next
    case False
    then have "s < i" "i < e" using i by (auto simp: order.strict_iff_order)
    with i False show ?thesis
      using binary_search_loop_complete[OF assms, of i r] by (simp add: BinarySearch_def)
  qed
qed

lemma binary_search_first_loop_spec:
  fixes f :: "int \<Rightarrow> 'k::linorder" and r :: 'k
  assumes "s \<le> e" "key_sorted f s e"
  defines "m \<equiv> binary_search_first_loop f s e r"
  shows "s \<le> m \<and> m \<le> e \<and> (\<forall>i. s \<le> i \<longrightarrow> i < m \<longrightarrow> f i < r) \<and> (m < e \<longrightarrow> r \<le> f m)"
  using assms(1,2) unfolding m_def
proof (induction f s e r rule: binary_search_first_loop.induct)
  case (1 f s e r)
  show ?case
  proof (cases "s < e")
    case False
    then have "binary_search_first_loop f s e r = s" by (subst binary_search_first_loop.simps) simp
    with "1.prems" False show ?thesis by simp
  next
    case True
    define mid where "mid = s + (e - s) div 2"
    have mid: "s \<le> mid" "mid < e" using True by (auto simp: mid_def)
    show ?thesis
    proof (cases "r > f mid")
      case gt: True
      let ?m = "binary_search_first_loop f (mid + 1) e r"
      have IH: "mid + 1 \<le> ?m \<and> ?m \<le> e \<and> (\<forall>i. mid + 1 \<le> i \<longrightarrow> i < ?m \<longrightarrow> f i < r) \<and> (?m < e \<longrightarrow> r \<le> f ?m)"
        using "1.IH"(1)[OF True mid_def gt] mid key_sorted_sub[OF "1.prems"(2), of "mid + 1" e] by simp
      have low: "f i < r" if "s \<le> i" "i < mid + 1" for i
        using key_sortedD[OF "1.prems"(2), of i mid] that mid gt by simp
      have eq: "binary_search_first_loop f s e r = ?m"
        using True gt by (simp add: binary_search_first_loop.simps[of f s e] Let_def flip: mid_def)
      have "f i < r" if "s \<le> i" "i < ?m" for i
        using IH low[of i] that by (cases "i < mid + 1") auto
      then show ?thesis unfolding eq using IH mid by auto
    next
      case le: False
      let ?m = "binary_search_first_loop f s mid r"
      have IH: "s \<le> ?m \<and> ?m \<le> mid \<and> (\<forall>i. s \<le> i \<longrightarrow> i < ?m \<longrightarrow> f i < r) \<and> (?m < mid \<longrightarrow> r \<le> f ?m)"
        using "1.IH"(2)[OF True mid_def le] mid key_sorted_sub[OF "1.prems"(2), of s mid] by simp
      have eq: "binary_search_first_loop f s e r = ?m"
        using True le by (simp add: binary_search_first_loop.simps[of f s e] Let_def flip: mid_def)
      show ?thesis unfolding eq using IH mid le by (cases "?m < mid") auto
    qed
  qed
qed

lemma BinarySearchFirst_spec:
  assumes "BinarySearchFirst f s e r = Some m" "key_sorted f s e"
  shows "s \<le> m" "m \<le> e" "\<And>i. s \<le> i \<Longrightarrow> i < m \<Longrightarrow> f i < r" "m < e \<Longrightarrow> r \<le> f m"
  using assms binary_search_first_loop_spec[of s e f r]
  by (auto simp: BinarySearchFirst_def split: if_splits)

lemma binary_search_first_idx_loop_spec:
  fixes f :: "int \<Rightarrow> 'k::linorder" and r :: 'k
  assumes "0 \<le> s" "s \<le> e" "key_sorted f s e"
  defines "m \<equiv> binary_search_first_idx_loop f s e r"
  shows "(m = -1 \<and> (\<forall>i. s \<le> i \<longrightarrow> i \<le> e \<longrightarrow> f i \<noteq> r)) \<or>
    (s \<le> m \<and> m \<le> e \<and> f m = r \<and> (\<forall>i. s \<le> i \<longrightarrow> i < m \<longrightarrow> f i < r))"
  using assms(1-3) unfolding m_def
proof (induction f s e r rule: binary_search_first_idx_loop.induct)
  case (1 f s e r)
  note sD = key_sortedD[OF "1.prems"(3)]
  show ?case
  proof (cases "e - s > 1")
    case False
    then have eq: "binary_search_first_idx_loop f s e r = (if f s = r then s else if f e = r then e else -1)"
      by (subst binary_search_first_idx_loop.simps) simp
    from False consider "e = s" | "e = s + 1" using "1.prems" by linarith
    then show ?thesis
    proof cases
      case 1
      then show ?thesis unfolding eq by auto
    next
      case 2
      then have "\<And>i. s \<le> i \<Longrightarrow> i \<le> e \<Longrightarrow> i = s \<or> i = e" by auto
      moreover have "f s \<le> f e" using sD[of s e] "1.prems" by simp
      ultimately show ?thesis unfolding eq using 2
        by (auto simp: order.strict_iff_order)
    qed
  next
    case True
    define mid where "mid = s + (e - s) div 2"
    have mid: "s < mid" "mid < e" using True by (auto simp: mid_def)
    show ?thesis
    proof (cases "r < f s \<or> r > f e")
      case out: True
      then have "\<forall>i. s \<le> i \<longrightarrow> i \<le> e \<longrightarrow> f i \<noteq> r" using sD by force
      with True out show ?thesis by (simp add: binary_search_first_idx_loop.simps[of f s e])
    next
      case inn: False
      show ?thesis
      proof (cases "f mid \<ge> r")
        case ge: True
        have eq: "binary_search_first_idx_loop f s e r = binary_search_first_idx_loop f s mid r"
          using True inn ge by (simp add: binary_search_first_idx_loop.simps[of f s e] Let_def flip: mid_def)
        note IH = "1.IH"(1)[OF True inn mid_def ge "1.prems"(1) _ key_sorted_sub[OF "1.prems"(3), of s mid]]
        have miss: "\<forall>i. s \<le> i \<longrightarrow> i \<le> e \<longrightarrow> f i \<noteq> r" if h: "\<forall>i. s \<le> i \<longrightarrow> i \<le> mid \<longrightarrow> f i \<noteq> r"
        proof (intro allI impI)
          fix i assume i: "s \<le> i" "i \<le> e"
          show "f i \<noteq> r"
          proof (cases "i \<le> mid")
            case True with h i show ?thesis by simp
          next
            case False
            then have "f mid \<le> f i" using sD[of mid i] mid i by simp
            moreover have "f mid \<noteq> r" using h mid by simp
            ultimately show ?thesis using ge by auto
          qed
        qed
        from IH mid show ?thesis unfolding eq using miss by auto
      next
        case lt: False
        have eq: "binary_search_first_idx_loop f s e r = binary_search_first_idx_loop f mid e r"
          using True inn lt by (simp add: binary_search_first_idx_loop.simps[of f s e] Let_def flip: mid_def)
        note IH = "1.IH"(2)[OF True inn mid_def lt _ _ key_sorted_sub[OF "1.prems"(3), of mid e]]
        have low: "f i < r" if "s \<le> i" "i \<le> mid" for i
          using sD[of i mid] that mid lt by simp
        have low': "f i < r" if "s \<le> i" "i < m" "\<forall>i. mid \<le> i \<longrightarrow> i < m \<longrightarrow> f i < r" for i m
          using low[of i] that by (cases "i \<le> mid") auto
        have miss: "f i \<noteq> r" if "s \<le> i" "i \<le> e" "\<forall>i. mid \<le> i \<longrightarrow> i \<le> e \<longrightarrow> f i \<noteq> r" for i
          using low[of i] that by (cases "i \<le> mid") auto
        from IH mid "1.prems" consider
            "binary_search_first_idx_loop f mid e r = -1" "\<forall>i. mid \<le> i \<longrightarrow> i \<le> e \<longrightarrow> f i \<noteq> r"
          | "mid \<le> binary_search_first_idx_loop f mid e r" "binary_search_first_idx_loop f mid e r \<le> e"
            "f (binary_search_first_idx_loop f mid e r) = r"
            "\<forall>i. mid \<le> i \<longrightarrow> i < binary_search_first_idx_loop f mid e r \<longrightarrow> f i < r"
          by fastforce
        then show ?thesis
        proof cases
          case 1
          with miss show ?thesis unfolding eq by blast
        next
          case 2
          with low' mid show ?thesis unfolding eq by (metis less_le_trans order.strict_implies_order)
        qed
      qed
    qed
  qed
qed

section \<open>Properties\<close>

text \<open>C13: on a sorted array with at least one element \<^verbatim>\<open>BinarySearch\<close> finds an element with the given key exactly when there
  is one. \<^verbatim>\<open>BinarySearchFirst\<close> over pointers returns the first position whose key is not less than the one searched
  for (its comment says greater, which differs when the key itself occurs), or the last position when all keys are less. The
  indexed variant returns the first position with an equal key, or -1 when there is none.\<close>

theorem binary_search_correct:
  assumes "key_sorted f s e" "0 \<le> s" "s \<le> e"
  shows "((\<exists>m. BinarySearch f s e r = Some m \<and> s \<le> m \<and> m \<le> e \<and> f m = r) \<or>
      (BinarySearch f s e r = None \<and> (\<forall>i. s \<le> i \<longrightarrow> i \<le> e \<longrightarrow> f i \<noteq> r))) \<and>
    (\<exists>m. BinarySearchFirst f s e r = Some m \<and> s \<le> m \<and> m \<le> e \<and>
      (\<forall>i. s \<le> i \<longrightarrow> i < m \<longrightarrow> f i < r) \<and> (m < e \<longrightarrow> r \<le> f m)) \<and>
    (let m = BinarySearchFirst_idx f s e r in
      (m = -1 \<and> (\<forall>i. s \<le> i \<longrightarrow> i \<le> e \<longrightarrow> f i \<noteq> r)) \<or>
      (s \<le> m \<and> m \<le> e \<and> f m = r \<and> (\<forall>i. s \<le> i \<longrightarrow> i < m \<longrightarrow> f i < r)))"
proof (intro conjI)
  show "(\<exists>m. BinarySearch f s e r = Some m \<and> s \<le> m \<and> m \<le> e \<and> f m = r) \<or>
      (BinarySearch f s e r = None \<and> (\<forall>i. s \<le> i \<longrightarrow> i \<le> e \<longrightarrow> f i \<noteq> r))"
    using BinarySearch_iff[OF assms(1), of r] BinarySearch_Some[of f s e r]
    by (cases "BinarySearch f s e r") auto
  show "\<exists>m. BinarySearchFirst f s e r = Some m \<and> s \<le> m \<and> m \<le> e \<and>
      (\<forall>i. s \<le> i \<longrightarrow> i < m \<longrightarrow> f i < r) \<and> (m < e \<longrightarrow> r \<le> f m)"
    using assms binary_search_first_loop_spec[of s e f r] by (simp add: BinarySearchFirst_def)
  show "let m = BinarySearchFirst_idx f s e r in
      (m = -1 \<and> (\<forall>i. s \<le> i \<longrightarrow> i \<le> e \<longrightarrow> f i \<noteq> r)) \<or>
      (s \<le> m \<and> m \<le> e \<and> f m = r \<and> (\<forall>i. s \<le> i \<longrightarrow> i < m \<longrightarrow> f i < r))"
    unfolding BinarySearchFirst_idx_def Let_def
    by (rule binary_search_first_idx_loop_spec[OF assms(2,3,1)])
qed

theorem binary_search_correct_witness:
  "key_sorted (\<lambda>i. i div 2) 0 9 \<and> BinarySearchFirst (\<lambda>i::int. i div 2) 0 9 3 = Some 6 \<and> (5::int) div 2 < 3 \<and>
   BinarySearchFirst (\<lambda>i::int. i div 2) 0 9 5 = Some 9 \<and> BinarySearchFirst_idx (\<lambda>i::int. i div 2) 0 9 5 = -1"
proof -
  have k: "key_sorted (\<lambda>i::int. i div 2) 0 9" by (auto simp: key_sorted_def zdiv_mono1)
  have "BinarySearchFirst (\<lambda>i::int. i div 2) 0 9 3 = Some 6" by code_simp
  moreover have "BinarySearchFirst (\<lambda>i::int. i div 2) 0 9 5 = Some 9" "BinarySearchFirst_idx (\<lambda>i::int. i div 2) 0 9 5 = -1" by code_simp+
  ultimately show ?thesis using k binary_search_correct[OF k, of 3] by simp
qed

end
