(* ===== verification/Heap_Order.thy ===== *)
theory Heap_Order
  imports Prelude
begin

text \<open>
  What the two array heaps of the program share (\<^verbatim>\<open>CSphQueue\<close> in \<^verbatim>\<open>src/src/std/queue_impl.h\<close> and
  \<^verbatim>\<open>TimeoutQueue_c\<close> in \<^verbatim>\<open>src/src/timeout_queue.cpp\<close>): the contract of a comparison functor as a
  locale, the heap shape of the first \<open>n\<close> slots of an array, and the effect of one exchange while
  an element floats up or sinks down.
\<close>

definition parent :: "nat \<Rightarrow> nat" where
  "parent i = (i - 1) div 2"

definition swap :: "'a list \<Rightarrow> nat \<Rightarrow> nat \<Rightarrow> 'a list" where
  "swap d i j = d[i := d ! j, j := d ! i]"

definition heap :: "('a \<Rightarrow> 'a \<Rightarrow> bool) \<Rightarrow> 'a list \<Rightarrow> nat \<Rightarrow> bool" where
  "heap lt d n \<longleftrightarrow> (\<forall>j. 0 < j \<longrightarrow> j < n \<longrightarrow> \<not> lt (d ! j) (d ! parent j))"

text \<open>The heap with one slot \<open>i\<close> whose element may still have to float up, or to sink.\<close>

definition heap_up :: "('a \<Rightarrow> 'a \<Rightarrow> bool) \<Rightarrow> 'a list \<Rightarrow> nat \<Rightarrow> nat \<Rightarrow> bool" where
  "heap_up lt d n i \<longleftrightarrow>
     (\<forall>j. 0 < j \<longrightarrow> j < n \<longrightarrow> j \<noteq> i \<longrightarrow> \<not> lt (d ! j) (d ! parent j)) \<and>
     (\<forall>c. 0 < c \<longrightarrow> c < n \<longrightarrow> parent c = i \<longrightarrow> 0 < i \<longrightarrow> \<not> lt (d ! c) (d ! parent i))"

definition heap_down :: "('a \<Rightarrow> 'a \<Rightarrow> bool) \<Rightarrow> 'a list \<Rightarrow> nat \<Rightarrow> nat \<Rightarrow> bool" where
  "heap_down lt d n i \<longleftrightarrow>
     (\<forall>j. 0 < j \<longrightarrow> j < n \<longrightarrow> parent j \<noteq> i \<longrightarrow> \<not> lt (d ! j) (d ! parent j)) \<and>
     (\<forall>c. 0 < c \<longrightarrow> c < n \<longrightarrow> parent c = i \<longrightarrow> 0 < i \<longrightarrow> \<not> lt (d ! c) (d ! parent i))"

text \<open>The same while only the slots from \<open>s\<close> on are a heap.\<close>

definition heap_from :: "('a \<Rightarrow> 'a \<Rightarrow> bool) \<Rightarrow> 'a list \<Rightarrow> nat \<Rightarrow> nat \<Rightarrow> bool" where
  "heap_from lt d s n \<longleftrightarrow> (\<forall>j. 0 < j \<longrightarrow> j < n \<longrightarrow> s \<le> parent j \<longrightarrow> \<not> lt (d ! j) (d ! parent j))"

definition heap_down_from :: "('a \<Rightarrow> 'a \<Rightarrow> bool) \<Rightarrow> 'a list \<Rightarrow> nat \<Rightarrow> nat \<Rightarrow> nat \<Rightarrow> bool" where
  "heap_down_from lt d s n i \<longleftrightarrow>
     (\<forall>j. 0 < j \<longrightarrow> j < n \<longrightarrow> s \<le> parent j \<longrightarrow> parent j \<noteq> i \<longrightarrow> \<not> lt (d ! j) (d ! parent j)) \<and>
     (\<forall>c. 0 < c \<longrightarrow> c < n \<longrightarrow> parent c = i \<longrightarrow> 0 < i \<longrightarrow> s \<le> parent i \<longrightarrow> \<not> lt (d ! c) (d ! parent i))"

lemma heap_from_0: "heap_from lt d 0 n = heap lt d n"
  by (simp add: heap_from_def heap_def)

lemma heap_down_from_0: "heap_down_from lt d 0 n = heap_down lt d n"
  by (auto simp: heap_down_from_def heap_down_def fun_eq_iff)

section \<open>Positions and exchanges\<close>

lemma parent_less [simp]: "0 < i \<Longrightarrow> parent i < i"
  by (simp add: parent_def)

lemma parent_eq_iff: "0 < c \<Longrightarrow> parent c = i \<longleftrightarrow> c = 2 * i + 1 \<or> c = 2 * i + 2"
  by (auto simp: parent_def)

lemma parent_le: "parent i \<le> i"
  by (simp add: parent_def)

lemma length_swap [simp, shape_simps]: "length (swap d i j) = length d"
  by (simp add: swap_def)

lemma nth_swap:
  "i < length d \<Longrightarrow> j < length d \<Longrightarrow> swap d i j ! k = (if k = j then d ! i else if k = i then d ! j else d ! k)"
  by (auto simp: swap_def nth_list_update)

lemma mset_swap_self: "i < length d \<Longrightarrow> j < length d \<Longrightarrow> mset (swap d i j) = mset d"
  by (simp add: swap_def mset_swap)

lemma take_swap:
  "i < n \<Longrightarrow> j < n \<Longrightarrow> n \<le> length d \<Longrightarrow> take n (swap d i j) = swap (take n d) i j"
  by (simp add: swap_def take_update_swap)

lemma drop_swap:
  "i < n \<Longrightarrow> j < n \<Longrightarrow> n \<le> length d \<Longrightarrow> drop n (swap d i j) = drop n d"
  by (simp add: swap_def)

lemma mset_take_swap:
  "i < n \<Longrightarrow> j < n \<Longrightarrow> n \<le> length d \<Longrightarrow> mset (take n (swap d i j)) = mset (take n d)"
  by (simp add: take_swap mset_swap_self)

section \<open>The contract of a comparison\<close>

locale strict_weak =
  fixes lt :: "'a \<Rightarrow> 'a \<Rightarrow> bool"
  assumes asym: "lt x y \<Longrightarrow> \<not> lt y x"
    and neg_trans: "\<not> lt x y \<Longrightarrow> \<not> lt y z \<Longrightarrow> \<not> lt x z"
begin

lemma irrefl: "\<not> lt x x"
  using asym by blast

lemma heap_root_le:
  assumes "heap lt d n" "i < n"
  shows "\<not> lt (d ! i) (d ! 0)"
  using assms(2)
proof (induction i rule: less_induct)
  case (less i)
  show ?case
  proof (cases "i = 0")
    case True
    then show ?thesis by (simp add: irrefl)
  next
    case False
    then have "parent i < i" by simp
    with less have "\<not> lt (d ! parent i) (d ! 0)" by simp
    moreover have "\<not> lt (d ! i) (d ! parent i)"
      using assms(1) less.prems False by (simp add: heap_def)
    ultimately show ?thesis by (metis neg_trans)
  qed
qed

lemma heap_up_start: "heap lt d n \<Longrightarrow> n \<le> m \<Longrightarrow> m \<le> Suc n \<Longrightarrow> heap_up lt d m n"
  by (auto simp: heap_def heap_up_def less_Suc_eq parent_eq_iff)

lemma heap_up_root: "heap_up lt d n 0 \<Longrightarrow> heap lt d n"
  by (simp add: heap_up_def heap_def)

lemma heap_up_done:
  "heap_up lt d n i \<Longrightarrow> \<not> lt (d ! i) (d ! parent i) \<Longrightarrow> heap lt d n"
  by (metis heap_def heap_up_def)

lemma heap_up_step:
  assumes "heap_up lt d n i" "0 < i" "i < n" "n \<le> length d" "lt (d ! i) (d ! parent i)"
  shows "heap_up lt (swap d i (parent i)) n (parent i)"
proof -
  let ?p = "parent i" and ?d = "swap d i (parent i)"
  have "?p < i" using assms(2) by simp
  then have p: "?p < i" "?p < length d" "i < length d" using assms(3,4) by linarith+
  have nth: "?d ! k = (if k = ?p then d ! i else if k = i then d ! ?p else d ! k)" for k
    using p by (simp add: nth_swap)
  have ok: "\<not> lt (d ! j) (d ! parent j)" if "0 < j" "j < n" "j \<noteq> i" for j
    using assms(1) that by (simp add: heap_up_def)
  have kid: "\<not> lt (d ! c) (d ! ?p)" if "0 < c" "c < n" "parent c = i" for c
    using assms(1,2) that by (simp add: heap_up_def)
  have np: "\<not> lt (d ! ?p) (d ! i)" using assms(5) by (rule asym)
  have "\<not> lt (?d ! j) (?d ! parent j)" if j: "0 < j" "j < n" "j \<noteq> ?p" for j
  proof (cases "j = i")
    case True
    then show ?thesis using p np by (simp add: nth)
  next
    case False
    show ?thesis
    proof (cases "parent j = ?p")
      case True
      have "\<not> lt (d ! j) (d ! ?p)" using ok[OF j(1,2) False] True by simp
      then have "\<not> lt (d ! j) (d ! i)" using np by (rule neg_trans)
      then show ?thesis using True False j by (simp add: nth)
    next
      case F2: False
      show ?thesis using ok[OF j(1,2) False] kid[OF j(1,2)] F2 False j by (auto simp: nth)
    qed
  qed
  moreover have "\<not> lt (?d ! c) (?d ! parent ?p)"
    if c: "0 < c" "c < n" "parent c = ?p" "0 < ?p" for c
  proof -
    have pp: "parent ?p < ?p" using c by simp
    have up: "\<not> lt (d ! ?p) (d ! parent ?p)" using ok[of ?p] c p assms(3) by simp
    have "c \<noteq> ?p" using c parent_less[of c] by auto
    show ?thesis
    proof (cases "c = i")
      case True
      then show ?thesis using up pp p by (simp add: nth)
    next
      case False
      have "\<not> lt (d ! c) (d ! ?p)" using ok[OF c(1,2) False] c by simp
      with up have "\<not> lt (d ! c) (d ! parent ?p)" by (metis neg_trans)
      then show ?thesis using False \<open>c \<noteq> ?p\<close> pp p by (simp add: nth)
    qed
  qed
  ultimately show ?thesis by (simp add: heap_up_def)
qed

lemma heap_down_start:
  assumes "heap lt d n"
  shows "heap_down lt (d[0 := x]) n 0"
  using assms by (auto simp: heap_def heap_down_def nth_list_update parent_eq_iff)

lemma heap_down_done:
  assumes "heap_down lt d n i" "\<And>c. 0 < c \<Longrightarrow> c < n \<Longrightarrow> parent c = i \<Longrightarrow> \<not> lt (d ! c) (d ! i)"
  shows "heap lt d n"
  using assms by (metis heap_def heap_down_def)

lemma heap_down_from_done:
  assumes "heap_down_from lt d s n i" "\<And>c. 0 < c \<Longrightarrow> c < n \<Longrightarrow> parent c = i \<Longrightarrow> \<not> lt (d ! c) (d ! i)"
  shows "heap_from lt d s n"
  using assms by (metis heap_from_def heap_down_from_def)

lemma heap_down_from_step:
  assumes "heap_down_from lt d s n i" "s \<le> i" "0 < c" "c < n" "n \<le> length d" "parent c = i"
    and min: "\<And>c'. 0 < c' \<Longrightarrow> c' < n \<Longrightarrow> parent c' = i \<Longrightarrow> \<not> lt (d ! c') (d ! c)"
    and le: "\<not> lt (d ! i) (d ! c)"
  shows "heap_down_from lt (swap d i c) s n c"
proof -
  let ?d = "swap d i c"
  have "i < c" using assms(3,6) parent_less[of c] by simp
  then have i: "i < c" "i < length d" "c < length d" using assms(4,5) by linarith+
  have nth: "?d ! k = (if k = c then d ! i else if k = i then d ! c else d ! k)" for k
    using i by (simp add: nth_swap)
  have ok: "\<not> lt (d ! j) (d ! parent j)" if "0 < j" "j < n" "s \<le> parent j" "parent j \<noteq> i" for j
    using assms(1) that by (simp add: heap_down_from_def)
  have kid: "\<not> lt (d ! c) (d ! parent i)" if "0 < i" "s \<le> parent i"
    using assms(1,3,4,6) that by (simp add: heap_down_from_def)
  have "\<not> lt (?d ! j) (?d ! parent j)" if j: "0 < j" "j < n" "s \<le> parent j" "parent j \<noteq> c" for j
  proof -
    have pj: "parent j < j" using j by simp
    consider "j = c" | "j = i" | "j \<noteq> c" "j \<noteq> i" "parent j = i" | "j \<noteq> c" "j \<noteq> i" "parent j \<noteq> i" by blast
    then show ?thesis
    proof cases
      case 1
      then show ?thesis using le assms(6) i by (simp add: nth)
    next
      case 2
      then show ?thesis using kid j pj i by (simp add: nth)
    next
      case 3
      then show ?thesis using min[OF j(1,2)] i by (simp add: nth)
    next
      case 4
      then show ?thesis using ok[OF j(1,2)] j(3,4) by (simp add: nth)
    qed
  qed
  moreover have "\<not> lt (?d ! k) (?d ! parent c)"
    if k: "0 < k" "k < n" "parent k = c" for k
  proof -
    have "c < k" using k parent_less[of k] by auto
    then show ?thesis using ok[OF k(1,2)] k i assms(2,6) by (auto simp: nth)
  qed
  ultimately show ?thesis by (simp add: heap_down_from_def)
qed

lemma heap_down_step:
  assumes "heap_down lt d n i" "0 < c" "c < n" "n \<le> length d" "parent c = i"
    and "\<And>c'. 0 < c' \<Longrightarrow> c' < n \<Longrightarrow> parent c' = i \<Longrightarrow> \<not> lt (d ! c') (d ! c)" "\<not> lt (d ! i) (d ! c)"
  shows "heap_down lt (swap d i c) n c"
  using heap_down_from_step[of d 0 n i c] assms unfolding heap_down_from_0 by simp

lemma flip: "strict_weak (\<lambda>x y. lt y x)"
  by unfold_locales (auto dest: asym, metis neg_trans)

end

end
