(* ===== verification/Sph_Queue.thy ===== *)
theory Sph_Queue
  imports Heap_Order
begin

text \<open>
  The bounded priority queue \<^verbatim>\<open>CSphQueue<T, COMP>\<close> of \<^verbatim>\<open>src/src/std/queue_impl.h\<close>: an array heap
  whose root is the least entry; a full queue rejects an entry that is less than its root and
  otherwise drops the root. \<open>IsLess\<close> is \<^verbatim>\<open>COMP::IsLess\<close>. \<^const>\<open>None\<close> is a failed assertion
  (an access to a queue without storage or without entries).
\<close>

section \<open>Operations\<close>

record 'a CSphQueue =
  m_pData :: "'a list"
  m_iUsed :: nat
  m_iSize :: nat

definition CSphQueue_Reset :: "'a \<Rightarrow> nat \<Rightarrow> 'a CSphQueue \<Rightarrow> 'a CSphQueue" where
  "CSphQueue_Reset tDefault iSize q = q\<lparr>m_iSize := iSize, m_pData := replicate iSize tDefault\<rparr>"

definition CSphQueue_new :: "'a \<Rightarrow> nat \<Rightarrow> 'a CSphQueue" where
  "CSphQueue_new tDefault iSize = CSphQueue_Reset tDefault iSize \<lparr>m_pData = [], m_iUsed = 0, m_iSize = 0\<rparr>"

definition CSphQueue_Clear :: "'a CSphQueue \<Rightarrow> 'a CSphQueue" where
  "CSphQueue_Clear q = q\<lparr>m_iUsed := 0\<rparr>"

function queue_shift_up :: "('a \<Rightarrow> 'a \<Rightarrow> bool) \<Rightarrow> 'a list \<Rightarrow> nat \<Rightarrow> 'a list" where
  "queue_shift_up IsLess d iEntry =
    (if iEntry \<noteq> 0 then
       let iParent = parent iEntry in
       if \<not> IsLess (d ! iEntry) (d ! iParent) then d
       else queue_shift_up IsLess (swap d iEntry iParent) iParent
     else d)"
  by pat_completeness auto
termination
  by (relation "measure (\<lambda>(l, d, i). i)") auto

declare queue_shift_up.simps [simp del]

definition smallest_child :: "('a \<Rightarrow> 'a \<Rightarrow> bool) \<Rightarrow> nat \<Rightarrow> 'a list \<Rightarrow> nat \<Rightarrow> nat" where
  "smallest_child IsLess n d iChild =
    (if iChild + 1 < n \<and> IsLess (d ! (iChild + 1)) (d ! iChild) then iChild + 1 else iChild)"

function queue_shift_down :: "('a \<Rightarrow> 'a \<Rightarrow> bool) \<Rightarrow> nat \<Rightarrow> 'a list \<Rightarrow> nat \<Rightarrow> 'a list" where
  "queue_shift_down IsLess n d iEntry =
    (let iChild = 2 * iEntry + 1 in
     if iChild \<ge> n then d
     else
       let iChild = smallest_child IsLess n d iChild in
       if IsLess (d ! iChild) (d ! iEntry)
       then queue_shift_down IsLess n (swap d iChild iEntry) iChild
       else d)"
  by pat_completeness auto
termination
  by (relation "measure (\<lambda>(l, n, d, i). n - i)") (auto simp: smallest_child_def split: if_splits)

declare queue_shift_down.simps [simp del]

definition CSphQueue_Pop :: "('a \<Rightarrow> 'a \<Rightarrow> bool) \<Rightarrow> 'a CSphQueue \<Rightarrow> 'a CSphQueue option" where
  "CSphQueue_Pop IsLess q =
    (if m_iUsed q = 0 \<or> m_iSize q = 0 then None
     else
       let n = m_iUsed q - 1 in
       if n = 0 then Some (q\<lparr>m_iUsed := 0\<rparr>)
       else Some (q\<lparr>m_iUsed := n, m_pData := queue_shift_down IsLess n ((m_pData q)[0 := m_pData q ! n]) 0\<rparr>))"

definition queue_add :: "('a \<Rightarrow> 'a \<Rightarrow> bool) \<Rightarrow> 'a \<Rightarrow> 'a CSphQueue \<Rightarrow> 'a CSphQueue" where
  "queue_add IsLess tEntry q =
    q\<lparr>m_pData := queue_shift_up IsLess ((m_pData q)[m_iUsed q := tEntry]) (m_iUsed q),
      m_iUsed := m_iUsed q + 1\<rparr>"

definition CSphQueue_Push :: "('a \<Rightarrow> 'a \<Rightarrow> bool) \<Rightarrow> 'a \<Rightarrow> 'a CSphQueue \<Rightarrow> (bool \<times> 'a CSphQueue) option" where
  "CSphQueue_Push IsLess tEntry q =
    (if m_iSize q = 0 then None
     else if m_iUsed q = m_iSize q then
       if IsLess tEntry (m_pData q ! 0) then Some (False, q)
       else (case CSphQueue_Pop IsLess q of None \<Rightarrow> None | Some q \<Rightarrow> Some (True, queue_add IsLess tEntry q))
     else Some (True, queue_add IsLess tEntry q))"

definition CSphQueue_Root :: "'a CSphQueue \<Rightarrow> 'a option" where
  "CSphQueue_Root q = (if m_iUsed q = 0 \<or> m_iSize q = 0 then None else Some (m_pData q ! 0))"

definition CSphQueue_Last :: "'a CSphQueue \<Rightarrow> 'a option" where
  "CSphQueue_Last q = (if m_iUsed q = 0 \<or> m_iSize q = 0 then None else Some (m_pData q ! (m_iUsed q - 1)))"

fun push_all :: "('a \<Rightarrow> 'a \<Rightarrow> bool) \<Rightarrow> 'a list \<Rightarrow> 'a CSphQueue \<Rightarrow> 'a CSphQueue option" where
  "push_all IsLess [] q = Some q"
| "push_all IsLess (x # xs) q =
     (case CSphQueue_Push IsLess x q of None \<Rightarrow> None | Some (_, q) \<Rightarrow> push_all IsLess xs q)"

section \<open>Invariant and contents\<close>

definition queue_inv :: "('a \<Rightarrow> 'a \<Rightarrow> bool) \<Rightarrow> 'a CSphQueue \<Rightarrow> bool" where
  "queue_inv IsLess q \<longleftrightarrow> length (m_pData q) = m_iSize q \<and> m_iUsed q \<le> m_iSize q \<and>
     heap IsLess (m_pData q) (m_iUsed q)"

definition items :: "'a CSphQueue \<Rightarrow> 'a multiset" where
  "items q = mset (take (m_iUsed q) (m_pData q))"

lemma size_items: "queue_inv lt q \<Longrightarrow> size (items q) = m_iUsed q"
  by (simp add: queue_inv_def items_def)

lemma queue_new_inv: "queue_inv lt (CSphQueue_new t n)" and items_new: "items (CSphQueue_new t n) = {#}"
  by (simp_all add: queue_inv_def CSphQueue_new_def CSphQueue_Reset_def heap_def items_def)

lemma queue_clear_inv: "queue_inv lt q \<Longrightarrow> queue_inv lt (CSphQueue_Clear q)"
  and items_clear: "items (CSphQueue_Clear q) = {#}"
  by (simp_all add: queue_inv_def CSphQueue_Clear_def heap_def items_def)

lemma smallest_child_cases:
  "smallest_child lt n d c = c \<or> smallest_child lt n d c = c + 1"
  by (simp add: smallest_child_def)

lemma smallest_child_less: "c < n \<Longrightarrow> smallest_child lt n d c < n"
  by (auto simp: smallest_child_def)

lemma shift_up_mset:
  "i < n \<Longrightarrow> n \<le> length d \<Longrightarrow>
    length (queue_shift_up lt d i) = length d \<and>
    mset (take n (queue_shift_up lt d i)) = mset (take n d)"
proof (induction i arbitrary: d rule: less_induct)
  case (less i)
  show ?case
  proof (cases "i \<noteq> 0 \<and> lt (d ! i) (d ! parent i)")
    case True
    then have eq: "queue_shift_up lt d i = queue_shift_up lt (swap d i (parent i)) (parent i)"
      by (subst queue_shift_up.simps) (simp add: Let_def)
    have p: "parent i < i" using True by simp
    show ?thesis unfolding eq
      using less.IH[OF p, of "swap d i (parent i)"] p less.prems by (simp add: mset_take_swap)
  next
    case False
    then have eq: "queue_shift_up lt d i = d" by (subst queue_shift_up.simps) (auto simp: Let_def)
    show ?thesis unfolding eq by simp
  qed
qed

lemma shift_down_mset:
  "i < n \<Longrightarrow> n \<le> length d \<Longrightarrow>
    length (queue_shift_down lt n d i) = length d \<and>
    mset (take n (queue_shift_down lt n d i)) = mset (take n d)"
proof (induction "n - i" arbitrary: d i rule: less_induct)
  case less
  let ?c = "smallest_child lt n d (2 * i + 1)"
  show ?case
  proof (cases "2 * i + 1 < n \<and> lt (d ! ?c) (d ! i)")
    case True
    then have eq: "queue_shift_down lt n d i = queue_shift_down lt n (swap d ?c i) ?c"
      by (subst queue_shift_down.simps) (simp add: Let_def)
    have c: "?c < n" "i < ?c"
      using True smallest_child_cases[of lt n d "2 * i + 1"] by (auto simp: smallest_child_less)
    show ?thesis unfolding eq
      using less.hyps[of ?c "swap d ?c i"] c less.prems by (simp add: mset_take_swap)
  next
    case False
    then have eq: "queue_shift_down lt n d i = d" by (subst queue_shift_down.simps) (auto simp: Let_def)
    show ?thesis unfolding eq by simp
  qed
qed

text \<open>What a queue of capacity \<open>k\<close> should hold after the entries \<open>S\<close> were pushed.\<close>

definition best :: "('a \<Rightarrow> 'a \<Rightarrow> bool) \<Rightarrow> nat \<Rightarrow> 'a multiset \<Rightarrow> 'a multiset \<Rightarrow> bool" where
  "best lt k S M \<longleftrightarrow> M \<subseteq># S \<and> size M = min k (size S) \<and> (\<forall>y \<in># M. \<forall>z \<in># S - M. \<not> lt y z)"

context strict_weak
begin

lemma trans_lt: "lt x y \<Longrightarrow> lt y z \<Longrightarrow> lt x z"
  by (metis asym neg_trans)

lemma shift_up_heap:
  "heap_up lt d n i \<Longrightarrow> i < n \<Longrightarrow> n \<le> length d \<Longrightarrow> heap lt (queue_shift_up lt d i) n"
proof (induction i arbitrary: d rule: less_induct)
  case (less i)
  show ?case
  proof (cases "i \<noteq> 0 \<and> lt (d ! i) (d ! parent i)")
    case True
    then have eq: "queue_shift_up lt d i = queue_shift_up lt (swap d i (parent i)) (parent i)"
      by (subst queue_shift_up.simps) (simp add: Let_def)
    have p: "parent i < i" using True by simp
    show ?thesis unfolding eq
      using less.IH[OF p heap_up_step[OF less.prems(1)]] True p less.prems by simp
  next
    case False
    then have eq: "queue_shift_up lt d i = d" by (subst queue_shift_up.simps) (auto simp: Let_def)
    show ?thesis
    proof (cases "i = 0")
      case True
      with less.prems(1) show ?thesis unfolding eq by (simp add: heap_up_root)
    next
      case F: False
      with False have "\<not> lt (d ! i) (d ! parent i)" by simp
      then show ?thesis unfolding eq by (rule heap_up_done[OF less.prems(1)])
    qed
  qed
qed

lemma smallest_child_min:
  assumes "0 < c'" "c' < n" "parent c' = i" "2 * i + 1 < n"
  shows "\<not> lt (d ! c') (d ! smallest_child lt n d (2 * i + 1))"
  using assms irrefl asym by (auto simp: parent_eq_iff smallest_child_def)

lemma shift_down_heap:
  "heap_down lt d n i \<Longrightarrow> i < n \<Longrightarrow> n \<le> length d \<Longrightarrow> heap lt (queue_shift_down lt n d i) n"
proof (induction "n - i" arbitrary: d i rule: less_induct)
  case less
  let ?c = "smallest_child lt n d (2 * i + 1)"
  have c: "0 < ?c" "parent ?c = i" "i < ?c"
    using smallest_child_cases[of lt n d "2 * i + 1"] by (auto simp: parent_def)
  show ?case
  proof (cases "2 * i + 1 < n \<and> lt (d ! ?c) (d ! i)")
    case True
    then have eq: "queue_shift_down lt n d i = queue_shift_down lt n (swap d ?c i) ?c"
      by (subst queue_shift_down.simps) (simp add: Let_def)
    have cn: "?c < n" using True by (simp add: smallest_child_less)
    have "heap_down lt (swap d i ?c) n ?c"
      using True c cn less.prems smallest_child_min
      by (intro heap_down_step) (auto dest: asym)
    moreover have "swap d i ?c = swap d ?c i"
      using c cn by (simp add: swap_def list_update_swap)
    ultimately show ?thesis unfolding eq
      using less.hyps[of ?c "swap d ?c i"] c cn less.prems by simp
  next
    case False
    then have eq: "queue_shift_down lt n d i = d" by (subst queue_shift_down.simps) (auto simp: Let_def)
    have "\<not> lt (d ! k) (d ! i)" if k: "0 < k" "k < n" "parent k = i" for k
    proof -
      have n: "2 * i + 1 < n" using k by (auto simp: parent_eq_iff)
      with False have "\<not> lt (d ! ?c) (d ! i)" by simp
      with smallest_child_min[OF k n, of d] show ?thesis by (metis neg_trans)
    qed
    then show ?thesis unfolding eq using heap_down_done[OF less.prems(1)] by blast
  qed
qed

lemma queue_add_correct:
  assumes "queue_inv lt q" "m_iUsed q < m_iSize q"
  shows "queue_inv lt (queue_add lt x q) \<and> items (queue_add lt x q) = add_mset x (items q) \<and>
    m_iSize (queue_add lt x q) = m_iSize q"
proof -
  let ?n = "m_iUsed q" and ?d = "(m_pData q)[m_iUsed q := x]"
  have len: "length ?d = m_iSize q" and h: "heap lt (m_pData q) ?n"
    using assms by (auto simp: queue_inv_def)
  have "heap lt ?d ?n"
    using h by (auto simp: heap_def nth_list_update parent_def)
  then have "heap_up lt ?d (Suc ?n) ?n" by (intro heap_up_start) auto
  then have H: "heap lt (queue_shift_up lt ?d ?n) (Suc ?n)"
    using assms len by (intro shift_up_heap) auto
  have "take (Suc ?n) ?d = take ?n (m_pData q) @ [x]"
    using assms by (simp add: take_Suc_conv_app_nth queue_inv_def)
  then have M: "mset (take (Suc ?n) (queue_shift_up lt ?d ?n)) = add_mset x (items q)"
    and L: "length (queue_shift_up lt ?d ?n) = m_iSize q"
    using shift_up_mset[of ?n "Suc ?n" ?d lt] assms len by (auto simp: items_def)
  show ?thesis using H M L assms by (simp add: queue_inv_def queue_add_def items_def)
qed

lemma queue_pop_correct:
  assumes "queue_inv lt q" "m_iUsed q \<noteq> 0"
  shows "\<exists>q'. CSphQueue_Pop lt q = Some q' \<and> queue_inv lt q' \<and>
    items q = add_mset (m_pData q ! 0) (items q') \<and> m_iSize q' = m_iSize q \<and> m_iUsed q' = m_iUsed q - 1"
proof -
  obtain m where m: "m_iUsed q = Suc m" using assms(2) by (cases "m_iUsed q") auto
  have len: "length (m_pData q) = m_iSize q" "Suc m \<le> m_iSize q" and h: "heap lt (m_pData q) (Suc m)"
    using assms m by (auto simp: queue_inv_def)
  have tk: "take (Suc m) (m_pData q) = take m (m_pData q) @ [m_pData q ! m]"
    using len by (simp add: take_Suc_conv_app_nth)
  show ?thesis
  proof (cases "m = 0")
    case True
    then show ?thesis using m len tk
      by (simp add: CSphQueue_Pop_def queue_inv_def heap_def items_def)
  next
    case False
    let ?d = "(m_pData q)[0 := m_pData q ! m]"
    have "heap lt (m_pData q) m" using h by (simp add: heap_def)
    then have "heap_down lt ?d m 0" by (rule heap_down_start)
    then have H: "heap lt (queue_shift_down lt m ?d 0) m"
      using False len by (intro shift_down_heap) auto
    have M: "mset (take m (queue_shift_down lt m ?d 0)) = mset (take m ?d)"
      and L: "length (queue_shift_down lt m ?d 0) = length (m_pData q)"
      using shift_down_mset[of 0 m ?d lt] False len by auto
    have "add_mset (m_pData q ! 0) (mset (take m ?d)) = mset (take (Suc m) (m_pData q))"
    proof -
      have "take m (m_pData q) \<noteq> []" using False len by auto
      then obtain x xs where x: "take m (m_pData q) = x # xs" by (cases "take m (m_pData q)") auto
      then have "m_pData q ! 0 = x" using False by (metis gr0I nth_Cons_0 nth_take)
      moreover have "take m ?d = m_pData q ! m # xs" using x by (simp add: take_update_swap)
      ultimately show ?thesis using tk x by simp
    qed
    then have I: "items q = add_mset (m_pData q ! 0) (mset (take m (queue_shift_down lt m ?d 0)))"
      by (simp only: M items_def m)
    have "CSphQueue_Pop lt q = Some (q\<lparr>m_iUsed := m, m_pData := queue_shift_down lt m ?d 0\<rparr>)"
      using m False len by (simp add: CSphQueue_Pop_def)
    with H I L m len show ?thesis
      by (intro exI[of _ "q\<lparr>m_iUsed := m, m_pData := queue_shift_down lt m ?d 0\<rparr>"])
        (simp add: queue_inv_def items_def)
  qed
qed

lemma queue_root_least:
  assumes "queue_inv lt q" "y \<in># items q"
  shows "\<not> lt y (m_pData q ! 0)"
proof -
  from assms(2) obtain i where "i < m_iUsed q" "i < length (m_pData q)" "y = m_pData q ! i"
    by (auto simp: items_def in_set_conv_nth)
  with assms(1) show ?thesis using heap_root_le by (auto simp: queue_inv_def)
qed

lemma queue_push_room:
  assumes "queue_inv lt q" "m_iUsed q < m_iSize q"
  shows "\<exists>q'. CSphQueue_Push lt x q = Some (True, q') \<and> queue_inv lt q' \<and> m_iSize q' = m_iSize q \<and>
    items q' = add_mset x (items q)"
  using queue_add_correct[OF assms, of x] assms by (auto simp: CSphQueue_Push_def)

lemma queue_push_full:
  assumes "queue_inv lt q" "m_iUsed q = m_iSize q" "0 < m_iSize q"
  shows "\<exists>b q'. CSphQueue_Push lt x q = Some (b, q') \<and> queue_inv lt q' \<and> m_iSize q' = m_iSize q \<and>
    b = (\<not> lt x (m_pData q ! 0)) \<and>
    (if b then add_mset (m_pData q ! 0) (items q') = add_mset x (items q) else items q' = items q)"
proof (cases "lt x (m_pData q ! 0)")
  case True
  with assms show ?thesis by (intro exI[of _ False] exI[of _ q]) (simp add: CSphQueue_Push_def)
next
  case False
  obtain p where p: "CSphQueue_Pop lt q = Some p" "queue_inv lt p" "m_iSize p = m_iSize q"
    "items q = add_mset (m_pData q ! 0) (items p)" "m_iUsed p = m_iUsed q - 1"
    using queue_pop_correct[OF assms(1)] assms by auto
  have "m_iUsed p < m_iSize p" using p assms by simp
  from queue_add_correct[OF p(2) this, of x] show ?thesis
    using False assms p
    by (intro exI[of _ True] exI[of _ "queue_add lt x p"]) (simp add: CSphQueue_Push_def add_mset_commute)
qed

lemma best_room:
  assumes "best lt k S M" "size M < k"
  shows "best lt k (add_mset x S) (add_mset x M)"
proof -
  have "S = M" using assms
    by (metis best_def min_def mset_subset_size nat_less_le subset_mset.le_less)
  then show ?thesis using assms by (simp add: best_def)
qed

lemma best_reject:
  assumes "best lt k S M" "size M = k" "r \<in># M" "\<And>y. y \<in># M \<Longrightarrow> \<not> lt y r" "lt x r"
  shows "best lt k (add_mset x S) M"
proof -
  have sub: "M \<subseteq># S" and dom: "\<And>y z. y \<in># M \<Longrightarrow> z \<in># S - M \<Longrightarrow> \<not> lt y z"
    using assms(1) by (auto simp: best_def)
  have eq: "add_mset x S - M = add_mset x (S - M)"
    using sub by (metis subset_mset.add_diff_assoc2 union_mset_add_mset_left add_mset_add_single)
  have "\<not> lt y x" if "y \<in># M" for y using assms(4)[OF that] assms(5) trans_lt by blast
  then have "\<forall>y \<in># M. \<forall>z \<in># add_mset x S - M. \<not> lt y z" unfolding eq using dom by auto
  then show ?thesis using assms(1,2) by (auto simp: best_def subset_mset.le_add_same_cancel2 intro: subset_mset.order_trans)
qed

lemma best_replace:
  assumes "best lt k S (add_mset r N)" "size (add_mset r N) = k" "\<And>y. y \<in># N \<Longrightarrow> \<not> lt y r" "\<not> lt x r"
  shows "best lt k (add_mset x S) (add_mset x N)"
proof -
  have sub: "add_mset r N \<subseteq># S"
    and dom: "\<And>y z. y \<in># add_mset r N \<Longrightarrow> z \<in># S - add_mset r N \<Longrightarrow> \<not> lt y z"
    using assms(1) by (auto simp: best_def)
  obtain T where T: "S = add_mset r N + T" using sub by (metis subset_mset.le_iff_add)
  have eq: "add_mset x S - add_mset x N = add_mset r (S - add_mset r N)"
    using T by simp
  have "\<not> lt x z" if "z \<in># S - add_mset r N" for z
    using dom[of r z] that assms(4) neg_trans by (metis union_single_eq_member)
  then have "\<forall>y \<in># add_mset x N. \<forall>z \<in># add_mset x S - add_mset x N. \<not> lt y z"
    unfolding eq using dom assms(3,4) by auto
  moreover have "N \<subseteq># S" using sub by (metis mset_subset_eq_insertD subset_mset.less_imp_le)
  ultimately show ?thesis using assms(1,2) by (auto simp: best_def)
qed

lemma push_all_best:
  assumes "queue_inv lt q" "m_iSize q = k" "0 < k" "best lt k S (items q)"
  shows "\<exists>q'. push_all lt xs q = Some q' \<and> queue_inv lt q' \<and> best lt k (S + mset xs) (items q')"
  using assms
proof (induction xs arbitrary: q S)
  case Nil
  then show ?case by simp
next
  case (Cons x xs)
  have sz: "size (items q) = m_iUsed q" using Cons.prems(1) by (rule size_items)
  have "\<exists>b q'. CSphQueue_Push lt x q = Some (b, q') \<and> queue_inv lt q' \<and> m_iSize q' = k \<and>
    best lt k (add_mset x S) (items q')"
  proof (cases "m_iUsed q < m_iSize q")
    case True
    then show ?thesis
      using queue_push_room[OF Cons.prems(1) True, of x] best_room[OF Cons.prems(4)] Cons.prems(2) sz by auto
  next
    case False
    then have full: "m_iUsed q = m_iSize q" using Cons.prems(1) by (auto simp: queue_inv_def)
    let ?r = "m_pData q ! 0"
    have rm: "?r \<in># items q"
      using full Cons.prems by (auto simp: items_def queue_inv_def in_set_conv_nth intro!: exI[of _ 0])
    note least = queue_root_least[OF Cons.prems(1)]
    obtain b q' where q': "CSphQueue_Push lt x q = Some (b, q')" "queue_inv lt q'" "m_iSize q' = m_iSize q"
      "b = (\<not> lt x ?r)" "if b then add_mset ?r (items q') = add_mset x (items q) else items q' = items q"
      using queue_push_full[OF Cons.prems(1) full] Cons.prems by blast
    have "best lt k (add_mset x S) (items q')"
    proof (cases b)
      case True
      obtain N where N: "items q = add_mset ?r N" using rm by (metis multi_member_split)
      with True q'(5) have "items q' = add_mset x N" by (simp add: add_mset_commute)
      then show ?thesis
        using best_replace[of k S ?r N x] Cons.prems N least True q'(4) sz full by auto
    next
      case False
      then show ?thesis
        using best_reject[OF Cons.prems(4), of ?r x] q' rm least sz full Cons.prems(2) by auto
    qed
    with q' Cons.prems(2) show ?thesis by auto
  qed
  then obtain b q' where q': "CSphQueue_Push lt x q = Some (b, q')" "queue_inv lt q'" "m_iSize q' = k"
    "best lt k (add_mset x S) (items q')" by blast
  from Cons.IH[OF q'(2,3) Cons.prems(3) q'(4)] q'(1) show ?case by simp
qed

end

section \<open>Reading a queue in order\<close>

text \<open>The way every client empties a queue: \<^verbatim>\<open>while ( q.GetLength() ) { ... q.Root() ...; q.Pop(); }\<close>.\<close>

lemma pop_used: "CSphQueue_Pop lt q = Some q' \<Longrightarrow> m_iUsed q' < m_iUsed q"
  by (auto simp: CSphQueue_Pop_def Let_def split: if_splits)

function queue_drain :: "('a \<Rightarrow> 'a \<Rightarrow> bool) \<Rightarrow> 'a CSphQueue \<Rightarrow> 'a list" where
  "queue_drain IsLess q =
    (case CSphQueue_Root q of None \<Rightarrow> []
     | Some r \<Rightarrow> (case CSphQueue_Pop IsLess q of None \<Rightarrow> [r] | Some q' \<Rightarrow> r # queue_drain IsLess q'))"
  by pat_completeness auto
termination
  by (relation "measure (\<lambda>(l, q). m_iUsed q)") (auto dest: pop_used)

declare queue_drain.simps [simp del]

lemma queue_drain_correct:
  assumes "strict_weak lt" "queue_inv lt q"
  shows "mset (queue_drain lt q) = items q \<and> sorted_wrt (\<lambda>a b. \<not> lt b a) (queue_drain lt q)"
  using assms(2)
proof (induction "m_iUsed q" arbitrary: q rule: less_induct)
  case less
  note sw = assms(1)
  show ?case
  proof (cases "m_iUsed q = 0")
    case True
    then have "queue_drain lt q = []" by (subst queue_drain.simps) (simp add: CSphQueue_Root_def)
    with True show ?thesis by (simp add: items_def)
  next
    case False
    let ?r = "m_pData q ! 0"
    from strict_weak.queue_pop_correct[OF sw less.prems False] obtain p where
      p: "CSphQueue_Pop lt q = Some p" "queue_inv lt p" "items q = add_mset ?r (items p)"
      by auto
    have "m_iSize q \<noteq> 0" using False less.prems by (auto simp: queue_inv_def)
    with False p have eq: "queue_drain lt q = ?r # queue_drain lt p"
      by (subst queue_drain.simps) (simp add: CSphQueue_Root_def)
    have IH: "mset (queue_drain lt p) = items p" "sorted_wrt (\<lambda>a b. \<not> lt b a) (queue_drain lt p)"
      using less.hyps[OF pop_used[OF p(1)] p(2)] by auto
    have "\<not> lt y ?r" if "y \<in> set (queue_drain lt p)" for y
      using strict_weak.queue_root_least[OF sw less.prems, of y] that IH(1) p(3)
      by (metis insert_noteq_member set_mset_mset union_iff add_mset_add_single)
    then show ?thesis using IH p(3) by (simp add: eq)
  qed
qed

section \<open>Properties\<close>

text \<open>C14: pushing any sequence of entries into a queue of capacity \<open>k\<close> never fails and leaves the
  \<open>k\<close> best of them (all, if there are fewer): no entry that was rejected or dropped is greater
  than an entry that was kept.\<close>

theorem queue_keeps_best:
  assumes "strict_weak lt" "0 < k"
  shows "\<exists>q. push_all lt xs (CSphQueue_new t k) = Some q \<and> queue_inv lt q \<and> items q \<subseteq># mset xs \<and>
    size (items q) = min k (length xs) \<and> (\<forall>y \<in># items q. \<forall>z \<in># mset xs - items q. \<not> lt y z)"
proof -
  have "best lt k {#} (items (CSphQueue_new t k))"
    by (simp add: best_def items_new)
  from strict_weak.push_all_best[OF assms(1) queue_new_inv _ assms(2) this, of xs]
  show ?thesis
    by (auto simp: best_def CSphQueue_new_def CSphQueue_Reset_def)
qed

theorem queue_keeps_best_witness:
  "\<exists>q. push_all (<) [3, 1, 4, 1, 5 :: nat] (CSphQueue_new 0 2) = Some q \<and> size (items q) = 2 \<and>
    (\<forall>y \<in># items q. \<forall>z \<in># mset [3, 1, 4, 1, 5] - items q. \<not> y < z)"
proof -
  have "strict_weak ((<) :: nat \<Rightarrow> nat \<Rightarrow> bool)" by unfold_locales auto
  from queue_keeps_best[OF this, of 2 "[3, 1, 4, 1, 5]" 0] show ?thesis by auto
qed

text \<open>C15: emptying a queue by reading and popping its root gives all its entries in ascending
  order.\<close>

theorem queue_drain_sorted:
  assumes "strict_weak lt" "0 < k"
  shows "\<exists>q. push_all lt xs (CSphQueue_new t k) = Some q \<and>
    mset (queue_drain lt q) = items q \<and> sorted_wrt (\<lambda>a b. \<not> lt b a) (queue_drain lt q) \<and>
    (length xs \<le> k \<longrightarrow> mset (queue_drain lt q) = mset xs)"
proof -
  have "best lt k {#} (items (CSphQueue_new t k))"
    by (simp add: best_def items_new)
  from strict_weak.push_all_best[OF assms(1) queue_new_inv _ assms(2) this, of xs]
  obtain q where q: "push_all lt xs (CSphQueue_new t k) = Some q" "queue_inv lt q"
    "items q \<subseteq># mset xs" "size (items q) = min k (length xs)"
    by (auto simp: best_def CSphQueue_new_def CSphQueue_Reset_def)
  have "length xs \<le> k \<Longrightarrow> items q = mset xs"
    using q(3,4) by (metis min_absorb2 mset_subset_size nat_less_le size_mset subset_mset.le_less)
  with q queue_drain_correct[OF assms(1) q(2)] show ?thesis by auto
qed

theorem queue_drain_sorted_witness:
  "\<exists>q. push_all (<) [3, 1, 2 :: nat] (CSphQueue_new 0 4) = Some q \<and> mset (queue_drain (<) q) = mset [3, 1, 2]"
proof -
  have "strict_weak ((<) :: nat \<Rightarrow> nat \<Rightarrow> bool)" by unfold_locales auto
  from queue_drain_sorted[OF this, of 4 "[3, 1, 2]" 0] show ?thesis by auto
qed

end
