(* ===== verification/Timeout_Queue.thy ===== *)
theory Timeout_Queue
  imports Sph_Queue
begin

text \<open>
  The priority queue of timeouts, \<^verbatim>\<open>TimeoutQueue_c\<close> of \<^verbatim>\<open>src/src/timeout_queue.cpp\<close>. The queue holds
  pointers to tasks and every task remembers its own position, so the model has an explicit
  store of tasks beside the array of pointers. Shown: after any sequence of operations the array
  is a heap on the deadlines, each enqueued task knows its position and every other task has
  position -1; hence the root is a task with the least deadline, and \<^verbatim>\<open>Change\<close> and \<^verbatim>\<open>Remove\<close>
  add, move and erase exactly the task they are given.
\<close>

section \<open>Model\<close>

type_synonym task_ptr = nat

record EnqueuedTimeout_t =
  m_iTimeoutTimeUS :: int
  m_iTimeoutIdx :: int

record TimeoutQueue_c =
  m_dQueue :: "task_ptr list"
  m_dTasks :: "task_ptr \<Rightarrow> EnqueuedTimeout_t"

text \<open>\<^verbatim>\<open>operator<\<close> on two tasks, reached through their pointers.\<close>

definition timeout_less :: "(task_ptr \<Rightarrow> EnqueuedTimeout_t) \<Rightarrow> task_ptr \<Rightarrow> task_ptr \<Rightarrow> bool" where
  "timeout_less h dLeft dRight \<longleftrightarrow> m_iTimeoutTimeUS (h dLeft) < m_iTimeoutTimeUS (h dRight)"

definition set_idx :: "task_ptr \<Rightarrow> int \<Rightarrow> (task_ptr \<Rightarrow> EnqueuedTimeout_t) \<Rightarrow> task_ptr \<Rightarrow> EnqueuedTimeout_t" where
  "set_idx p i h = h(p := (h p)\<lparr>m_iTimeoutIdx := i\<rparr>)"

definition RemoveFast :: "nat \<Rightarrow> 'a list \<Rightarrow> 'a list" where
  "RemoveFast iIndex d = butlast (if iIndex \<noteq> length d - 1 then swap d iIndex (length d - 1) else d)"

function timeout_shift_up :: "nat \<Rightarrow> TimeoutQueue_c \<Rightarrow> TimeoutQueue_c" where
  "timeout_shift_up iHole q =
    (let d = m_dQueue q; iParent = parent iHole in
     if iHole \<noteq> 0 \<and> timeout_less (m_dTasks q) (d ! iHole) (d ! iParent) then
       let d = swap d iHole iParent in
       timeout_shift_up iParent (q\<lparr>m_dQueue := d, m_dTasks := set_idx (d ! iHole) (int iHole) (m_dTasks q)\<rparr>)
     else q\<lparr>m_dTasks := set_idx (d ! iHole) (int iHole) (m_dTasks q)\<rparr>)"
  by pat_completeness auto
termination
  by (relation "measure fst") auto

declare timeout_shift_up.simps [simp del]

definition TimeoutQueue_ShiftUp :: "nat \<Rightarrow> TimeoutQueue_c \<Rightarrow> TimeoutQueue_c" where
  "TimeoutQueue_ShiftUp iHole q = (if m_dQueue q = [] then q else timeout_shift_up iHole q)"

function timeout_shift_down :: "nat \<Rightarrow> TimeoutQueue_c \<Rightarrow> TimeoutQueue_c" where
  "timeout_shift_down iHole q =
    (let d = m_dQueue q; h = m_dTasks q; iUsed = length d; iMinChild = iHole * 2 + 1 in
     if iMinChild < iUsed then
       let iMinChild = smallest_child (timeout_less h) iUsed d iMinChild in
       if timeout_less h (d ! iHole) (d ! iMinChild) then q\<lparr>m_dTasks := set_idx (d ! iHole) (int iHole) h\<rparr>
       else
         let d = swap d iHole iMinChild in
         timeout_shift_down iMinChild (q\<lparr>m_dQueue := d, m_dTasks := set_idx (d ! iHole) (int iHole) h\<rparr>)
     else q\<lparr>m_dTasks := set_idx (d ! iHole) (int iHole) h\<rparr>)"
  by pat_completeness auto
termination
  by (relation "measure (\<lambda>(i, q). length (m_dQueue q) - i)") (auto simp: smallest_child_def split: if_splits)

declare timeout_shift_down.simps [simp del]

definition TimeoutQueue_ShiftDown :: "nat \<Rightarrow> TimeoutQueue_c \<Rightarrow> TimeoutQueue_c" where
  "TimeoutQueue_ShiftDown iHole q =
    (if m_dQueue q = [] \<or> iHole = length (m_dQueue q) then q else timeout_shift_down iHole q)"

definition TimeoutQueue_Push :: "task_ptr \<Rightarrow> TimeoutQueue_c \<Rightarrow> TimeoutQueue_c" where
  "TimeoutQueue_Push pTask q =
    (let q = q\<lparr>m_dQueue := m_dQueue q @ [pTask]\<rparr> in TimeoutQueue_ShiftUp (length (m_dQueue q) - 1) q)"

definition TimeoutQueue_Pop :: "TimeoutQueue_c \<Rightarrow> TimeoutQueue_c" where
  "TimeoutQueue_Pop q =
    (if m_dQueue q = [] then q
     else
       let q = q\<lparr>m_dTasks := set_idx (m_dQueue q ! 0) (-1) (m_dTasks q)\<rparr> in
       TimeoutQueue_ShiftDown 0 (q\<lparr>m_dQueue := RemoveFast 0 (m_dQueue q)\<rparr>))"

text \<open>The choice both \<^verbatim>\<open>Change\<close> and \<^verbatim>\<open>Remove\<close> make at a slot whose element is new there.\<close>

definition timeout_fix :: "nat \<Rightarrow> TimeoutQueue_c \<Rightarrow> TimeoutQueue_c" where
  "timeout_fix iHole q =
    (if iHole \<noteq> 0 \<and> timeout_less (m_dTasks q) (m_dQueue q ! iHole) (m_dQueue q ! parent iHole)
     then TimeoutQueue_ShiftUp iHole q else TimeoutQueue_ShiftDown iHole q)"

text \<open>None stands for the failed bounds assertion of \<^verbatim>\<open>m_dQueue[iHole]\<close>; \<^verbatim>\<open>nullptr\<close> is the pointer None.\<close>

definition TimeoutQueue_Change :: "task_ptr option \<Rightarrow> TimeoutQueue_c \<Rightarrow> TimeoutQueue_c option" where
  "TimeoutQueue_Change pTask q =
    (case pTask of None \<Rightarrow> Some q
     | Some p \<Rightarrow>
       let iHole = m_iTimeoutIdx (m_dTasks q p) in
       if iHole < 0 then Some (TimeoutQueue_Push p q)
       else if iHole \<noteq> 0 \<and> int (length (m_dQueue q)) \<le> iHole then None
       else Some (timeout_fix (nat iHole) q))"

definition TimeoutQueue_Remove :: "task_ptr option \<Rightarrow> TimeoutQueue_c \<Rightarrow> TimeoutQueue_c" where
  "TimeoutQueue_Remove pTask q =
    (case pTask of None \<Rightarrow> q
     | Some p \<Rightarrow>
       let iHole = m_iTimeoutIdx (m_dTasks q p) in
       if iHole < 0 \<or> int (length (m_dQueue q)) \<le> iHole then q
       else
         let q = q\<lparr>m_dQueue := RemoveFast (nat iHole) (m_dQueue q)\<rparr>;
             q = (if nat iHole < length (m_dQueue q) then timeout_fix (nat iHole) q else q)
         in q\<lparr>m_dTasks := set_idx p (-1) (m_dTasks q)\<rparr>)"

definition TimeoutQueue_Root :: "TimeoutQueue_c \<Rightarrow> task_ptr option" where
  "TimeoutQueue_Root q = (if m_dQueue q = [] then None else Some (m_dQueue q ! 0))"

definition TimeoutQueue_IsEmpty :: "TimeoutQueue_c \<Rightarrow> bool" where
  "TimeoutQueue_IsEmpty q \<longleftrightarrow> m_dQueue q = []"

text \<open>What the clients do: write the deadline of a task and call \<^verbatim>\<open>Change\<close>
  (e.g. \<^verbatim>\<open>TimeoutEvents_c::AddOrChangeTimeout\<close> in \<^verbatim>\<open>src/src/netpoll.cpp\<close>).\<close>

definition schedule :: "task_ptr \<Rightarrow> int \<Rightarrow> TimeoutQueue_c \<Rightarrow> TimeoutQueue_c option" where
  "schedule p t q =
    TimeoutQueue_Change (Some p) (q\<lparr>m_dTasks := (m_dTasks q)(p := (m_dTasks q p)\<lparr>m_iTimeoutTimeUS := t\<rparr>)\<rparr>)"

definition TimeoutQueue_new :: TimeoutQueue_c where
  "TimeoutQueue_new = \<lparr>m_dQueue = [], m_dTasks = (\<lambda>_. \<lparr>m_iTimeoutTimeUS = -1, m_iTimeoutIdx = -1\<rparr>)\<rparr>"

inductive reachable_queue :: "TimeoutQueue_c \<Rightarrow> bool" where
  new: "reachable_queue TimeoutQueue_new"
| schedule: "reachable_queue q \<Longrightarrow> schedule p t q = Some q' \<Longrightarrow> reachable_queue q'"
| remove: "reachable_queue q \<Longrightarrow> reachable_queue (TimeoutQueue_Remove pTask q)"
| pop: "reachable_queue q \<Longrightarrow> reachable_queue (TimeoutQueue_Pop q)"

section \<open>Invariant\<close>

text \<open>Positions are right everywhere except, perhaps, for the task in slot \<open>i\<close> and for the tasks
  \<open>X\<close> outside the queue.\<close>

definition positions_but :: "nat \<Rightarrow> task_ptr set \<Rightarrow> TimeoutQueue_c \<Rightarrow> bool" where
  "positions_but i X q \<longleftrightarrow> distinct (m_dQueue q) \<and>
    (\<forall>j < length (m_dQueue q). j \<noteq> i \<longrightarrow> m_iTimeoutIdx (m_dTasks q (m_dQueue q ! j)) = int j) \<and>
    (\<forall>p. p \<notin> set (m_dQueue q) \<longrightarrow> p \<notin> X \<longrightarrow> m_iTimeoutIdx (m_dTasks q p) = -1)"

definition timeout_inv :: "TimeoutQueue_c \<Rightarrow> bool" where
  "timeout_inv q \<longleftrightarrow> positions_but (length (m_dQueue q)) {} q \<and>
    heap (timeout_less (m_dTasks q)) (m_dQueue q) (length (m_dQueue q))"

text \<open>What a shift leaves: the same tasks with the same deadlines, all in place.\<close>

definition settled :: "task_ptr set \<Rightarrow> TimeoutQueue_c \<Rightarrow> TimeoutQueue_c \<Rightarrow> bool" where
  "settled X q q' \<longleftrightarrow> set (m_dQueue q') = set (m_dQueue q) \<and>
    (\<forall>p. m_iTimeoutTimeUS (m_dTasks q' p) = m_iTimeoutTimeUS (m_dTasks q p)) \<and>
    positions_but (length (m_dQueue q')) X q' \<and>
    heap (timeout_less (m_dTasks q')) (m_dQueue q') (length (m_dQueue q'))"

interpretation timeout_order: strict_weak "timeout_less h" for h
  by unfold_locales (auto simp: timeout_less_def)

lemma timeout_less_set_idx [simp]: "timeout_less (set_idx p i h) = timeout_less h"
  by (intro ext) (simp add: timeout_less_def set_idx_def)

lemma time_set_idx [simp]: "m_iTimeoutTimeUS (set_idx p i h r) = m_iTimeoutTimeUS (h r)"
  by (simp add: set_idx_def)

lemma idx_set_idx: "m_iTimeoutIdx (set_idx p i h r) = (if r = p then i else m_iTimeoutIdx (h r))"
  by (simp add: set_idx_def)

lemma set_swap: "i < length d \<Longrightarrow> j < length d \<Longrightarrow> set (swap d i j) = set d"
  by (metis mset_swap_self set_mset_mset)

lemma distinct_swap_list: "i < length d \<Longrightarrow> j < length d \<Longrightarrow> distinct (swap d i j) = distinct d"
  by (metis mset_swap_self mset_eq_imp_distinct_iff)

lemma positions_place:
  assumes "positions_but i X q" "i < length (m_dQueue q)"
  shows "positions_but (length (m_dQueue q)) X (q\<lparr>m_dTasks := set_idx (m_dQueue q ! i) (int i) (m_dTasks q)\<rparr>)"
  using assms by (auto simp: positions_but_def idx_set_idx nth_eq_iff_index_eq)

lemma positions_swap:
  assumes "positions_but i X q" "i < length (m_dQueue q)" "j < length (m_dQueue q)" "i \<noteq> j"
  defines "d \<equiv> swap (m_dQueue q) i j"
  shows "positions_but j X (q\<lparr>m_dQueue := d, m_dTasks := set_idx (d ! i) (int i) (m_dTasks q)\<rparr>)"
proof -
  have d: "distinct d" "set d = set (m_dQueue q)" "length d = length (m_dQueue q)"
    using assms(1-3) by (auto simp: d_def distinct_swap_list set_swap positions_but_def)
  have "m_iTimeoutIdx (set_idx (d ! i) (int i) (m_dTasks q) (d ! k)) = int k" if "k < length d" "k \<noteq> j" for k
  proof (cases "k = i")
    case False
    then have "d ! k \<noteq> d ! i" using d that assms(2) by (simp add: nth_eq_iff_index_eq)
    moreover have "d ! k = m_dQueue q ! k" using False that assms(2,3) by (simp add: d_def nth_swap)
    ultimately show ?thesis using assms(1) that False d(3) by (simp add: idx_set_idx positions_but_def)
  qed (simp add: idx_set_idx)
  moreover have "d ! i \<in> set d" using d(3) assms(2) by simp
  ultimately show ?thesis
    using d assms(1) by (auto simp: positions_but_def idx_set_idx)
qed

lemma settled_place:
  assumes "positions_but i X q" "i < length (m_dQueue q)"
    "heap (timeout_less (m_dTasks q)) (m_dQueue q) (length (m_dQueue q))"
  shows "settled X q (q\<lparr>m_dTasks := set_idx (m_dQueue q ! i) (int i) (m_dTasks q)\<rparr>)"
  using assms positions_place[OF assms(1,2)] by (simp add: settled_def)

lemma settled_swap:
  assumes "settled X (q\<lparr>m_dQueue := swap (m_dQueue q) i j, m_dTasks := set_idx p k (m_dTasks q)\<rparr>) q'"
    "i < length (m_dQueue q)" "j < length (m_dQueue q)"
  shows "settled X q q'"
  using assms by (simp add: settled_def set_swap)

lemma timeout_shift_up_settled:
  "positions_but i X q \<Longrightarrow> i < length (m_dQueue q) \<Longrightarrow>
    heap_up (timeout_less (m_dTasks q)) (m_dQueue q) (length (m_dQueue q)) i \<Longrightarrow>
    settled X q (timeout_shift_up i q)"
proof (induction i arbitrary: q rule: less_induct)
  case (less i)
  let ?d = "m_dQueue q" and ?lt = "timeout_less (m_dTasks q)"
  show ?case
  proof (cases "i \<noteq> 0 \<and> ?lt (?d ! i) (?d ! parent i)")
    case True
    let ?s = "swap ?d i (parent i)"
    let ?q = "q\<lparr>m_dQueue := ?s, m_dTasks := set_idx (?s ! i) (int i) (m_dTasks q)\<rparr>"
    have eq: "timeout_shift_up i q = timeout_shift_up (parent i) ?q"
      using True by (subst timeout_shift_up.simps) (simp add: Let_def)
    have p: "parent i < i" "parent i < length ?d"
      using True less.prems(2) less_trans[of "parent i" i] by simp_all
    have "heap_up ?lt ?s (length ?d) (parent i)"
      using timeout_order.heap_up_step[OF less.prems(3) _ less.prems(2)] True by simp
    then have "settled X ?q (timeout_shift_up (parent i) ?q)"
      using less.IH[OF p(1), of ?q] positions_swap[OF less.prems(1,2) p(2)] p by simp
    then show ?thesis unfolding eq using less.prems(2) p(2) by (rule settled_swap)
  next
    case False
    then have eq: "timeout_shift_up i q = q\<lparr>m_dTasks := set_idx (?d ! i) (int i) (m_dTasks q)\<rparr>"
      by (subst timeout_shift_up.simps) (auto simp: Let_def)
    have "heap ?lt ?d (length ?d)"
      using False less.prems(3) timeout_order.heap_up_root timeout_order.heap_up_done by (metis (no_types))
    then show ?thesis unfolding eq using less.prems by (intro settled_place)
  qed
qed

lemma timeout_shift_down_settled:
  "positions_but i X q \<Longrightarrow> i < length (m_dQueue q) \<Longrightarrow>
    heap_down (timeout_less (m_dTasks q)) (m_dQueue q) (length (m_dQueue q)) i \<Longrightarrow>
    settled X q (timeout_shift_down i q)"
proof (induction "length (m_dQueue q) - i" arbitrary: q i rule: less_induct)
  case less
  let ?d = "m_dQueue q" and ?lt = "timeout_less (m_dTasks q)" and ?n = "length (m_dQueue q)"
  let ?c = "smallest_child ?lt ?n ?d (2 * i + 1)"
  have c: "0 < ?c" "parent ?c = i" "i < ?c"
    using smallest_child_cases[of ?lt ?n ?d "2 * i + 1"] by (auto simp: parent_def)
  show ?case
  proof (cases "2 * i + 1 < ?n \<and> \<not> ?lt (?d ! i) (?d ! ?c)")
    case True
    let ?s = "swap ?d i ?c"
    let ?q = "q\<lparr>m_dQueue := ?s, m_dTasks := set_idx (?s ! i) (int i) (m_dTasks q)\<rparr>"
    have eq: "timeout_shift_down i q = timeout_shift_down ?c ?q"
      using True by (subst timeout_shift_down.simps) (simp add: Let_def mult.commute[of i 2])
    have cn: "?c < ?n" using True by (simp add: smallest_child_less)
    have "heap_down ?lt ?s ?n ?c"
      using True c cn less.prems timeout_order.smallest_child_min
      by (intro timeout_order.heap_down_step) auto
    then have "settled X ?q (timeout_shift_down ?c ?q)"
      using less.hyps[of ?q ?c] positions_swap[OF less.prems(1,2) cn] c cn by simp
    then show ?thesis unfolding eq using less.prems(2) cn by (rule settled_swap)
  next
    case False
    then have eq: "timeout_shift_down i q = q\<lparr>m_dTasks := set_idx (?d ! i) (int i) (m_dTasks q)\<rparr>"
      by (subst timeout_shift_down.simps) (auto simp: Let_def mult.commute[of i 2])
    have "\<not> ?lt (?d ! k) (?d ! i)" if k: "0 < k" "k < ?n" "parent k = i" for k
    proof -
      have n: "2 * i + 1 < ?n" using k by (auto simp: parent_eq_iff)
      with False have "?lt (?d ! i) (?d ! ?c)" by simp
      with timeout_order.smallest_child_min[OF k n, of "m_dTasks q" ?d] show ?thesis
        by (metis timeout_order.trans_lt)
    qed
    then have "heap ?lt ?d ?n" using timeout_order.heap_down_done[OF less.prems(3)] by blast
    then show ?thesis unfolding eq using less.prems by (intro settled_place)
  qed
qed

section \<open>The operations keep the invariant\<close>

lemma length_RemoveFast [simp]: "length (RemoveFast i d) = length d - 1"
  by (simp add: RemoveFast_def)

lemma nth_RemoveFast:
  "i < length d \<Longrightarrow> j < length d - 1 \<Longrightarrow> RemoveFast i d ! j = (if j = i then d ! (length d - 1) else d ! j)"
  by (auto simp: RemoveFast_def nth_butlast nth_swap)

lemma mset_butlast_last: "e \<noteq> [] \<Longrightarrow> add_mset (last e) (mset (butlast e)) = mset e"
  by (induction e) auto

lemma mset_RemoveFast:
  assumes "i < length d"
  shows "add_mset (d ! i) (mset (RemoveFast i d)) = mset d"
proof (cases "i = length d - 1")
  case True
  have "d \<noteq> []" using assms by auto
  moreover from this True have "last d = d ! i" by (simp add: last_conv_nth)
  ultimately show ?thesis using True mset_butlast_last[of d] by (simp add: RemoveFast_def)
next
  case False
  have n: "length d - 1 < length d" using assms by simp
  let ?e = "swap d i (length d - 1)"
  have "length ?e = length d" by simp
  then have "?e \<noteq> []" using assms by (metis length_0_conv not_less_zero)
  moreover from this have "last ?e = d ! i"
    using nth_swap[OF assms n, of "length d - 1"] by (simp add: last_conv_nth)
  ultimately show ?thesis
    using False mset_butlast_last[of ?e] mset_swap_self[OF assms n] by (simp add: RemoveFast_def)
qed

lemma RemoveFast_distinct:
  assumes "i < length d" "distinct d"
  shows "distinct (RemoveFast i d)" "set (RemoveFast i d) = set d - {d ! i}"
proof -
  from mset_RemoveFast[OF assms(1)] have m: "mset (d ! i # RemoveFast i d) = mset d" by simp
  then have "distinct (d ! i # RemoveFast i d)" using assms(2) by (metis mset_eq_imp_distinct_iff)
  then show "distinct (RemoveFast i d)" "set (RemoveFast i d) = set d - {d ! i}"
    using mset_eq_setD[OF m] by auto
qed

text \<open>A heap in which the element of slot \<open>i\<close> was replaced or got another deadline.\<close>

lemma heap_changed:
  assumes "heap (timeout_less h) d n" "m \<le> n" "i < m"
    and same: "\<And>j. j < m \<Longrightarrow> j \<noteq> i \<Longrightarrow> d' ! j = d ! j \<and> m_iTimeoutTimeUS (h' (d' ! j)) = m_iTimeoutTimeUS (h (d ! j))"
  shows "if i \<noteq> 0 \<and> timeout_less h' (d' ! i) (d' ! parent i) then heap_up (timeout_less h') d' m i
    else heap_down (timeout_less h') d' m i"
proof -
  have heap: "m_iTimeoutTimeUS (h (d ! parent j)) \<le> m_iTimeoutTimeUS (h (d ! j))" if "0 < j" "j < m" for j
    using assms(1,2) that by (auto simp: heap_def timeout_less_def not_less)
  have far: "m_iTimeoutTimeUS (h' (d' ! parent j)) \<le> m_iTimeoutTimeUS (h' (d' ! j))"
    if "0 < j" "j < m" "j \<noteq> i" "parent j \<noteq> i" for j
    using heap[OF that(1,2)] same[OF that(2,3)] same[of "parent j"] that parent_less[OF that(1)] by auto
  have near: "m_iTimeoutTimeUS (h' (d' ! parent i)) \<le> m_iTimeoutTimeUS (h' (d' ! c))"
    if "0 < c" "c < m" "parent c = i" "0 < i" for c
  proof -
    have "i < c" using parent_less[OF that(1)] that(3) by simp
    then show ?thesis
      using heap[OF that(1,2)] heap[OF that(4) assms(3)] same[OF that(2)] same[of "parent i"]
        parent_less[OF that(4)] assms(3) that(3) by auto
  qed
  show ?thesis
  proof (cases "i \<noteq> 0 \<and> timeout_less h' (d' ! i) (d' ! parent i)")
    case True
    have "m_iTimeoutTimeUS (h' (d' ! parent j)) \<le> m_iTimeoutTimeUS (h' (d' ! j))"
      if "0 < j" "j < m" "j \<noteq> i" for j
      using True far[OF that] near[OF that(1,2)] by (cases "parent j = i") (auto simp: timeout_less_def)
    then show ?thesis using True near by (auto simp: heap_up_def timeout_less_def not_less)
  next
    case False
    have "m_iTimeoutTimeUS (h' (d' ! parent j)) \<le> m_iTimeoutTimeUS (h' (d' ! j))"
      if "0 < j" "j < m" "parent j \<noteq> i" for j
      using False far[OF that(1,2) _ that(3)] that(1) by (cases "j = i") (auto simp: timeout_less_def)
    then show ?thesis using False near by (auto simp: heap_down_def timeout_less_def not_less)
  qed
qed

lemma timeout_fix_settled:
  assumes "heap (timeout_less h) d n" "length (m_dQueue q) \<le> n" "i < length (m_dQueue q)"
    and "\<And>j. j < length (m_dQueue q) \<Longrightarrow> j \<noteq> i \<Longrightarrow>
      m_dQueue q ! j = d ! j \<and> m_iTimeoutTimeUS (m_dTasks q (m_dQueue q ! j)) = m_iTimeoutTimeUS (h (d ! j))"
    and "positions_but i X q"
  shows "settled X q (timeout_fix i q)"
  using heap_changed[OF assms(1-4)] assms(3,5) timeout_shift_up_settled timeout_shift_down_settled
  by (auto simp: timeout_fix_def TimeoutQueue_ShiftUp_def TimeoutQueue_ShiftDown_def split: if_splits)

lemma settled_inv: "settled {} q q' \<Longrightarrow> timeout_inv q'"
  by (simp add: settled_def timeout_inv_def)

lemma inv_idx:
  assumes "timeout_inv q"
  shows "m_iTimeoutIdx (m_dTasks q p) < 0 \<longleftrightarrow> p \<notin> set (m_dQueue q)"
    and "p \<in> set (m_dQueue q) \<Longrightarrow> nat (m_iTimeoutIdx (m_dTasks q p)) < length (m_dQueue q) \<and>
      m_dQueue q ! nat (m_iTimeoutIdx (m_dTasks q p)) = p"
  using assms by (auto simp: timeout_inv_def positions_but_def in_set_conv_nth)

lemma push_settled:
  assumes "timeout_inv q" "p \<notin> set (m_dQueue q)"
  shows "settled {} (q\<lparr>m_dQueue := m_dQueue q @ [p]\<rparr>) (TimeoutQueue_Push p q)"
proof -
  let ?q = "q\<lparr>m_dQueue := m_dQueue q @ [p]\<rparr>" and ?n = "length (m_dQueue q)"
  have "heap (timeout_less (m_dTasks q)) (m_dQueue q @ [p]) ?n"
    using assms(1) by (auto simp: timeout_inv_def heap_def nth_append parent_def)
  then have "heap_up (timeout_less (m_dTasks ?q)) (m_dQueue ?q) (length (m_dQueue ?q)) ?n"
    by (auto intro: timeout_order.heap_up_start)
  moreover have "positions_but ?n {} ?q"
    using assms by (auto simp: timeout_inv_def positions_but_def nth_append)
  ultimately show ?thesis
    using timeout_shift_up_settled[of ?n "{}" ?q] by (simp add: TimeoutQueue_Push_def TimeoutQueue_ShiftUp_def)
qed

lemma schedule_settled:
  assumes "timeout_inv q"
  shows "\<exists>q'. schedule p t q = Some q' \<and> timeout_inv q' \<and>
    set (m_dQueue q') = insert p (set (m_dQueue q)) \<and>
    (\<forall>r. m_iTimeoutTimeUS (m_dTasks q' r) = (if r = p then t else m_iTimeoutTimeUS (m_dTasks q r)))"
proof -
  let ?q = "q\<lparr>m_dTasks := (m_dTasks q)(p := (m_dTasks q p)\<lparr>m_iTimeoutTimeUS := t\<rparr>)\<rparr>"
  let ?i = "m_iTimeoutIdx (m_dTasks q p)"
  show ?thesis
  proof (cases "p \<in> set (m_dQueue q)")
    case False
    then have t: "m_dTasks ?q (m_dQueue q ! j) = m_dTasks q (m_dQueue q ! j)" if "j < length (m_dQueue q)" for j
      using that by auto
    have "heap (timeout_less (m_dTasks ?q)) (m_dQueue q) (length (m_dQueue q))"
      unfolding heap_def
    proof (intro allI impI)
      fix j assume j: "0 < j" "j < length (m_dQueue q)"
      then have "parent j < length (m_dQueue q)" using less_trans[OF parent_less] by blast
      with j assms show "\<not> timeout_less (m_dTasks ?q) (m_dQueue q ! j) (m_dQueue q ! parent j)"
        unfolding timeout_less_def by (simp only: t) (simp add: timeout_inv_def heap_def timeout_less_def)
    qed
    moreover have "positions_but (length (m_dQueue q)) {} ?q"
      using assms by (auto simp: timeout_inv_def positions_but_def)
    ultimately have "timeout_inv ?q" by (simp add: timeout_inv_def)
    then have st: "settled {} (?q\<lparr>m_dQueue := m_dQueue ?q @ [p]\<rparr>) (TimeoutQueue_Push p ?q)"
      by (rule push_settled) (simp add: False)
    have "schedule p t q = Some (TimeoutQueue_Push p ?q)"
      using inv_idx(1)[OF assms, of p] False by (simp add: schedule_def TimeoutQueue_Change_def)
    with st settled_inv[OF st] show ?thesis
      by (intro exI[of _ "TimeoutQueue_Push p ?q"]) (simp add: settled_def)
  next
    case True
    note i = inv_idx[OF assms, of p]
    have st: "settled {} ?q (timeout_fix (nat ?i) ?q)"
    proof (rule timeout_fix_settled)
      show "heap (timeout_less (m_dTasks q)) (m_dQueue q) (length (m_dQueue q))"
        using assms by (simp add: timeout_inv_def)
      show "positions_but (nat ?i) {} ?q"
        using assms by (auto simp: timeout_inv_def positions_but_def)
      show "m_dQueue ?q ! j = m_dQueue q ! j \<and> m_iTimeoutTimeUS (m_dTasks ?q (m_dQueue ?q ! j)) =
          m_iTimeoutTimeUS (m_dTasks q (m_dQueue q ! j))" if "j < length (m_dQueue ?q)" "j \<noteq> nat ?i" for j
      proof -
        have "m_iTimeoutIdx (m_dTasks q (m_dQueue q ! j)) = int j"
          using assms that by (simp add: timeout_inv_def positions_but_def)
        then have "m_dQueue q ! j \<noteq> p" using that(2) by auto
        then show ?thesis by simp
      qed
    qed (use i True in simp_all)
    have "\<not> ?i < 0" "\<not> int (length (m_dQueue q)) \<le> ?i" using i True by auto
    then have "schedule p t q = Some (timeout_fix (nat ?i) ?q)"
      by (simp add: schedule_def TimeoutQueue_Change_def)
    with st settled_inv[OF st] True show ?thesis
      by (intro exI[of _ "timeout_fix (nat ?i) ?q"]) (auto simp: settled_def)
  qed
qed

lemma remove_settled:
  assumes "timeout_inv q"
  shows "timeout_inv (TimeoutQueue_Remove (Some p) q) \<and>
    set (m_dQueue (TimeoutQueue_Remove (Some p) q)) = set (m_dQueue q) - {p} \<and>
    (\<forall>r. m_iTimeoutTimeUS (m_dTasks (TimeoutQueue_Remove (Some p) q) r) = m_iTimeoutTimeUS (m_dTasks q r))"
proof (cases "p \<in> set (m_dQueue q)")
  case False
  with assms inv_idx(1)[OF assms, of p] show ?thesis by (simp add: TimeoutQueue_Remove_def)
next
  case True
  define i where "i = nat (m_iTimeoutIdx (m_dTasks q p))"
  define r where "r = q\<lparr>m_dQueue := RemoveFast i (m_dQueue q)\<rparr>"
  have i: "i < length (m_dQueue q)" "m_dQueue q ! i = p" "m_iTimeoutIdx (m_dTasks q p) = int i"
    using inv_idx[OF assms, of p] True by (auto simp: i_def)
  have dq: "distinct (m_dQueue q)" and h: "heap (timeout_less (m_dTasks q)) (m_dQueue q) (length (m_dQueue q))"
    using assms by (auto simp: timeout_inv_def positions_but_def)
  note rf = RemoveFast_distinct[OF i(1) dq]
  have pos: "positions_but i {p} r"
    using assms rf i(1,2) by (auto simp: r_def timeout_inv_def positions_but_def nth_RemoveFast)
  define s where "s = (if i < length (m_dQueue r) then timeout_fix i r else r)"
  have st: "settled {p} r s"
  proof (cases "i < length (m_dQueue r)")
    case True
    have "settled {p} r (timeout_fix i r)"
      using h True pos i(1) by (intro timeout_fix_settled) (auto simp: r_def nth_RemoveFast)
    with True show ?thesis by (simp add: s_def)
  next
    case False
    have "heap (timeout_less (m_dTasks r)) (m_dQueue r) (length (m_dQueue r))"
      unfolding heap_def
    proof (intro allI impI)
      fix j assume j: "0 < j" "j < length (m_dQueue r)"
      then have "parent j < length (m_dQueue r)" using less_trans[OF parent_less] by blast
      with j False i(1) h show "\<not> timeout_less (m_dTasks r) (m_dQueue r ! j) (m_dQueue r ! parent j)"
        by (simp add: r_def nth_RemoveFast heap_def)
    qed
    with False pos show ?thesis by (simp add: s_def settled_def positions_but_def)
  qed
  have eq: "TimeoutQueue_Remove (Some p) q = s\<lparr>m_dTasks := set_idx p (-1) (m_dTasks s)\<rparr>"
    using i by (simp add: TimeoutQueue_Remove_def r_def s_def Let_def)
  have "set (m_dQueue s) = set (m_dQueue q) - {p}" using st rf(2) i(2) by (simp add: settled_def r_def)
  then have "p \<notin> set (m_dQueue s)" by simp
  with st have "timeout_inv (s\<lparr>m_dTasks := set_idx p (-1) (m_dTasks s)\<rparr>)"
    by (auto simp: settled_def timeout_inv_def positions_but_def idx_set_idx)
  moreover have "m_iTimeoutTimeUS (m_dTasks s k) = m_iTimeoutTimeUS (m_dTasks q k)" for k
    using st by (simp add: settled_def r_def)
  ultimately show ?thesis using \<open>set (m_dQueue s) = _\<close> unfolding eq by simp
qed

lemma pop_settled:
  assumes "timeout_inv q" "m_dQueue q \<noteq> []"
  shows "timeout_inv (TimeoutQueue_Pop q) \<and>
    set (m_dQueue (TimeoutQueue_Pop q)) = set (m_dQueue q) - {m_dQueue q ! 0} \<and>
    (\<forall>r. m_iTimeoutTimeUS (m_dTasks (TimeoutQueue_Pop q) r) = m_iTimeoutTimeUS (m_dTasks q r))"
proof -
  let ?p = "m_dQueue q ! 0"
  let ?r = "q\<lparr>m_dTasks := set_idx ?p (-1) (m_dTasks q), m_dQueue := RemoveFast 0 (m_dQueue q)\<rparr>"
  have n: "0 < length (m_dQueue q)" and dq: "distinct (m_dQueue q)"
    and h: "heap (timeout_less (m_dTasks q)) (m_dQueue q) (length (m_dQueue q))"
    using assms by (auto simp: timeout_inv_def positions_but_def)
  note rf = RemoveFast_distinct[OF n dq]
  have eq: "TimeoutQueue_Pop q = TimeoutQueue_ShiftDown 0 ?r"
    using assms(2) by (simp add: TimeoutQueue_Pop_def Let_def)
  have "m_iTimeoutIdx (m_dTasks ?r (m_dQueue ?r ! j)) = int j" if "j < length (m_dQueue ?r)" "j \<noteq> 0" for j
  proof -
    have "m_dQueue ?r ! j = m_dQueue q ! j" "j < length (m_dQueue q)"
      using that n by (auto simp: nth_RemoveFast)
    moreover have "m_dQueue q ! j \<noteq> ?p" using that dq n by (simp add: nth_eq_iff_index_eq)
    ultimately show ?thesis using assms(1) by (simp add: timeout_inv_def positions_but_def idx_set_idx)
  qed
  then have pos: "positions_but 0 {} ?r"
    using assms(1) rf by (simp add: timeout_inv_def positions_but_def idx_set_idx)
  have "settled {} ?r (TimeoutQueue_ShiftDown 0 ?r)"
  proof (cases "m_dQueue ?r = []")
    case True
    with pos show ?thesis by (simp add: TimeoutQueue_ShiftDown_def settled_def heap_def)
  next
    case False
    then have "0 < length (m_dQueue ?r)" by blast
    then have "settled {} ?r (timeout_fix 0 ?r)"
      using h pos n by (intro timeout_fix_settled) (auto simp: nth_RemoveFast)
    then show ?thesis by (simp add: timeout_fix_def)
  qed
  then show ?thesis using rf(2) unfolding eq by (simp add: timeout_inv_def settled_def)
qed

section \<open>Properties\<close>

text \<open>C16: in every state the operations can reach, the root is an enqueued task whose deadline is
  the least of all, and the stored positions are exact: a task is enqueued at the position it
  remembers, and it remembers -1 exactly when it is not enqueued.\<close>

theorem timeout_root_minimal:
  assumes "reachable_queue q"
  shows "(TimeoutQueue_Root q = None \<longleftrightarrow> m_dQueue q = []) \<and>
    (\<forall>p. TimeoutQueue_Root q = Some p \<longrightarrow> p \<in> set (m_dQueue q) \<and>
      (\<forall>r \<in> set (m_dQueue q). m_iTimeoutTimeUS (m_dTasks q p) \<le> m_iTimeoutTimeUS (m_dTasks q r))) \<and>
    distinct (m_dQueue q) \<and>
    (\<forall>p. p \<notin> set (m_dQueue q) \<longleftrightarrow> m_iTimeoutIdx (m_dTasks q p) = -1) \<and>
    (\<forall>i < length (m_dQueue q). m_iTimeoutIdx (m_dTasks q (m_dQueue q ! i)) = int i)"
proof -
  have inv: "timeout_inv q" using assms
  proof (induction rule: reachable_queue.induct)
    case new
    then show ?case by (simp add: timeout_inv_def TimeoutQueue_new_def positions_but_def heap_def)
  next
    case (schedule q p t q')
    then show ?case using schedule_settled[of q p t] by auto
  next
    case (remove q pTask)
    then show ?case using remove_settled[of q] by (cases pTask) (auto simp: TimeoutQueue_Remove_def)
  next
    case (pop q)
    then show ?case using pop_settled[of q] by (cases "m_dQueue q = []") (auto simp: TimeoutQueue_Pop_def)
  qed
  then have h: "heap (timeout_less (m_dTasks q)) (m_dQueue q) (length (m_dQueue q))"
    and pos: "positions_but (length (m_dQueue q)) {} q" by (auto simp: timeout_inv_def)
  have "m_iTimeoutTimeUS (m_dTasks q (m_dQueue q ! 0)) \<le> m_iTimeoutTimeUS (m_dTasks q r)"
    if "r \<in> set (m_dQueue q)" for r
    using timeout_order.heap_root_le[OF h] that by (auto simp: in_set_conv_nth timeout_less_def not_less)
  moreover have "p \<notin> set (m_dQueue q) \<longleftrightarrow> m_iTimeoutIdx (m_dTasks q p) = -1" for p
    using inv_idx(1)[OF inv, of p] pos by (auto simp: positions_but_def)
  ultimately show ?thesis using pos by (auto simp: TimeoutQueue_Root_def positions_but_def)
qed

theorem timeout_root_minimal_witness:
  "let q = the (schedule 2 10 (the (schedule 1 30 TimeoutQueue_new))) in
    TimeoutQueue_Root q = Some 2 \<and> m_iTimeoutTimeUS (m_dTasks q 2) \<le> m_iTimeoutTimeUS (m_dTasks q 1)"
proof -
  let ?q1 = "the (schedule 1 30 TimeoutQueue_new)"
  let ?q = "the (schedule 2 10 ?q1)"
  have "\<not> Option.is_none (schedule 1 30 TimeoutQueue_new)" "\<not> Option.is_none (schedule 2 10 ?q1)"
    by code_simp+
  then have "schedule 1 30 TimeoutQueue_new = Some ?q1" "schedule 2 10 ?q1 = Some ?q"
    by (simp_all add: Option.is_none_def)
  then have "reachable_queue ?q" by (blast intro: reachable_queue.intros)
  note r = timeout_root_minimal[OF this]
  have "TimeoutQueue_Root ?q = Some 2" "1 \<in> set (m_dQueue ?q)" by code_simp+
  with r show ?thesis by (simp add: Let_def)
qed

text \<open>C17: scheduling a task (new or already enqueued) never fails, \<^verbatim>\<open>Remove\<close> and \<^verbatim>\<open>Pop\<close> erase exactly
  their task, nobody else's deadline changes, and all of them keep the invariant.\<close>

theorem timeout_operations:
  assumes "timeout_inv q"
  shows "(\<exists>q'. schedule p t q = Some q' \<and> timeout_inv q' \<and> set (m_dQueue q') = insert p (set (m_dQueue q)) \<and>
      (\<forall>r. m_iTimeoutTimeUS (m_dTasks q' r) = (if r = p then t else m_iTimeoutTimeUS (m_dTasks q r)))) \<and>
    timeout_inv (TimeoutQueue_Remove (Some p) q) \<and>
    set (m_dQueue (TimeoutQueue_Remove (Some p) q)) = set (m_dQueue q) - {p} \<and>
    (\<forall>r. m_iTimeoutTimeUS (m_dTasks (TimeoutQueue_Remove (Some p) q) r) = m_iTimeoutTimeUS (m_dTasks q r)) \<and>
    (\<forall>r. TimeoutQueue_Root q = Some r \<longrightarrow> timeout_inv (TimeoutQueue_Pop q) \<and>
      set (m_dQueue (TimeoutQueue_Pop q)) = set (m_dQueue q) - {r} \<and>
      m_iTimeoutTimeUS (m_dTasks (TimeoutQueue_Pop q) p) = m_iTimeoutTimeUS (m_dTasks q p))"
  using schedule_settled[OF assms, of p t] remove_settled[OF assms, of p] pop_settled[OF assms]
  by (auto simp: TimeoutQueue_Root_def split: if_splits)

text \<open>Task 7 is scheduled into a queue that holds task 5, and task 5 is then removed.\<close>

theorem timeout_operations_witness:
  "\<exists>q q'. schedule 5 10 TimeoutQueue_new = Some q \<and> schedule 7 3 q = Some q' \<and> set (m_dQueue q') = {7, 5} \<and>
    m_iTimeoutTimeUS (m_dTasks q' 5) = 10 \<and> set (m_dQueue (TimeoutQueue_Remove (Some 5) q')) = {7}"
proof -
  have "timeout_inv TimeoutQueue_new"
    by (simp add: timeout_inv_def TimeoutQueue_new_def positions_but_def heap_def)
  from timeout_operations[OF this, of 5 10] obtain q where q: "schedule 5 10 TimeoutQueue_new = Some q" "timeout_inv q"
    "set (m_dQueue q) = {5}" "m_iTimeoutTimeUS (m_dTasks q 5) = 10" by (auto simp: TimeoutQueue_new_def)
  from timeout_operations[OF q(2), of 7 3] q(3,4) obtain q' where q': "schedule 7 3 q = Some q'" "timeout_inv q'"
    "set (m_dQueue q') = {7, 5}" "m_iTimeoutTimeUS (m_dTasks q' 5) = 10" by auto
  from timeout_operations[OF q'(2), of 5] q'(3) have "set (m_dQueue (TimeoutQueue_Remove (Some 5) q')) = {7}" by auto
  with q q' show ?thesis by blast
qed

end
