(* ===== verification/Bit_Vec.thy ===== *)
theory Bit_Vec
  imports Prelude
begin

text \<open>
  The dynamic bit vector, \<^verbatim>\<open>BitVec_T<DWORD,128>\<close> (that is \<^verbatim>\<open>CSphBitvec\<close>) of \<^verbatim>\<open>src/src/std/bitvec.h\<close> and
  \<^verbatim>\<open>bitvec_impl.h\<close>, with \<^verbatim>\<open>sphBitCount\<close> of \<^verbatim>\<open>bitcount_impl.h\<close>. The data pointer is null, points at the
  static part or at an array of its own; every failed assertion is None. Shown: the operations
  refine sets of bit numbers, \<^verbatim>\<open>Scan\<close> finds the next set bit and \<^verbatim>\<open>BitCount\<close> counts them as long as no
  bit past the end is set, which \<^verbatim>\<open>Init\<close>, \<^verbatim>\<open>Clear\<close>, \<^verbatim>\<open>BitSet\<close> and \<^verbatim>\<open>BitClear\<close> keep and \<^verbatim>\<open>Set\<close> does not.
  \<^verbatim>\<open>BitCount\<close> sums natural numbers, the code's \<^verbatim>\<open>int\<close>.
\<close>

section \<open>Model\<close>

subsection \<open>Bit counts\<close>

text \<open>\<^verbatim>\<open>sphBitCount\<close>, that is \<^verbatim>\<open>__builtin_popcount\<close>.\<close>

definition popcount :: "'a::len word \<Rightarrow> nat" where
  "popcount n = length (filter (bit n) [0..<LENGTH('a)])"

subsection \<open>The vector\<close>

datatype bv_ptr = NullData | StaticData | HeapData "dword list"

record BitVec_T =
  m_pData :: bv_ptr
  m_dStatic :: "dword list"
  m_uElements :: dword
  m_bOwnStorage :: bool

definition STATICBITS :: dword where "STATICBITS = 128"

definition bv_data :: "BitVec_T \<Rightarrow> dword list" where
  "bv_data bv = (case m_pData bv of NullData \<Rightarrow> [] | StaticData \<Rightarrow> m_dStatic bv | HeapData d \<Rightarrow> d)"

definition bv_put :: "dword list \<Rightarrow> BitVec_T \<Rightarrow> BitVec_T" where
  "bv_put d bv = (case m_pData bv of NullData \<Rightarrow> bv | StaticData \<Rightarrow> bv\<lparr>m_dStatic := d\<rparr>
    | HeapData _ \<Rightarrow> bv\<lparr>m_pData := HeapData d\<rparr>)"

definition BitVec_default :: BitVec_T where
  "BitVec_default = \<lparr>m_pData = NullData, m_dStatic = replicate 4 0, m_uElements = 0, m_bOwnStorage = True\<rparr>"

definition CalcStorage :: "BitVec_T \<Rightarrow> nat" where
  "CalcStorage bv = unat ((m_uElements bv + 32 - 1) div 32)"

definition GetSizeBytes :: "BitVec_T \<Rightarrow> nat" where
  "GetSizeBytes bv = CalcStorage bv * 4"

definition GetSize :: "BitVec_T \<Rightarrow> dword" where
  "GetSize bv = m_uElements bv"

definition BitVec_IsEmpty :: "BitVec_T \<Rightarrow> bool" where
  "BitVec_IsEmpty bv \<longleftrightarrow> m_pData bv = NullData \<or> GetSize bv = 0"

text \<open>\<^verbatim>\<open>memset ( m_pData, x, GetSizeBytes() )\<close> with all bytes of the dword equal.\<close>

definition bv_fill :: "dword \<Rightarrow> BitVec_T \<Rightarrow> BitVec_T" where
  "bv_fill w bv = bv_put (replicate (CalcStorage bv) w @ drop (CalcStorage bv) (bv_data bv)) bv"

definition BitVec_Clear :: "BitVec_T \<Rightarrow> BitVec_T" where
  "BitVec_Clear = bv_fill 0"

definition BitVec_Set :: "BitVec_T \<Rightarrow> BitVec_T" where
  "BitVec_Set = bv_fill 0xFFFFFFFF"

text \<open>Fresh memory holds the arbitrary dword \<open>g\<close> until it is written.\<close>

definition BitVec_Init :: "dword \<Rightarrow> dword \<Rightarrow> BitVec_T \<Rightarrow> BitVec_T" where
  "BitVec_Init g uElements bv =
    (let bv = bv\<lparr>m_uElements := uElements\<rparr>;
         bv = (if uElements > STATICBITS then bv\<lparr>m_pData := HeapData (replicate (CalcStorage bv) g)\<rparr>
               else bv\<lparr>m_pData := StaticData\<rparr>)
     in BitVec_Clear bv)"

definition BitVec_new :: "dword \<Rightarrow> dword \<Rightarrow> BitVec_T" where
  "BitVec_new g uElements = BitVec_Init g uElements BitVec_default"

definition BitVec_wrap :: "dword list \<Rightarrow> dword \<Rightarrow> BitVec_T" where
  "BitVec_wrap pData uElements =
    BitVec_default\<lparr>m_uElements := uElements, m_pData := HeapData pData, m_bOwnStorage := False\<rparr>"

definition BitVec_copy :: "dword \<Rightarrow> BitVec_T \<Rightarrow> BitVec_T" where
  "BitVec_copy g rhs =
    (let bv = BitVec_default\<lparr>m_uElements := m_uElements rhs\<rparr>;
         bv = bv\<lparr>m_pData := (if m_uElements bv > STATICBITS then HeapData (replicate (CalcStorage bv) g) else StaticData)\<rparr>
     in bv_put (take (CalcStorage bv) (bv_data rhs) @ drop (CalcStorage bv) (bv_data bv)) bv)"

definition BitVec_Swap :: "BitVec_T \<Rightarrow> BitVec_T \<Rightarrow> BitVec_T \<times> BitVec_T" where
  "BitVec_Swap bv rhs =
    (let (bv', rhs') =
      (if m_pData bv = StaticData \<and> m_pData rhs = StaticData then
         (bv\<lparr>m_dStatic := m_dStatic rhs\<rparr>, rhs\<lparr>m_dStatic := m_dStatic bv\<rparr>)
       else if m_pData bv = StaticData then
         (bv\<lparr>m_pData := m_pData rhs\<rparr>, rhs\<lparr>m_dStatic := m_dStatic bv, m_pData := StaticData\<rparr>)
       else if m_pData rhs = StaticData then
         (bv\<lparr>m_dStatic := m_dStatic rhs, m_pData := StaticData\<rparr>, rhs\<lparr>m_pData := m_pData bv\<rparr>)
       else (bv\<lparr>m_pData := m_pData rhs\<rparr>, rhs\<lparr>m_pData := m_pData bv\<rparr>))
     in (bv'\<lparr>m_uElements := m_uElements rhs\<rparr>, rhs'\<lparr>m_uElements := m_uElements bv\<rparr>))"

definition BitVec_move :: "BitVec_T \<Rightarrow> BitVec_T \<times> BitVec_T" where
  "BitVec_move rhs = BitVec_Swap BitVec_default rhs"

definition bit_test :: "dword list \<Rightarrow> dword \<Rightarrow> bool" where
  "bit_test d uIndex \<longleftrightarrow> d ! unat (drop_bit 5 uIndex) AND push_bit (unat (uIndex AND 31)) 1 \<noteq> 0"

definition BitGet :: "BitVec_T \<Rightarrow> dword \<Rightarrow> bool option" where
  "BitGet bv uIndex =
    (if m_pData bv = NullData \<or> \<not> uIndex < m_uElements bv then None else Some (bit_test (bv_data bv) uIndex))"

definition BitGetOr :: "BitVec_T \<Rightarrow> dword \<Rightarrow> bool \<Rightarrow> bool" where
  "BitGetOr bv uIndex bAlternative =
    (if m_pData bv \<noteq> NullData \<and> uIndex < m_uElements bv then bit_test (bv_data bv) uIndex else bAlternative)"

definition BitSet :: "dword \<Rightarrow> BitVec_T \<Rightarrow> BitVec_T option" where
  "BitSet uIndex bv =
    (if \<not> uIndex < m_uElements bv then None
     else let k = unat (drop_bit 5 uIndex) in
       Some (bv_put ((bv_data bv)[k := bv_data bv ! k OR push_bit (unat (uIndex AND 31)) 1]) bv))"

definition BitClear :: "dword \<Rightarrow> BitVec_T \<Rightarrow> BitVec_T option" where
  "BitClear uIndex bv =
    (if \<not> uIndex < m_uElements bv then None
     else let k = unat (drop_bit 5 uIndex) in
       Some (bv_put ((bv_data bv)[k := bv_data bv ! k AND NOT (push_bit (unat (uIndex AND 31)) 1)]) bv))"

definition BitCount :: "BitVec_T \<Rightarrow> nat" where
  "BitCount bv = sum_list (map (\<lambda>i. popcount (bv_data bv ! i)) [0..<CalcStorage bv])"

text \<open>The loop of \<^verbatim>\<open>ScanBit\<close> from \<open>i\<close>; 0 when it falls through.\<close>

fun scan_bit_from :: "dword \<Rightarrow> nat list \<Rightarrow> nat" where
  "scan_bit_from uData [] = 0"
| "scan_bit_from uData (i # is) = (if uData AND push_bit i 1 \<noteq> 0 then i else scan_bit_from uData is)"

definition ScanBit :: "BitVec_T \<Rightarrow> nat \<Rightarrow> nat \<Rightarrow> nat" where
  "ScanBit bv iIndex iStart = scan_bit_from (bv_data bv ! iIndex) [iStart..<32]"

function scan_words :: "dword list \<Rightarrow> nat \<Rightarrow> nat \<Rightarrow> nat" where
  "scan_words d iSize iIndex = (if iIndex < iSize \<and> d ! iIndex = 0 then scan_words d iSize (iIndex + 1) else iIndex)"
  by pat_completeness auto
termination
  by (relation "measure (\<lambda>(d, n, i). n - i)") auto

declare scan_words.simps [simp del]

definition BitVec_Scan :: "BitVec_T \<Rightarrow> dword \<Rightarrow> dword option" where
  "BitVec_Scan bv uStart =
    (if \<not> uStart < m_uElements bv then None
     else
       let iIndex = unat (drop_bit 5 uStart);
           uMask = NOT (push_bit (unat (uStart AND 31)) 1 - 1)
       in if bv_data bv ! iIndex AND uMask \<noteq> 0
          then Some (push_bit 5 (of_nat iIndex) + of_nat (ScanBit bv iIndex (unat (uStart AND 31))))
          else
            let iSize = CalcStorage bv;
                iIndex = scan_words (bv_data bv) iSize (iIndex + 1)
            in if iIndex \<ge> iSize then Some (m_uElements bv)
               else Some (push_bit 5 (of_nat iIndex) + of_nat (ScanBit bv iIndex 0)))"

definition BitVec_Negate :: "BitVec_T \<Rightarrow> BitVec_T" where
  "BitVec_Negate bv =
    bv_put (map NOT (take (CalcStorage bv) (bv_data bv)) @ drop (CalcStorage bv) (bv_data bv)) bv"

section \<open>Well-formed vectors and the set they stand for\<close>

text \<open>The bound on the size keeps \<^verbatim>\<open>CalcStorage\<close> from wrapping around.\<close>

definition bv_wf :: "BitVec_T \<Rightarrow> bool" where
  "bv_wf bv \<longleftrightarrow> unat (m_uElements bv) \<le> 2 ^ 32 - 32 \<and> length (m_dStatic bv) = 4 \<and>
    (case m_pData bv of NullData \<Rightarrow> False
     | StaticData \<Rightarrow> unat (m_uElements bv) \<le> 128
     | HeapData d \<Rightarrow> length d = CalcStorage bv)"

definition dbit :: "dword list \<Rightarrow> nat \<Rightarrow> bool" where
  "dbit d i \<longleftrightarrow> bit (d ! (i div 32)) (i mod 32)"

definition bv_bits :: "BitVec_T \<Rightarrow> nat set" where
  "bv_bits bv = {i. i < unat (m_uElements bv) \<and> dbit (bv_data bv) i}"

definition bv_clean :: "BitVec_T \<Rightarrow> bool" where
  "bv_clean bv \<longleftrightarrow> (\<forall>i < 32 * CalcStorage bv. unat (m_uElements bv) \<le> i \<longrightarrow> \<not> dbit (bv_data bv) i)"

section \<open>Addresses of bits\<close>

lemma unat_and_31: "unat (i AND 31 :: dword) = unat i mod 32"
proof -
  have "take_bit 5 i = i AND mask 5" by (rule take_bit_eq_mask)
  moreover have "mask 5 = (31 :: dword)" by (simp add: mask_eq_exp_minus_1)
  ultimately have "i AND 31 = take_bit 5 i" by simp
  then show ?thesis by (simp only: unsigned_take_bit_eq) (simp add: take_bit_eq_mod)
qed

lemma unat_drop_5: "unat (drop_bit 5 (i :: dword)) = unat i div 32"
  by (simp add: unat_drop_bit_div)

lemma bit_test_dbit: "bit_test d i = dbit d (unat i)"
  by (simp only: bit_test_def dbit_def unat_drop_5 unat_and_31 bit_iff_and_push_bit_not_eq_0)

lemma CalcStorage_eq:
  assumes "unat (m_uElements bv) \<le> 2 ^ 32 - 32"
  shows "CalcStorage bv = (unat (m_uElements bv) + 31) div 32"
proof -
  have "m_uElements bv + 32 - 1 = m_uElements bv + 31" by simp
  moreover have "unat (m_uElements bv + 31) = unat (m_uElements bv) + 31"
    using assms by (simp add: unat_add_lem [THEN iffD1])
  ultimately show ?thesis by (simp only: CalcStorage_def unat_div) simp
qed

lemma wf_storage:
  assumes "bv_wf bv"
  shows "CalcStorage bv = (unat (m_uElements bv) + 31) div 32" "CalcStorage bv \<le> length (bv_data bv)"
    "m_pData bv \<noteq> NullData"
proof -
  show e: "CalcStorage bv = (unat (m_uElements bv) + 31) div 32"
    using assms by (intro CalcStorage_eq) (simp add: bv_wf_def)
  show "CalcStorage bv \<le> length (bv_data bv)"
    using assms by (auto simp: bv_wf_def bv_data_def e split: bv_ptr.splits)
  show "m_pData bv \<noteq> NullData" using assms by (auto simp: bv_wf_def)
qed

lemma index_in_storage:
  assumes "bv_wf bv" "i < unat (m_uElements bv)"
  shows "i div 32 < CalcStorage bv" "i < 32 * CalcStorage bv"
proof -
  show "i div 32 < CalcStorage bv" using assms by (simp add: wf_storage)
  then show "i < 32 * CalcStorage bv" by (simp add: div_less_iff_less_mult mult.commute)
qed

lemma bv_data_put [simp]:
  "m_pData bv \<noteq> NullData \<Longrightarrow> bv_data (bv_put d bv) = d"
  "m_uElements (bv_put d bv) = m_uElements bv"
  "CalcStorage (bv_put d bv) = CalcStorage bv"
  by (auto simp: bv_data_def bv_put_def CalcStorage_def split: bv_ptr.splits)

lemma wf_put:
  assumes "bv_wf bv" "length d = length (bv_data bv)"
  shows "bv_wf (bv_put d bv)"
  using assms by (auto simp: bv_wf_def bv_put_def bv_data_def CalcStorage_def split: bv_ptr.splits)

lemma bit_set_word:
  "n < 32 \<Longrightarrow> j < 32 \<Longrightarrow> bit (w OR 2 ^ n :: dword) j = (j = n \<or> bit w j)"
  "n < 32 \<Longrightarrow> j < 32 \<Longrightarrow> bit (w AND NOT (2 ^ n) :: dword) j = (j \<noteq> n \<and> bit w j)"
  by (auto simp: bit_simps)

lemma split_index: "(i :: nat) = n \<longleftrightarrow> i div 32 = n div 32 \<and> i mod 32 = n mod 32"
  by (metis div_mult_mod_eq)

lemma dbit_set:
  assumes "n div 32 < length d"
  shows "dbit (d[n div 32 := d ! (n div 32) OR push_bit (n mod 32) 1]) i = (i = n \<or> dbit d i)"
    and "dbit (d[n div 32 := d ! (n div 32) AND NOT (push_bit (n mod 32) 1)]) i = (i \<noteq> n \<and> dbit d i)"
  using assms split_index[of i n]
  by (auto simp: dbit_def nth_list_update bit_set_word)

section \<open>Refinement of sets\<close>

lemma BitGet_bits:
  assumes "bv_wf bv" "i < m_uElements bv"
  shows "BitGet bv i = Some (unat i \<in> bv_bits bv)"
  using assms wf_storage(3) by (simp add: BitGet_def bit_test_dbit bv_bits_def word_less_nat_alt)

lemma BitSet_bits:
  assumes "bv_wf bv" "i < m_uElements bv"
  shows "\<exists>bv'. BitSet i bv = Some bv' \<and> bv_wf bv' \<and> bv_bits bv' = insert (unat i) (bv_bits bv) \<and>
    m_uElements bv' = m_uElements bv \<and> (bv_clean bv \<longrightarrow> bv_clean bv')"
proof -
  let ?d = "(bv_data bv)[unat i div 32 := bv_data bv ! (unat i div 32) OR push_bit (unat i mod 32) 1]"
  have i: "unat i < unat (m_uElements bv)" using assms(2) by (simp add: word_less_nat_alt)
  then have l: "unat i div 32 < length (bv_data bv)"
    using index_in_storage(1)[OF assms(1) i] wf_storage(2)[OF assms(1)] by simp
  note nn = wf_storage(3)[OF assms(1)]
  have "BitSet i bv = Some (bv_put ?d bv)"
    using assms(2) by (simp add: BitSet_def unat_drop_5 unat_and_31 Let_def)
  moreover have "bv_wf (bv_put ?d bv)" using assms(1) by (rule wf_put) simp
  ultimately show ?thesis
    using nn i dbit_set(1)[OF l] by (intro exI[of _ "bv_put ?d bv"]) (auto simp: bv_bits_def bv_clean_def)
qed

lemma BitClear_bits:
  assumes "bv_wf bv" "i < m_uElements bv"
  shows "\<exists>bv'. BitClear i bv = Some bv' \<and> bv_wf bv' \<and> bv_bits bv' = bv_bits bv - {unat i} \<and>
    m_uElements bv' = m_uElements bv \<and> (bv_clean bv \<longrightarrow> bv_clean bv')"
proof -
  let ?d = "(bv_data bv)[unat i div 32 := bv_data bv ! (unat i div 32) AND NOT (push_bit (unat i mod 32) 1)]"
  have i: "unat i < unat (m_uElements bv)" using assms(2) by (simp add: word_less_nat_alt)
  then have l: "unat i div 32 < length (bv_data bv)"
    using index_in_storage(1)[OF assms(1) i] wf_storage(2)[OF assms(1)] by simp
  note nn = wf_storage(3)[OF assms(1)]
  have "BitClear i bv = Some (bv_put ?d bv)"
    using assms(2) by (simp add: BitClear_def unat_drop_5 unat_and_31 Let_def)
  moreover have "bv_wf (bv_put ?d bv)" using assms(1) by (rule wf_put) simp
  ultimately show ?thesis
    using nn i dbit_set(2)[OF l] by (intro exI[of _ "bv_put ?d bv"]) (auto simp: bv_bits_def bv_clean_def)
qed

lemma fill_bits:
  assumes "bv_wf bv"
  shows "bv_wf (bv_fill w bv)" "m_uElements (bv_fill w bv) = m_uElements bv"
    "i < 32 * CalcStorage bv \<Longrightarrow> dbit (bv_data (bv_fill w bv)) i = bit w (i mod 32)"
  using assms wf_storage[OF assms]
  by (auto simp: bv_fill_def dbit_def nth_append intro!: wf_put)

lemma clear_bits:
  assumes "bv_wf bv"
  shows "bv_wf (BitVec_Clear bv)" "bv_bits (BitVec_Clear bv) = {}" "bv_clean (BitVec_Clear bv)"
proof -
  show "bv_wf (BitVec_Clear bv)" by (simp add: BitVec_Clear_def fill_bits assms)
  have st: "CalcStorage (BitVec_Clear bv) = CalcStorage bv"
    by (simp add: BitVec_Clear_def bv_fill_def)
  show "bv_bits (BitVec_Clear bv) = {}"
    using fill_bits(2)[OF assms] fill_bits(3)[OF assms index_in_storage(2)[OF assms], of _ 0]
    by (auto simp: bv_bits_def BitVec_Clear_def)
  show "bv_clean (BitVec_Clear bv)"
    unfolding bv_clean_def st using fill_bits(3)[OF assms] by (simp add: BitVec_Clear_def)
qed

lemma set_bits:
  assumes "bv_wf bv"
  shows "bv_wf (BitVec_Set bv)" "bv_bits (BitVec_Set bv) = {i. i < unat (m_uElements bv)}"
proof -
  show "bv_wf (BitVec_Set bv)" by (simp add: BitVec_Set_def fill_bits assms)
  have "bit (0xFFFFFFFF :: dword) (i mod 32)" for i :: nat
  proof -
    have "(0xFFFFFFFF :: dword) = -1" by simp
    then show ?thesis by (simp only: bit_minus_1_iff) simp
  qed
  then show "bv_bits (BitVec_Set bv) = {i. i < unat (m_uElements bv)}"
    using fill_bits(2)[OF assms] fill_bits(3)[OF assms index_in_storage(2)[OF assms], of _ "0xFFFFFFFF"]
    by (auto simp: bv_bits_def BitVec_Set_def)
qed

lemma negate_bits:
  assumes "bv_wf bv"
  shows "bv_wf (BitVec_Negate bv)" "bv_bits (BitVec_Negate bv) = {i. i < unat (m_uElements bv)} - bv_bits bv"
proof -
  note st = wf_storage[OF assms]
  show "bv_wf (BitVec_Negate bv)" using assms st by (auto simp: BitVec_Negate_def intro!: wf_put)
  have "dbit (bv_data (BitVec_Negate bv)) i = (\<not> dbit (bv_data bv) i)" if "i < unat (m_uElements bv)" for i
    using index_in_storage(1)[OF assms that] st
    by (simp add: BitVec_Negate_def dbit_def nth_append bit_not_iff)
  then show "bv_bits (BitVec_Negate bv) = {i. i < unat (m_uElements bv)} - bv_bits bv"
    by (auto simp: bv_bits_def BitVec_Negate_def)
qed

lemma init_bits:
  assumes "unat n \<le> 2 ^ 32 - 32" "length (m_dStatic bv) = 4"
  shows "bv_wf (BitVec_Init g n bv)" "bv_bits (BitVec_Init g n bv) = {}" "bv_clean (BitVec_Init g n bv)"
    "m_uElements (BitVec_Init g n bv) = n"
proof -
  let ?b = "if n > STATICBITS then bv\<lparr>m_uElements := n, m_pData := HeapData (replicate (CalcStorage (bv\<lparr>m_uElements := n\<rparr>)) g)\<rparr>
    else bv\<lparr>m_uElements := n, m_pData := StaticData\<rparr>"
  have "bv_wf ?b"
    using assms by (auto simp: bv_wf_def CalcStorage_def STATICBITS_def word_less_nat_alt)
  moreover have eq: "BitVec_Init g n bv = BitVec_Clear ?b" by (simp add: BitVec_Init_def Let_def)
  ultimately show "bv_wf (BitVec_Init g n bv)" "bv_bits (BitVec_Init g n bv) = {}" "bv_clean (BitVec_Init g n bv)"
    by (simp_all only: clear_bits)
  show "m_uElements (BitVec_Init g n bv) = n" unfolding eq by (simp add: BitVec_Clear_def bv_fill_def)
qed

lemma swap_bits:
  assumes "bv_wf a" "bv_wf b" "BitVec_Swap a b = (a', b')"
  shows "bv_wf a' \<and> bv_wf b' \<and> bv_bits a' = bv_bits b \<and> bv_bits b' = bv_bits a \<and>
    m_uElements a' = m_uElements b \<and> m_uElements b' = m_uElements a"
  using assms
  by (auto simp: BitVec_Swap_def bv_wf_def bv_bits_def bv_data_def CalcStorage_def Let_def
      split: if_splits bv_ptr.splits)

lemma copy_bits:
  assumes "bv_wf bv"
  shows "bv_wf (BitVec_copy g bv) \<and> bv_bits (BitVec_copy g bv) = bv_bits bv \<and>
    m_uElements (BitVec_copy g bv) = m_uElements bv"
proof -
  let ?p = "if m_uElements bv > STATICBITS then HeapData (replicate (CalcStorage bv) g) else StaticData"
  let ?b = "BitVec_default\<lparr>m_uElements := m_uElements bv, m_pData := ?p\<rparr>"
  have cs: "CalcStorage ?b = CalcStorage bv" by (simp add: CalcStorage_def)
  have wf: "bv_wf ?b"
    using assms by (auto simp: bv_wf_def CalcStorage_def STATICBITS_def word_less_nat_alt BitVec_default_def)
  let ?d = "take (CalcStorage bv) (bv_data bv) @ drop (CalcStorage bv) (bv_data ?b)"
  have eq: "BitVec_copy g bv = bv_put ?d ?b"
    by (simp add: BitVec_copy_def Let_def CalcStorage_def)
  have "length ?d = length (bv_data ?b)" using wf_storage(2)[OF assms] wf_storage(2)[OF wf] cs by simp
  then have "bv_wf (bv_put ?d ?b)" by (rule wf_put[OF wf])
  moreover have "dbit ?d i = dbit (bv_data bv) i" if "i < unat (m_uElements bv)" for i
    using index_in_storage(1)[OF assms that] wf_storage(2)[OF assms] by (simp add: dbit_def nth_append)
  then have "bv_bits (bv_put ?d ?b) = bv_bits bv"
    unfolding bv_bits_def using wf_storage(3)[OF wf] by auto
  ultimately show ?thesis unfolding eq by simp
qed

section \<open>Counting and scanning\<close>

lemma popcount_card: "popcount w = card {j. j < LENGTH('a) \<and> bit (w :: 'a::len word) j}"
proof -
  have "{j. j < LENGTH('a) \<and> bit w j} = set (filter (bit w) [0..<LENGTH('a)])" by auto
  then show ?thesis by (simp only: popcount_def distinct_card distinct_filter distinct_upt)
qed

lemma sum_popcount:
  "sum_list (map (\<lambda>i. popcount (d ! i)) [0..<n]) = card {i. i < 32 * n \<and> dbit d i}"
proof (induction n)
  case (Suc n)
  let ?A = "{i. i < 32 * n \<and> dbit d i}" and ?B = "{j. j < 32 \<and> bit (d ! n) j}"
  have "{i. i < 32 * Suc n \<and> dbit d i} = ?A \<union> (\<lambda>j. 32 * n + j) ` ?B"
  proof (intro equalityI subsetI)
    fix i assume i: "i \<in> {i. i < 32 * Suc n \<and> dbit d i}"
    show "i \<in> ?A \<union> (\<lambda>j. 32 * n + j) ` ?B"
    proof (cases "i < 32 * n")
      case False
      define j where "j = i - 32 * n"
      have j: "i = 32 * n + j" "j < 32" using False i by (auto simp: j_def)
      then have "bit (d ! n) j" using i by (simp add: dbit_def)
      then show ?thesis using j by auto
    qed (use i in auto)
  qed (auto simp: dbit_def)
  moreover have "card (?A \<union> (\<lambda>j. 32 * n + j) ` ?B) = card ?A + card ((\<lambda>j. 32 * n + j) ` ?B)"
    by (rule card_Un_disjoint) auto
  moreover have "card ((\<lambda>j. 32 * n + j) ` ?B) = popcount (d ! n)"
    by (simp add: card_image popcount_card)
  ultimately show ?case using Suc by simp
qed simp

lemma BitCount_bits:
  assumes "bv_wf bv" "bv_clean bv"
  shows "BitCount bv = card (bv_bits bv)"
proof -
  have "{i. i < 32 * CalcStorage bv \<and> dbit (bv_data bv) i} = bv_bits bv"
    using assms wf_storage(1)[OF assms(1)] by (auto simp: bv_clean_def bv_bits_def not_le)
  then show ?thesis by (simp add: BitCount_def sum_popcount)
qed

lemma scan_bit_least:
  "j < 32 \<Longrightarrow> a \<le> j \<Longrightarrow> bit w j \<Longrightarrow>
    bit w (scan_bit_from w [a..<32]) \<and> a \<le> scan_bit_from w [a..<32] \<and> scan_bit_from w [a..<32] \<le> j"
proof (induction "32 - a" arbitrary: a)
  case (Suc m)
  then have "[a..<32] = a # [Suc a..<32]" by (simp add: upt_conv_Cons)
  moreover have "w AND push_bit a 1 \<noteq> 0 \<longleftrightarrow> bit w a" by (simp only: bit_iff_and_push_bit_not_eq_0)
  ultimately have eq: "scan_bit_from w [a..<32] = (if bit w a then a else scan_bit_from w [Suc a..<32])"
    by (simp only: scan_bit_from.simps)
  show ?case
  proof (cases "bit w a")
    case False
    then have "Suc a \<le> j" using Suc.prems by (metis le_neq_implies_less Suc_leI)
    moreover have "m = 32 - Suc a" using Suc.hyps(2) by simp
    ultimately show ?thesis using Suc.hyps(1)[of "Suc a"] Suc.prems False eq by auto
  qed (use eq Suc.prems in simp)
qed simp

lemma scan_words_spec:
  "i \<le> scan_words d n i \<and> (\<forall>k. i \<le> k \<longrightarrow> k < scan_words d n i \<longrightarrow> k < n \<and> d ! k = 0) \<and>
    (scan_words d n i < n \<longrightarrow> d ! scan_words d n i \<noteq> 0)"
proof (induction "n - i" arbitrary: i rule: less_induct)
  case less
  show ?case
  proof (cases "i < n \<and> d ! i = 0")
    case True
    then have eq: "scan_words d n i = scan_words d n (i + 1)" by (subst scan_words.simps) simp
    have "n - (i + 1) < n - i" using True by linarith
    note IH = less[OF this]
    have b: "k < n \<and> d ! k = 0" if k: "i \<le> k" "k < scan_words d n (i + 1)" for k
    proof (cases "k = i")
      case False
      then have "i + 1 \<le> k" using k(1) by simp
      with k(2) IH show ?thesis by blast
    qed (use True in blast)
    have "i \<le> scan_words d n (i + 1)" using IH by linarith
    with b IH show ?thesis unfolding eq by blast
  next
    case False
    then have eq: "scan_words d n i = i" by (subst scan_words.simps) auto
    show ?thesis unfolding eq using False by auto
  qed
qed

lemma mask_test:
  assumes "n < 32"
  shows "(w :: dword) AND NOT (push_bit n 1 - 1) \<noteq> 0 \<longleftrightarrow> (\<exists>j. n \<le> j \<and> j < 32 \<and> bit w j)"
proof -
  have "push_bit n 1 - 1 = (mask n :: dword)" by (simp add: mask_eq_exp_minus_1)
  then have "bit (w AND NOT (push_bit n 1 - 1)) j = (n \<le> j \<and> j < 32 \<and> bit w j)" for j
    by (auto simp: bit_and_iff bit_not_iff bit_mask_iff dest: bit_imp_le_length)
  then show ?thesis by (metis bit_0_eq bot_apply bot_bool_def bit_eq_iff)
qed

lemma scan_result:
  assumes "32 * k + r < 2 ^ 32"
  shows "unat (push_bit 5 (of_nat k) + of_nat r :: dword) = 32 * k + r"
proof -
  have "push_bit 5 (of_nat k) + of_nat r = (of_nat (32 * k + r) :: dword)"
    by (simp add: push_bit_eq_mult)
  then show ?thesis using assms by (simp only: unat_of_nat) simp
qed

lemma dbit_split: "j < 32 \<Longrightarrow> dbit d (32 * k + j) = bit (d ! k) j"
  by (simp add: dbit_def)

lemma scan_in_word:
  assumes "a \<le> j" "j < 32" "bit (d ! k) j"
  defines "b \<equiv> scan_bit_from (d ! k) [a..<32]"
  shows "b < 32" "dbit d (32 * k + b)" "a \<le> b"
    "dbit d i \<Longrightarrow> 32 * k + a \<le> i \<Longrightarrow> 32 * k + b \<le> i"
proof -
  have b: "bit (d ! k) b" "a \<le> b" "b \<le> j" unfolding b_def using scan_bit_least[OF assms(2,1,3)] by auto
  then show "b < 32" "a \<le> b" using assms(2) by auto
  with b show "dbit d (32 * k + b)" by (simp add: dbit_split)
  show "32 * k + b \<le> i" if i: "dbit d i" "32 * k + a \<le> i"
  proof (cases "i div 32 = k")
    case True
    then have e: "i = 32 * k + i mod 32" by (metis mult_div_mod_eq)
    then have "a \<le> i mod 32" using i(2) by linarith
    moreover have "bit (d ! k) (i mod 32)" using i(1) True by (simp add: dbit_def)
    ultimately have "b \<le> i mod 32" unfolding b_def using scan_bit_least[of "i mod 32" a "d ! k"] by simp
    then show ?thesis using e by linarith
  next
    case False
    then have "k < i div 32" using i(2) by linarith
    then show ?thesis using \<open>b < 32\<close> by linarith
  qed
qed

lemma scan_past_words:
  assumes "\<not> (\<exists>j. a \<le> j \<and> j < 32 \<and> bit (d ! k) j)" "\<And>l. k < l \<Longrightarrow> l < i \<Longrightarrow> d ! l = 0"
    and j: "dbit d j" "32 * k + a \<le> j"
  shows "32 * i \<le> j"
proof (rule ccontr)
  assume "\<not> 32 * i \<le> j"
  then have ji: "j div 32 < i" by linarith
  have bj: "bit (d ! (j div 32)) (j mod 32)" using j(1) by (simp add: dbit_def)
  have e: "j = 32 * (j div 32) + j mod 32" by simp
  show False
  proof (cases "j div 32 = k")
    case True
    then have "a \<le> j mod 32" using j(2) e by linarith
    then show False using assms(1) bj True by auto
  next
    case False
    then have "k < j div 32" using j(2) by linarith
    with assms(2) ji have "d ! (j div 32) = 0" by blast
    with bj show False by simp
  qed
qed

lemma Scan_unfold:
  assumes "uStart < m_uElements bv"
  defines "k \<equiv> unat uStart div 32" and "a \<equiv> unat uStart mod 32"
  shows "BitVec_Scan bv uStart =
    (if \<exists>j. a \<le> j \<and> j < 32 \<and> bit (bv_data bv ! k) j
     then Some (push_bit 5 (of_nat k) + of_nat (scan_bit_from (bv_data bv ! k) [a..<32]))
     else let i = scan_words (bv_data bv) (CalcStorage bv) (k + 1) in
       if i \<ge> CalcStorage bv then Some (m_uElements bv)
       else Some (push_bit 5 (of_nat i) + of_nat (scan_bit_from (bv_data bv ! i) [0..<32])))"
proof -
  have "a < 32" by (simp add: a_def)
  from mask_test[OF this] show ?thesis
    using assms(1) unfolding k_def a_def
    by (simp only: BitVec_Scan_def unat_drop_5 unat_and_31 ScanBit_def Let_def) simp
qed

lemma Scan_bits:
  assumes wf: "bv_wf bv" and cl: "bv_clean bv" and st: "uStart < m_uElements bv"
  shows "\<exists>r. BitVec_Scan bv uStart = Some r \<and>
    ((r = m_uElements bv \<and> (\<forall>j \<in> bv_bits bv. j < unat uStart)) \<or>
     (unat r \<in> bv_bits bv \<and> uStart \<le> r \<and> (\<forall>j \<in> bv_bits bv. unat uStart \<le> j \<longrightarrow> unat r \<le> j)))"
proof -
  let ?d = "bv_data bv" and ?n = "CalcStorage bv"
  define k where "k = unat uStart div 32"
  define a where "a = unat uStart mod 32"
  have s: "unat uStart < unat (m_uElements bv)" using st by (simp add: word_less_nat_alt)
  have su: "unat uStart = 32 * k + a" by (simp add: k_def a_def)
  have n: "?n \<le> 2 ^ 27" using wf_storage(1)[OF wf] wf by (simp add: bv_wf_def) linarith
  have real: "i \<in> bv_bits bv \<longleftrightarrow> dbit ?d i" if "i < 32 * ?n" for i
    using that cl by (auto simp: bv_clean_def bv_bits_def not_le)
  have bits: "dbit ?d j \<and> j < 32 * ?n" if "j \<in> bv_bits bv" for j
    using that index_in_storage(2)[OF wf] by (auto simp: bv_bits_def)
  note eq = Scan_unfold[OF st, folded k_def a_def]
  have found: "unat (push_bit 5 (of_nat i) + of_nat b :: dword) = 32 * i + b \<and> 32 * i + b \<in> bv_bits bv"
    if "i < ?n" "b < 32" "dbit ?d (32 * i + b)" for i b
  proof -
    have "32 * i + b < 32 * ?n" using that by linarith
    with n that(3) real[OF this] show ?thesis by (auto intro!: scan_result)
  qed
  have kn: "k < ?n" unfolding k_def by (rule index_in_storage(1)[OF wf s])
  show ?thesis
  proof (cases "\<exists>j. a \<le> j \<and> j < 32 \<and> bit (?d ! k) j")
    case True
    then obtain j where "a \<le> j" "j < 32" "bit (?d ! k) j" by blast
    note b = scan_in_word[OF this]
    show ?thesis unfolding eq using True found[OF kn b(1,2)] b(3,4) bits su
      by (simp add: word_le_nat_alt)
  next
    case False
    define i where "i = scan_words ?d ?n (k + 1)"
    have eq2: "BitVec_Scan bv uStart = (if i \<ge> ?n then Some (m_uElements bv)
       else Some (push_bit 5 (of_nat i) + of_nat (scan_bit_from (?d ! i) [0..<32])))"
      unfolding eq using False by (simp only: Let_def i_def if_False)
    note sw = scan_words_spec[of "k + 1" ?d ?n, folded i_def]
    have low: "32 * i \<le> j" if "dbit ?d j" "32 * k + a \<le> j" for j
      using scan_past_words[OF False _ that] sw by (metis Suc_eq_plus1 Suc_leI)
    show ?thesis
    proof (cases "i \<ge> ?n")
      case True
      have "j < unat uStart" if "j \<in> bv_bits bv" for j
        using low[of j] True bits[OF that] su by linarith
      then show ?thesis unfolding eq2 using True by simp
    next
      case i: False
      from sw i have "?d ! i \<noteq> 0" by simp
      then obtain j where j: "bit (?d ! i) j" by (auto simp: bit_eq_iff)
      then have "j < 32" using bit_imp_le_length by fastforce
      note b = scan_in_word[OF le0 this j]
      from i have "i < ?n" by simp
      note f = found[OF this b(1,2)]
      have "32 * i + scan_bit_from (?d ! i) [0..<32] \<le> j" if "j \<in> bv_bits bv" "unat uStart \<le> j" for j
        using b(4)[of j] low[of j] bits[OF that(1)] that(2) su by simp
      moreover have "unat uStart \<le> 32 * i" using sw su by (simp add: a_def) linarith
      ultimately show ?thesis unfolding eq2 using i f by (simp add: word_le_nat_alt)
    qed
  qed
qed

section \<open>Properties\<close>

text \<open>C18: on well-formed vectors the operations are those of a set of bit numbers below the size:
  reading, setting and clearing one bit, filling, negating, copying and exchanging two vectors,
  with all of them keeping the vector well-formed.\<close>

theorem bitvec_refines_set:
  assumes "bv_wf bv" "i < m_uElements bv" "bv_wf rhs" "BitVec_Swap bv rhs = (bv', rhs')"
  shows "BitGet bv i = Some (unat i \<in> bv_bits bv) \<and>
    (\<exists>b. BitSet i bv = Some b \<and> bv_wf b \<and> bv_bits b = insert (unat i) (bv_bits bv)) \<and>
    (\<exists>b. BitClear i bv = Some b \<and> bv_wf b \<and> bv_bits b = bv_bits bv - {unat i}) \<and>
    bv_wf (BitVec_Clear bv) \<and> bv_bits (BitVec_Clear bv) = {} \<and>
    bv_wf (BitVec_Set bv) \<and> bv_bits (BitVec_Set bv) = {j. j < unat (m_uElements bv)} \<and>
    bv_wf (BitVec_Negate bv) \<and> bv_bits (BitVec_Negate bv) = {j. j < unat (m_uElements bv)} - bv_bits bv \<and>
    bv_wf (BitVec_copy g bv) \<and> bv_bits (BitVec_copy g bv) = bv_bits bv \<and>
    bv_wf bv' \<and> bv_bits bv' = bv_bits rhs \<and> bv_wf rhs' \<and> bv_bits rhs' = bv_bits bv"
  using BitGet_bits[OF assms(1,2)] BitSet_bits[OF assms(1,2)] BitClear_bits[OF assms(1,2)]
    clear_bits[OF assms(1)] set_bits[OF assms(1)] negate_bits[OF assms(1)] copy_bits[OF assms(1), of g]
    swap_bits[OF assms(1,3,4)]
  by blast

theorem bitvec_refines_set_witness:
  "\<exists>b. BitSet 7 (BitVec_new 0 200) = Some b \<and> bv_bits b = insert 7 {}"
proof -
  have wf: "bv_wf (BitVec_new 0 200)" and e: "bv_bits (BitVec_new 0 200) = {}" "m_uElements (BitVec_new 0 200) = 200"
    unfolding BitVec_new_def using init_bits[of 200 BitVec_default 0] by (simp_all add: BitVec_default_def)
  obtain x y where "BitVec_Swap (BitVec_new 0 200) (BitVec_new 0 200) = (x, y)" by fastforce
  from bitvec_refines_set[OF wf _ wf this, of 7 0] e show ?thesis by auto
qed

text \<open>C19: if no bit past the end is set (\<^verbatim>\<open>Set\<close> and \<^verbatim>\<open>Negate\<close> can set such bits), \<^verbatim>\<open>BitCount\<close> is the number of set bits and \<^verbatim>\<open>Scan\<close> returns the least
  set bit at or after its argument, or the size of the vector when there is none. A fresh vector
  has no such bit, and setting or clearing a bit keeps it so.\<close>

theorem bitvec_scan_count:
  assumes "bv_wf bv" "bv_clean bv" "uStart < m_uElements bv" "unat n \<le> 2 ^ 32 - 32"
  shows "BitCount bv = card (bv_bits bv) \<and>
    (\<exists>r. BitVec_Scan bv uStart = Some r \<and>
      ((r = m_uElements bv \<and> (\<forall>j \<in> bv_bits bv. j < unat uStart)) \<or>
       (unat r \<in> bv_bits bv \<and> uStart \<le> r \<and> (\<forall>j \<in> bv_bits bv. unat uStart \<le> j \<longrightarrow> unat r \<le> j)))) \<and>
    bv_clean (BitVec_new g n) \<and>
    (\<exists>b. BitSet uStart bv = Some b \<and> bv_clean b) \<and> (\<exists>b. BitClear uStart bv = Some b \<and> bv_clean b)"
  using BitCount_bits[OF assms(1,2)] Scan_bits[OF assms(1-3)] init_bits(3)[OF assms(4), of BitVec_default g]
    BitSet_bits[OF assms(1,3)] BitClear_bits[OF assms(1,3)] assms(2)
  by (auto simp: BitVec_new_def BitVec_default_def)

theorem bitvec_scan_count_witness:
  "\<exists>b. BitSet 7 (BitVec_new 0 200) = Some b \<and> BitCount b = 1 \<and> BitVec_Scan b 3 = Some 7 \<and> BitVec_Scan b 8 = Some 200"
proof -
  have new: "bv_wf (BitVec_new 0 200)" "bv_clean (BitVec_new 0 200)" "m_uElements (BitVec_new 0 200) = 200" "bv_bits (BitVec_new 0 200) = {}"
    unfolding BitVec_new_def using init_bits[of 200 BitVec_default 0] by (simp_all add: BitVec_default_def)
  obtain b where b: "BitSet 7 (BitVec_new 0 200) = Some b" "bv_wf b" "bv_clean b" "m_uElements b = 200" "bv_bits b = {7}"
    using BitSet_bits[OF new(1), of 7] new(2-4) by auto
  have "BitCount b = 1" using bitvec_scan_count[OF b(2,3), of 3 200 0] b(4,5) by simp
  moreover have "BitVec_Scan b 3 = Some 7" using bitvec_scan_count[OF b(2,3), of 3 200 0] b(4,5) by (auto simp: word_unat_eq_iff)
  moreover have "BitVec_Scan b 8 = Some 200" using bitvec_scan_count[OF b(2,3), of 8 200 0] b(4,5) by (auto simp: word_le_nat_alt)
  ultimately show ?thesis using b(1) by blast
qed

text \<open>C20: \<^verbatim>\<open>Set\<close> also sets the bits past the end of the vector: after it \<^verbatim>\<open>BitCount\<close> returns the size
  rounded up to whole dwords, so for a size that is no multiple of 32 it exceeds the size.\<close>

theorem bitvec_set_overcounts:
  assumes "bv_wf bv"
  shows "BitCount (BitVec_Set bv) = 32 * ((unat (m_uElements bv) + 31) div 32)"
proof -
  have st: "CalcStorage (BitVec_Set bv) = CalcStorage bv" by (simp add: BitVec_Set_def bv_fill_def)
  have "bit (0xFFFFFFFF :: dword) (i mod 32)" for i :: nat
  proof -
    have "(0xFFFFFFFF :: dword) = -1" by simp
    then show ?thesis by (simp only: bit_minus_1_iff) simp
  qed
  then have "{i. i < 32 * CalcStorage bv \<and> dbit (bv_data (BitVec_Set bv)) i} = {i. i < 32 * CalcStorage bv}"
    using fill_bits(3)[OF assms] by (auto simp: BitVec_Set_def)
  then show ?thesis by (simp add: BitCount_def sum_popcount st wf_storage(1)[OF assms])
qed

theorem bitvec_set_overcounts_witness: "BitCount (BitVec_Set (BitVec_new 0 10)) = 32"
proof -
  have "bv_wf (BitVec_new 0 10)" "m_uElements (BitVec_new 0 10) = 10"
    unfolding BitVec_new_def using init_bits[of 10 BitVec_default 0] by (simp_all add: BitVec_default_def)
  with bitvec_set_overcounts[of "BitVec_new 0 10"] show ?thesis by simp
qed

end
