(* ===== verification/Bytes.thy ===== *)
theory Bytes
  imports Prelude
begin

text \<open>
  Memory as bytes: the little-endian images of words that the program writes with
  \<^verbatim>\<open>PutBytes ( &uValue, sizeof(uValue) )\<close> and reads with \<^verbatim>\<open>sphUnalignedRead\<close>, reads at an offset of a buffer
  (None stands for a read past its end), and the effect of writing bytes at a position of a file.
\<close>

fun le_bytes :: "nat \<Rightarrow> 'a::len word \<Rightarrow> byte list" where
  "le_bytes 0 w = []"
| "le_bytes (Suc n) w = ucast w # le_bytes n (drop_bit 8 w)"

fun le_word :: "byte list \<Rightarrow> 'a::len word" where
  "le_word [] = 0"
| "le_word (b # bs) = ucast b OR push_bit 8 (le_word bs)"

definition read_at :: "nat \<Rightarrow> byte list \<Rightarrow> nat \<Rightarrow> 'a::len word option" where
  "read_at n d p = (if p + n \<le> length d then Some (le_word (take n (drop p d))) else None)"

definition read32 :: "byte list \<Rightarrow> nat \<Rightarrow> dword option" where
  "read32 = read_at 4"

definition read64 :: "byte list \<Rightarrow> nat \<Rightarrow> qword option" where
  "read64 = read_at 8"

text \<open>Bytes \<open>bs\<close> written at position \<open>p\<close> of a file \<open>f\<close>; a gap past its end is filled with zeros.\<close>

definition overwrite :: "byte list \<Rightarrow> nat \<Rightarrow> byte list \<Rightarrow> byte list" where
  "overwrite f p bs =
    (if bs = [] then f else take p f @ replicate (p - length f) 0 @ bs @ drop (p + length bs) f)"

section \<open>Images of words\<close>

lemma length_le_bytes [simp]: "length (le_bytes n w) = n"
  by (induction n arbitrary: w) auto

lemma bit_le_word_bytes:
  "bit (le_word (le_bytes n w) :: 'a::len word) i \<longleftrightarrow> i < 8 * n \<and> bit (w :: 'a word) i"
proof (induction n arbitrary: w i)
  case (Suc n)
  show ?case
  proof (cases "i < LENGTH('a)")
    case True
    then show ?thesis
      using Suc[of "drop_bit 8 w" "i - 8"]
      by (auto simp: bit_or_iff bit_push_bit_iff bit_unsigned_iff bit_drop_bit_eq)
  next
    case False
    then show ?thesis using bit_imp_le_length by fastforce
  qed
qed simp

lemma le_word_bytes: "LENGTH('a) \<le> 8 * n \<Longrightarrow> le_word (le_bytes n w) = (w :: 'a::len word)"
  by (rule bit_word_eqI) (simp add: bit_le_word_bytes)

lemma read_at_image:
  assumes "LENGTH('a) \<le> 8 * n" "take n (drop p d) = le_bytes n (w :: 'a::len word)"
  shows "read_at n d p = Some w"
proof -
  have "length (take n (drop p d)) = n" using assms(2) by simp
  then have "n \<le> length d - p" by simp
  then have "p + n \<le> length d \<or> n = 0" by linarith
  moreover have "n \<noteq> 0" using assms(1) by (cases n) auto
  ultimately show ?thesis using assms by (simp add: read_at_def le_word_bytes)
qed

lemma read32_image: "take 4 (drop p d) = le_bytes 4 w \<Longrightarrow> read32 d p = Some w"
  by (simp add: read32_def read_at_image)

lemma read64_image: "take 8 (drop p d) = le_bytes 8 w \<Longrightarrow> read64 d p = Some w"
  by (simp add: read64_def read_at_image)

lemma read_append: "p + n \<le> length a \<Longrightarrow> read_at n (a @ b) p = read_at n a p"
  by (simp add: read_at_def)

lemma read_skip: "read_at n (a @ b) (length a + p) = read_at n b p"
  by (simp add: read_at_def)

section \<open>Writing into a file\<close>

lemma overwrite_nil [simp]: "overwrite f p [] = f"
  by (simp add: overwrite_def)

lemma length_overwrite: "bs \<noteq> [] \<Longrightarrow> length (overwrite f p bs) = max (length f) (p + length bs)"
  by (simp add: overwrite_def)

lemma overwrite_end [simp]: "overwrite f (length f) bs = f @ bs"
  by (simp add: overwrite_def)

lemma overwrite_empty [simp]: "overwrite [] 0 bs = bs"
  by (simp add: overwrite_def)

lemma overwrite_mid: "length a = p \<Longrightarrow> length b = length bs \<Longrightarrow> overwrite (a @ b @ c) p bs = a @ bs @ c"
  by (cases "bs = []") (auto simp: overwrite_def)

lemma overwrite_seq: "overwrite (overwrite f p a) (p + length a) b = overwrite f p (a @ b)"
proof (cases "a = [] \<or> b = []")
  case False
  let ?pre = "take p f @ replicate (p - length f) 0 @ a"
  have len: "length ?pre = p + length a" by simp
  have o: "overwrite f p a = ?pre @ drop (p + length a) f" using False by (simp add: overwrite_def)
  have "overwrite (?pre @ drop (p + length a) f) (p + length a) b
      = ?pre @ b @ drop (length b) (drop (p + length a) f)"
    using False len unfolding overwrite_def by simp
  then show ?thesis unfolding o using False by (simp add: overwrite_def add.commute add.left_commute)
qed auto

lemma take_overwrite: "k \<le> p \<Longrightarrow> k \<le> length f \<Longrightarrow> take k (overwrite f p bs) = take k f"
  by (simp add: overwrite_def min_def)

end
