(* ===== verification/File_Writer.thy ===== *)
theory File_Writer
  imports Bytes Zip
begin

text \<open>
  The buffered file writer, \<^verbatim>\<open>CSphWriter\<close> of \<^verbatim>\<open>src/src/fileio.cpp\<close> opened with \<^verbatim>\<open>OpenFile\<close> (so without a
  shared offset). The buffer is the list of its used bytes (\<^verbatim>\<open>m_pPool\<close> always points at its end), the
  file is a byte list, and the flag \<open>m_bDiskOk\<close> tells whether the device accepts writes. Shown: the
  writer implements a file with a position, except that seeking backwards inside the buffer drops
  the bytes buffered past the target: the clients flush before they seek. \<^verbatim>\<open>SeekTo\<close> is modelled with its default
  \<^verbatim>\<open>bTruncate = false\<close>, which is what the modelled clients pass.
\<close>

section \<open>Model\<close>

record CSphWriter =
  m_dDisk :: "byte list"
  m_bDiskOk :: bool
  m_iPos :: nat
  m_iDiskPos :: nat
  m_dPool :: "byte list"
  m_iBufferSize :: nat
  m_bError :: bool

definition CSphWriter_OpenFile :: "bool \<Rightarrow> nat \<Rightarrow> CSphWriter" where
  "CSphWriter_OpenFile ok iBufferSize =
    \<lparr>m_dDisk = [], m_bDiskOk = ok, m_iPos = 0, m_iDiskPos = 0, m_dPool = [], m_iBufferSize = iBufferSize, m_bError = False\<rparr>"

definition CSphWriter_SetBufferSize :: "nat \<Rightarrow> CSphWriter \<Rightarrow> CSphWriter" where
  "CSphWriter_SetBufferSize iBufferSize w =
    (if iBufferSize \<noteq> m_iBufferSize w then w\<lparr>m_iBufferSize := max iBufferSize 262144\<rparr> else w)"

definition CSphWriter_Flush :: "CSphWriter \<Rightarrow> CSphWriter" where
  "CSphWriter_Flush w =
    (let w = (if m_bDiskOk w then w\<lparr>m_dDisk := overwrite (m_dDisk w) (m_iDiskPos w) (m_dPool w)\<rparr>
              else w\<lparr>m_bError := True\<rparr>)
     in w\<lparr>m_iDiskPos := m_iDiskPos w + length (m_dPool w), m_dPool := []\<rparr>)"

definition CSphWriter_PutByte :: "byte \<Rightarrow> CSphWriter \<Rightarrow> CSphWriter" where
  "CSphWriter_PutByte uValue w =
    (let w = (if length (m_dPool w) = m_iBufferSize w then CSphWriter_Flush w else w)
     in w\<lparr>m_dPool := m_dPool w @ [uValue], m_iPos := m_iPos w + 1\<rparr>)"

text \<open>A buffer of size zero would loop forever; the buffer has at least 262144 bytes.\<close>

function CSphWriter_PutBytes :: "byte list \<Rightarrow> CSphWriter \<Rightarrow> CSphWriter option" where
  "CSphWriter_PutBytes pBuf w =
    (if pBuf = [] then Some w
     else
       let iPut = (if length pBuf < m_iBufferSize w then length pBuf else m_iBufferSize w) in
       if iPut = 0 then None
       else
         let w = (if length (m_dPool w) + iPut > m_iBufferSize w then CSphWriter_Flush w else w)
         in CSphWriter_PutBytes (drop iPut pBuf)
              (w\<lparr>m_dPool := m_dPool w @ take iPut pBuf, m_iPos := m_iPos w + iPut\<rparr>))"
  by pat_completeness auto
termination
  by (relation "measure (\<lambda>(b, w). length b)") (auto split: if_splits)

declare CSphWriter_PutBytes.simps [simp del]

definition CSphWriter_PutDword :: "dword \<Rightarrow> CSphWriter \<Rightarrow> CSphWriter option" where
  "CSphWriter_PutDword uValue = CSphWriter_PutBytes (le_bytes 4 uValue)"

definition CSphWriter_PutOffset :: "SphOffset_t \<Rightarrow> CSphWriter \<Rightarrow> CSphWriter option" where
  "CSphWriter_PutOffset uValue = CSphWriter_PutBytes (le_bytes 8 uValue)"

definition CSphWriter_ZipInt :: "dword \<Rightarrow> CSphWriter \<Rightarrow> CSphWriter" where
  "CSphWriter_ZipInt uValue w = fold CSphWriter_PutByte (ZipValueBE False uValue) w"

definition CSphWriter_ZipOffset :: "qword \<Rightarrow> CSphWriter \<Rightarrow> CSphWriter" where
  "CSphWriter_ZipOffset uValue w = fold CSphWriter_PutByte (ZipValueBE False uValue) w"

definition CSphWriter_PutString :: "byte list \<Rightarrow> CSphWriter \<Rightarrow> CSphWriter option" where
  "CSphWriter_PutString szString w =
    (case CSphWriter_PutDword (of_nat (length szString)) w of None \<Rightarrow> None
     | Some w \<Rightarrow> if length szString \<noteq> 0 then CSphWriter_PutBytes szString w else Some w)"

definition CSphWriter_PutZString :: "byte list \<Rightarrow> CSphWriter \<Rightarrow> CSphWriter option" where
  "CSphWriter_PutZString szString w =
    (let w = CSphWriter_ZipOffset (of_nat (length szString)) w
     in if length szString \<noteq> 0 then CSphWriter_PutBytes szString w else Some w)"

definition CSphWriter_SeekTo :: "nat \<Rightarrow> CSphWriter \<Rightarrow> CSphWriter" where
  "CSphWriter_SeekTo iPos w =
    (let w = (if m_iDiskPos w \<le> iPos \<and> iPos \<le> m_iDiskPos w + length (m_dPool w)
              then w\<lparr>m_dPool := take (iPos - m_iDiskPos w) (m_dPool w)\<rparr>
              else (CSphWriter_Flush w)\<lparr>m_dPool := [], m_iDiskPos := iPos\<rparr>)
     in w\<lparr>m_iPos := iPos\<rparr>)"

text \<open>\<^verbatim>\<open>CloseFile ( false )\<close> on an open file.\<close>

definition CSphWriter_CloseFile :: "CSphWriter \<Rightarrow> CSphWriter" where
  "CSphWriter_CloseFile w = CSphWriter_Flush w"

definition CSphWriter_GetPos :: "CSphWriter \<Rightarrow> nat" where
  "CSphWriter_GetPos w = m_iPos w"

section \<open>The file the writer stands for\<close>

definition writer_wf :: "CSphWriter \<Rightarrow> bool" where
  "writer_wf w \<longleftrightarrow> m_bDiskOk w \<and> \<not> m_bError w \<and> 0 < m_iBufferSize w \<and>
    length (m_dPool w) \<le> m_iBufferSize w \<and> m_iPos w = m_iDiskPos w + length (m_dPool w)"

definition contents :: "CSphWriter \<Rightarrow> byte list" where
  "contents w = overwrite (m_dDisk w) (m_iDiskPos w) (m_dPool w)"

text \<open>The state \<open>w'\<close> of the writer stands for the file \<open>f\<close> with position \<open>p\<close>.\<close>

definition stands_for :: "CSphWriter \<Rightarrow> byte list \<Rightarrow> nat \<Rightarrow> bool" where
  "stands_for w f p \<longleftrightarrow> writer_wf w \<and> contents w = f \<and> m_iPos w = p"

lemma open_file: "0 < n \<Longrightarrow> stands_for (CSphWriter_OpenFile True n) [] 0"
  by (simp add: stands_for_def writer_wf_def contents_def CSphWriter_OpenFile_def)

lemma flush_stands:
  assumes "stands_for w f p"
  shows "stands_for (CSphWriter_Flush w) f p" "m_dPool (CSphWriter_Flush w) = []" "m_dDisk (CSphWriter_Flush w) = f"
    "m_iDiskPos (CSphWriter_Flush w) = p" "m_iBufferSize (CSphWriter_Flush w) = m_iBufferSize w"
  using assms by (auto simp: stands_for_def writer_wf_def contents_def CSphWriter_Flush_def Let_def)

lemma append_stands:
  assumes "stands_for w f p" "length (m_dPool w) + length bs \<le> m_iBufferSize w"
  shows "stands_for (w\<lparr>m_dPool := m_dPool w @ bs, m_iPos := m_iPos w + length bs\<rparr>) (overwrite f p bs) (p + length bs)"
  using assms overwrite_seq[of "m_dDisk w" "m_iDiskPos w" "m_dPool w" bs]
  by (auto simp: stands_for_def writer_wf_def contents_def)

lemma PutByte_stands:
  assumes "stands_for w f p"
  shows "stands_for (CSphWriter_PutByte b w) (overwrite f p [b]) (p + 1)"
proof (cases "length (m_dPool w) = m_iBufferSize w")
  case True
  note fl = flush_stands[OF assms]
  have "0 < m_iBufferSize w" using assms by (simp add: stands_for_def writer_wf_def)
  then show ?thesis using append_stands[OF fl(1), of "[b]"] fl True by (simp add: CSphWriter_PutByte_def Let_def)
next
  case False
  then have "length (m_dPool w) + 1 \<le> m_iBufferSize w" using assms by (simp add: stands_for_def writer_wf_def)
  then show ?thesis using append_stands[OF assms, of "[b]"] False by (simp add: CSphWriter_PutByte_def)
qed

lemma PutByte_fold:
  "stands_for w f p \<Longrightarrow> stands_for (fold CSphWriter_PutByte bs w) (overwrite f p bs) (p + length bs)"
proof (induction bs arbitrary: w f p)
  case (Cons b bs)
  from Cons.IH[OF PutByte_stands[OF Cons.prems, of b]] show ?case
    using overwrite_seq[of f p "[b]" bs] by simp
qed simp

lemma PutBytes_stands:
  "stands_for w f p \<Longrightarrow>
    \<exists>w'. CSphWriter_PutBytes bs w = Some w' \<and> stands_for w' (overwrite f p bs) (p + length bs)"
proof (induction "length bs" arbitrary: bs w f p rule: less_induct)
  case less
  show ?case
  proof (cases "bs = []")
    case True
    with less.prems show ?thesis by (subst CSphWriter_PutBytes.simps) simp
  next
    case False
    define n where "n = (if length bs < m_iBufferSize w then length bs else m_iBufferSize w)"
    have B: "0 < m_iBufferSize w" using less.prems by (simp add: stands_for_def writer_wf_def)
    then have n: "0 < n" "n \<le> length bs" "n \<le> m_iBufferSize w" using False by (auto simp: n_def)
    define v where "v = (if length (m_dPool w) + n > m_iBufferSize w then CSphWriter_Flush w else w)"
    note fl = flush_stands[OF less.prems]
    have v: "stands_for v f p" "length (m_dPool v) + length (take n bs) \<le> m_iBufferSize v"
      using less.prems fl n by (auto simp: v_def)
    let ?u = "v\<lparr>m_dPool := m_dPool v @ take n bs, m_iPos := m_iPos v + n\<rparr>"
    have u: "stands_for ?u (overwrite f p (take n bs)) (p + n)"
      using append_stands[OF v] n(2) by (simp add: min_absorb2)
    have eq: "CSphWriter_PutBytes bs w = CSphWriter_PutBytes (drop n bs) ?u"
      using False n(1) by (subst CSphWriter_PutBytes.simps) (simp add: Let_def n_def[symmetric] v_def[symmetric])
    have "length (drop n bs) < length bs" using n(1) False by simp
    from less.hyps[OF this u] show ?thesis
      unfolding eq using overwrite_seq[of f p "take n bs" "drop n bs"] n(2) by (simp add: min_absorb2)
  qed
qed

lemma SeekTo_flushed:
  assumes "stands_for w f p" "m_dPool w = []"
  shows "stands_for (CSphWriter_SeekTo q w) f q" "m_dPool (CSphWriter_SeekTo q w) = []"
  using assms by (auto simp: stands_for_def writer_wf_def contents_def CSphWriter_SeekTo_def CSphWriter_Flush_def Let_def)

lemma SeekTo_outside:
  assumes "stands_for w f p" "q < m_iDiskPos w \<or> p < q"
  shows "stands_for (CSphWriter_SeekTo q w) f q" "m_dPool (CSphWriter_SeekTo q w) = []"
  using assms by (auto simp: stands_for_def writer_wf_def contents_def CSphWriter_SeekTo_def CSphWriter_Flush_def Let_def)

text \<open>A position at or after the end of what was just written is not inside the buffer.\<close>

lemma SeekTo_forward:
  assumes "stands_for w f p" "p \<le> q"
  shows "stands_for (CSphWriter_SeekTo q w) f q"
proof (cases "p = q")
  case True
  with assms show ?thesis
    by (auto simp: stands_for_def writer_wf_def contents_def CSphWriter_SeekTo_def Let_def)
next
  case False
  with assms show ?thesis by (intro SeekTo_outside(1)) auto
qed

lemma close_stands: "stands_for w f p \<Longrightarrow> m_dDisk (CSphWriter_CloseFile w) = f \<and> \<not> m_bError (CSphWriter_CloseFile w)"
  using flush_stands[of w f p] by (simp add: CSphWriter_CloseFile_def stands_for_def writer_wf_def)

fun put_all :: "byte list list \<Rightarrow> CSphWriter \<Rightarrow> CSphWriter option" where
  "put_all [] w = Some w"
| "put_all (b # bs) w = (case CSphWriter_PutBytes b w of None \<Rightarrow> None | Some w \<Rightarrow> put_all bs w)"

lemma put_all_stands:
  "stands_for w f p \<Longrightarrow> \<exists>w'. put_all bs w = Some w' \<and> stands_for w' (overwrite f p (concat bs)) (p + length (concat bs))"
proof (induction bs arbitrary: w f p)
  case (Cons b bs)
  obtain v where v: "CSphWriter_PutBytes b w = Some v" "stands_for v (overwrite f p b) (p + length b)"
    using PutBytes_stands[OF Cons.prems] by blast
  from Cons.IH[OF v(2)] v(1) show ?case
    by (auto simp: overwrite_seq add.assoc)
qed simp

section \<open>Properties\<close>

text \<open>C21: whatever the buffer size, a file that is written in pieces and closed holds exactly the pieces in
  order, and patching an earlier part of it (flush, seek back, write, seek to the end, as
  \<^verbatim>\<open>FinalizeNumeric\<close> does) changes only the bytes that are patched.\<close>

theorem writer_contents:
  assumes "0 < n" "q + length b \<le> length (concat bs)"
  shows "\<exists>w w'. put_all bs (CSphWriter_OpenFile True n) = Some w \<and>
    m_dDisk (CSphWriter_CloseFile w) = concat bs \<and>
    CSphWriter_PutBytes b (CSphWriter_SeekTo q (CSphWriter_Flush w)) = Some w' \<and>
    m_dDisk (CSphWriter_CloseFile (CSphWriter_SeekTo (CSphWriter_GetPos w) w')) =
      take q (concat bs) @ b @ drop (q + length b) (concat bs)"
proof -
  obtain w where w: "put_all bs (CSphWriter_OpenFile True n) = Some w" "stands_for w (concat bs) (length (concat bs))"
    using put_all_stands[OF open_file[OF assms(1)], of bs] by auto
  note fl = flush_stands[OF w(2)]
  obtain w' where w': "CSphWriter_PutBytes b (CSphWriter_SeekTo q (CSphWriter_Flush w)) = Some w'"
      "stands_for w' (overwrite (concat bs) q b) (q + length b)"
    using PutBytes_stands[OF SeekTo_flushed(1)[OF fl(1,2), of q], of b] by blast
  have "stands_for (CSphWriter_SeekTo (CSphWriter_GetPos w) w') (overwrite (concat bs) q b) (CSphWriter_GetPos w)"
    using w'(2) assms(2) w(2) by (intro SeekTo_forward) (auto simp: CSphWriter_GetPos_def stands_for_def)
  with w w'(1) close_stands[OF w(2)] show ?thesis
    using assms(2) by (auto simp: overwrite_def dest!: close_stands)
qed

theorem writer_contents_witness:
  "\<exists>w w'. put_all [[1, 2], [3, 4, 5]] (CSphWriter_OpenFile True 2) = Some w \<and>
    m_dDisk (CSphWriter_CloseFile w) = [1, 2, 3, 4, 5] \<and>
    CSphWriter_PutBytes [9] (CSphWriter_SeekTo 1 (CSphWriter_Flush w)) = Some w' \<and>
    m_dDisk (CSphWriter_CloseFile (CSphWriter_SeekTo (CSphWriter_GetPos w) w')) = [1, 9, 3, 4, 5]"
  using writer_contents[of 2 1 "[9]" "[[1, 2], [3, 4, 5]]"] by simp

text \<open>C22: without the flush, seeking back to a position inside the buffer drops everything buffered after
  it: the file then ends at the target.\<close>

theorem writer_seek_back_drops:
  assumes "stands_for w f p" "m_iDiskPos w = length (m_dDisk w)" "m_iDiskPos w \<le> q" "q \<le> p"
  shows "m_dDisk (CSphWriter_CloseFile (CSphWriter_SeekTo q w)) = take q f"
  using assms
  by (auto simp: stands_for_def writer_wf_def contents_def CSphWriter_SeekTo_def CSphWriter_CloseFile_def
      CSphWriter_Flush_def Let_def)

theorem writer_seek_back_drops_witness:
  "m_dDisk (CSphWriter_CloseFile (CSphWriter_SeekTo 1 (CSphWriter_PutByte 8 (CSphWriter_PutByte 7 (CSphWriter_OpenFile True 16))))) = [7]"
proof -
  let ?w = "CSphWriter_PutByte 8 (CSphWriter_PutByte 7 (CSphWriter_OpenFile True 16))"
  have w: "stands_for ?w [7, 8] 2"
    by (simp add: stands_for_def writer_wf_def contents_def CSphWriter_PutByte_def CSphWriter_OpenFile_def
        overwrite_def Let_def)
  have d: "m_iDiskPos ?w = length (m_dDisk ?w)" "m_iDiskPos ?w \<le> 1"
    by (simp_all add: CSphWriter_PutByte_def CSphWriter_OpenFile_def Let_def)
  from writer_seek_back_drops[OF w d] show ?thesis by simp
qed

end
