(* ===== verification/Docid_Lookup.thy ===== *)
theory Docid_Lookup
  imports File_Writer Binary_Search "HOL-Library.Monad_Syntax"
begin

text \<open>
  The docid lookup (the \<^verbatim>\<open>.spt\<close> file) of \<^verbatim>\<open>src/src/docidlookup.h\<close> and \<^verbatim>\<open>docidlookup.cpp\<close>: the writer
  \<^verbatim>\<open>DocidLookupWriter_c\<close> over the buffered file writer, the reader \<^verbatim>\<open>LookupReader_c\<close> and the iterator
  \<^verbatim>\<open>LookupReaderIterator_c\<close> over the mapped file. Reads past the end of the file, division by zero
  and failed assertions are None. Shown: the writer produces the file image that the layout
  prescribes, \<^verbatim>\<open>Find\<close> is the lookup in the written pairs, the iterator yields them in order, and
  \<^verbatim>\<open>HintDocID\<close> skips only pairs with smaller docids, provided that no docid continues across a checkpoint. The
  counters of docids and checkpoints (\<^verbatim>\<open>m_nCheckpoints\<close>, \<^verbatim>\<open>GetNumDocsInCheckpoint\<close>, \<^verbatim>\<open>m_iProcessedDocs\<close>) are natural numbers
  where the code has \<^verbatim>\<open>int\<close>; they agree below \<open>2^31\<close>.
\<close>

section \<open>Writer\<close>

record DocidRowidPair_t =
  m_tDocID :: DocID_t
  m_tRowID :: RowID_t

record DocidLookupCheckpoint_t =
  m_tBaseDocID :: DocID_t
  m_tOffset :: SphOffset_t

definition DOCS_PER_LOOKUP_CHECKPOINT :: nat where
  "DOCS_PER_LOOKUP_CHECKPOINT = 64"

record DocidLookupWriter_c =
  m_tWriter :: CSphWriter
  w_nDocs :: dword
  m_iProcessed :: nat
  m_iCheckpoint :: nat
  m_tMaxDocIDPos :: nat
  m_tUuidLookupOffsetPos :: nat
  m_tCheckpointStart :: nat
  m_tLastDocID :: DocID_t
  m_dCheckpoints :: "DocidLookupCheckpoint_t list"

definition DocidLookupWriter_new :: "CSphWriter \<Rightarrow> dword \<Rightarrow> DocidLookupWriter_c" where
  "DocidLookupWriter_new tWriter nDocs =
    \<lparr>m_tWriter = tWriter, w_nDocs = nDocs, m_iProcessed = 0, m_iCheckpoint = 0, m_tMaxDocIDPos = 0,
     m_tUuidLookupOffsetPos = 0, m_tCheckpointStart = 0, m_tLastDocID = 0, m_dCheckpoints = []\<rparr>"

fun put_offsets :: "SphOffset_t list \<Rightarrow> CSphWriter \<Rightarrow> CSphWriter option" where
  "put_offsets [] w = Some w"
| "put_offsets (x # xs) w = do { w \<leftarrow> CSphWriter_PutOffset x w; put_offsets xs w }"

definition DocidLookupWriter_Start :: "DocidLookupWriter_c \<Rightarrow> DocidLookupWriter_c option" where
  "DocidLookupWriter_Start lw = do {
     w \<leftarrow> CSphWriter_PutDword (w_nDocs lw) (m_tWriter lw);
     w \<leftarrow> CSphWriter_PutDword (of_nat DOCS_PER_LOOKUP_CHECKPOINT) w;
     let maxPos = CSphWriter_GetPos w;
     w \<leftarrow> CSphWriter_PutOffset 0 w;
     let uuidPos = CSphWriter_GetPos w;
     w \<leftarrow> CSphWriter_PutOffset 0 w;
     let nCheckpoints = unat ((w_nDocs lw + of_nat DOCS_PER_LOOKUP_CHECKPOINT - 1) div of_nat DOCS_PER_LOOKUP_CHECKPOINT);
     let start = CSphWriter_GetPos w;
     w \<leftarrow> put_offsets (concat (replicate nCheckpoints [0, 0])) w;
     Some (lw\<lparr>m_tWriter := w, m_tMaxDocIDPos := maxPos, m_tUuidLookupOffsetPos := uuidPos, m_tCheckpointStart := start,
       m_dCheckpoints := replicate nCheckpoints \<lparr>m_tBaseDocID = 0, m_tOffset = 0\<rparr>\<rparr>)
   }"

definition DocidLookupWriter_AddPair :: "DocidRowidPair_t \<Rightarrow> DocidLookupWriter_c \<Rightarrow> DocidLookupWriter_c option" where
  "DocidLookupWriter_AddPair tPair lw =
    (if m_tDocID tPair < m_tLastDocID lw then None
     else do {
       lw \<leftarrow> (if m_iProcessed lw mod DOCS_PER_LOOKUP_CHECKPOINT = 0 then
                if m_iCheckpoint lw < length (m_dCheckpoints lw) then
                  Some (lw\<lparr>m_dCheckpoints := (m_dCheckpoints lw)[m_iCheckpoint lw :=
                            \<lparr>m_tBaseDocID = m_tDocID tPair, m_tOffset = of_nat (CSphWriter_GetPos (m_tWriter lw))\<rparr>],
                          m_iCheckpoint := m_iCheckpoint lw + 1\<rparr>)
                else None
              else Some (lw\<lparr>m_tWriter := CSphWriter_ZipOffset (m_tDocID tPair - m_tLastDocID lw) (m_tWriter lw)\<rparr>));
       w \<leftarrow> CSphWriter_PutDword (m_tRowID tPair) (m_tWriter lw);
       Some (lw\<lparr>m_tWriter := w, m_tLastDocID := m_tDocID tPair, m_iProcessed := m_iProcessed lw + 1\<rparr>)
     })"

definition DocidLookupWriter_SetUuidLookupOffset :: "SphOffset_t \<Rightarrow> DocidLookupWriter_c \<Rightarrow> DocidLookupWriter_c option" where
  "DocidLookupWriter_SetUuidLookupOffset tOffset lw = do {
     let tEnd = CSphWriter_GetPos (m_tWriter lw);
     w \<leftarrow> CSphWriter_PutOffset tOffset (CSphWriter_SeekTo (m_tUuidLookupOffsetPos lw) (m_tWriter lw));
     Some (lw\<lparr>m_tWriter := CSphWriter_SeekTo tEnd w\<rparr>)
   }"

text \<open>The flag is false when the writer saw an error.\<close>

definition DocidLookupWriter_FinalizeNumeric :: "DocidLookupWriter_c \<Rightarrow> (bool \<times> DocidLookupWriter_c) option" where
  "DocidLookupWriter_FinalizeNumeric lw =
    (if m_iProcessed lw \<noteq> unat (w_nDocs lw) then None
     else do {
       let w = CSphWriter_Flush (m_tWriter lw);
       let tEnd = CSphWriter_GetPos w;
       w \<leftarrow> CSphWriter_PutOffset (m_tLastDocID lw) (CSphWriter_SeekTo (m_tMaxDocIDPos lw) w);
       w \<leftarrow> put_offsets (concat (map (\<lambda>i. [m_tBaseDocID i, m_tOffset i]) (m_dCheckpoints lw)))
              (CSphWriter_SeekTo (m_tCheckpointStart lw) w);
       let w = CSphWriter_SeekTo tEnd w;
       Some (\<not> m_bError w, lw\<lparr>m_tWriter := w\<rparr>)
     })"

definition DocidLookupWriter_Finalize :: "DocidLookupWriter_c \<Rightarrow> (bool \<times> DocidLookupWriter_c) option" where
  "DocidLookupWriter_Finalize lw = do {
     (ok, lw) \<leftarrow> DocidLookupWriter_FinalizeNumeric lw;
     if \<not> ok then Some (False, lw)
     else let w = CSphWriter_CloseFile (m_tWriter lw) in Some (\<not> m_bError w, lw\<lparr>m_tWriter := w\<rparr>)
   }"

fun add_pairs :: "DocidRowidPair_t list \<Rightarrow> DocidLookupWriter_c \<Rightarrow> DocidLookupWriter_c option" where
  "add_pairs [] lw = Some lw"
| "add_pairs (p # ps) lw = do { lw \<leftarrow> DocidLookupWriter_AddPair p lw; add_pairs ps lw }"

text \<open>\<^verbatim>\<open>WriteDocidLookup\<close> without UUIDs: the flag it returns and the file it leaves.\<close>

definition WriteDocidLookup :: "nat \<Rightarrow> DocidRowidPair_t list \<Rightarrow> (bool \<times> byte list) option" where
  "WriteDocidLookup iBufferSize dLookup = do {
     lw \<leftarrow> DocidLookupWriter_Start (DocidLookupWriter_new (CSphWriter_OpenFile True iBufferSize) (of_nat (length dLookup)));
     lw \<leftarrow> add_pairs dLookup lw;
     (ok, lw) \<leftarrow> DocidLookupWriter_Finalize lw;
     Some (ok, m_dDisk (m_tWriter lw))
   }"

section \<open>Reader\<close>

text \<open>The checkpoint table is the offset of its first entry in the file.\<close>

record LookupReader_c =
  m_nDocs :: dword
  m_nDocsPerCheckpoint :: dword
  m_nCheckpoints :: nat
  m_tMaxDocID :: DocID_t
  m_pData :: "byte list"
  m_pCheckpoints :: "nat option"

definition LookupReader_new :: LookupReader_c where
  "LookupReader_new = \<lparr>m_nDocs = 0, m_nDocsPerCheckpoint = 0, m_nCheckpoints = 0, m_tMaxDocID = 0, m_pData = [],
    m_pCheckpoints = None\<rparr>"

definition LookupReader_SetData ::
  "byte list option \<Rightarrow> nat \<Rightarrow> LookupReader_c \<Rightarrow> (LookupReader_c \<times> SphOffset_t \<times> dword) option" where
  "LookupReader_SetData pMapped uIndexVersion r =
    (case pMapped of None \<Rightarrow> Some (r\<lparr>m_pData := []\<rparr>, 0, 0)
    | Some pData \<Rightarrow> do {
     nDocs \<leftarrow> read32 pData 0;
     nPer \<leftarrow> read32 pData 4;
     maxId \<leftarrow> read64 pData 8;
     (uuid, p) \<leftarrow> (if 71 \<le> uIndexVersion then do { u \<leftarrow> read64 pData 16; Some (u, 24) } else Some (0, 16));
     if nPer = 0 then None
     else Some (\<lparr>m_nDocs = nDocs, m_nDocsPerCheckpoint = nPer, m_nCheckpoints = unat ((nDocs + nPer - 1) div nPer),
                 m_tMaxDocID = maxId, m_pData = pData, m_pCheckpoints = Some p\<rparr>, uuid, nDocs)
   })"

definition chk_base :: "LookupReader_c \<Rightarrow> nat \<Rightarrow> DocID_t option" where
  "chk_base r k = do { p \<leftarrow> m_pCheckpoints r; read64 (m_pData r) (p + 16 * k) }"

definition chk_offset :: "LookupReader_c \<Rightarrow> nat \<Rightarrow> SphOffset_t option" where
  "chk_offset r k = do { p \<leftarrow> m_pCheckpoints r; read64 (m_pData r) (p + 16 * k + 8) }"

text \<open>None when the table does not lie inside the file; Some None is the null pointer.\<close>

definition FindCheckpoint :: "LookupReader_c \<Rightarrow> DocID_t \<Rightarrow> nat \<Rightarrow> nat option option" where
  "FindCheckpoint r tDocID pStart = do {
     base \<leftarrow> chk_base r pStart;
     if tDocID < base \<or> tDocID > m_tMaxDocID r then Some None
     else do {
       _ \<leftarrow> chk_base r (m_nCheckpoints r - 1);
       case BinarySearchFirst (\<lambda>i. the (chk_base r (nat i))) (int pStart) (int (m_nCheckpoints r) - 1) tDocID of
         None \<Rightarrow> None
       | Some i \<Rightarrow> do {
           b \<leftarrow> chk_base r (nat i);
           if b > tDocID then Some (if i = 0 then None else Some (nat i - 1)) else Some (Some (nat i))
         }
     }
   }"

definition IsLastCheckpoint :: "LookupReader_c \<Rightarrow> nat \<Rightarrow> bool" where
  "IsLastCheckpoint r k \<longleftrightarrow> int k = int (m_nCheckpoints r) - 1"

definition GetNumDocsInCheckpoint :: "LookupReader_c \<Rightarrow> nat \<Rightarrow> nat" where
  "GetNumDocsInCheckpoint r k =
    (if \<not> IsLastCheckpoint r k then unat (m_nDocsPerCheckpoint r)
     else let iLeftover = unat (m_nDocs r mod m_nDocsPerCheckpoint r)
          in if iLeftover \<noteq> 0 then iLeftover else unat (m_nDocsPerCheckpoint r))"

definition get_rowid :: "byte list \<Rightarrow> (RowID_t \<times> byte list) option" where
  "get_rowid pCur = (if 4 \<le> length pCur then Some (le_word (take 4 pCur), drop 4 pCur) else None)"

fun find_loop :: "nat \<Rightarrow> byte list \<Rightarrow> DocID_t \<Rightarrow> DocID_t \<Rightarrow> RowID_t option" where
  "find_loop 0 pCur tCurDocID tDocID = Some INVALID_ROWID"
| "find_loop (Suc n) pCur tCurDocID tDocID = do {
     (tDelta, pCur) \<leftarrow> UnzipOffsetBE pCur;
     (tRowID, pCur) \<leftarrow> get_rowid pCur;
     let tCurDocID = tCurDocID + tDelta;
     if tCurDocID = tDocID then Some tRowID
     else if tCurDocID > tDocID then Some INVALID_ROWID
     else find_loop n pCur tCurDocID tDocID
   }"

definition LookupReader_Find :: "LookupReader_c \<Rightarrow> DocID_t \<Rightarrow> RowID_t option" where
  "LookupReader_Find r tDocID =
    (if m_pCheckpoints r = None then Some INVALID_ROWID
     else do {
     base \<leftarrow> chk_base r 0;
     if tDocID < base \<or> tDocID > m_tMaxDocID r then Some INVALID_ROWID
     else do {
       pFound \<leftarrow> FindCheckpoint r tDocID 0;
       case pFound of None \<Rightarrow> Some INVALID_ROWID
       | Some k \<Rightarrow> do {
           off \<leftarrow> chk_offset r k;
           tCurDocID \<leftarrow> chk_base r k;
           (tRowID, pCur) \<leftarrow> get_rowid (drop (unat off) (m_pData r));
           if tCurDocID = tDocID then Some tRowID
           else find_loop (GetNumDocsInCheckpoint r k - 1) pCur tCurDocID tDocID
         }
     }
   })"

section \<open>Iterator\<close>

record LookupReaderIterator_c =
  m_tReader :: LookupReader_c
  m_pCurCheckpoint :: "nat option"
  m_pCur :: "byte list"
  m_tCurDocID :: DocID_t
  m_iProcessedDocs :: nat
  m_iCheckpointDocs :: nat

definition SetCheckpoint :: "nat option \<Rightarrow> LookupReaderIterator_c \<Rightarrow> LookupReaderIterator_c option" where
  "SetCheckpoint pCheckpoint it =
    (case pCheckpoint of None \<Rightarrow> Some (it\<lparr>m_pCurCheckpoint := None\<rparr>)
     | Some k \<Rightarrow> do {
         off \<leftarrow> chk_offset (m_tReader it) k;
         base \<leftarrow> chk_base (m_tReader it) k;
         Some (it\<lparr>m_pCurCheckpoint := Some k, m_iProcessedDocs := 0,
                  m_iCheckpointDocs := GetNumDocsInCheckpoint (m_tReader it) k,
                  m_pCur := drop (unat off) (m_pData (m_tReader it)), m_tCurDocID := base\<rparr>)
       })"

definition LookupReaderIterator_new :: "byte list option \<Rightarrow> nat \<Rightarrow> LookupReaderIterator_c option" where
  "LookupReaderIterator_new pData uIndexVersion = do {
     (r, _) \<leftarrow> LookupReader_SetData pData uIndexVersion LookupReader_new;
     SetCheckpoint (map_option (\<lambda>_. 0) (m_pCheckpoints r)) \<lparr>m_tReader = r, m_pCurCheckpoint = None, m_pCur = [], m_tCurDocID = 0,
       m_iProcessedDocs = 0, m_iCheckpointDocs = 0\<rparr>
   }"

definition read_entry :: "LookupReaderIterator_c \<Rightarrow> ((DocID_t \<times> RowID_t) option \<times> LookupReaderIterator_c) option" where
  "read_entry it =
    (if m_iProcessedDocs it = 0 then do {
       (tRowID, pCur) \<leftarrow> get_rowid (m_pCur it);
       Some (Some (m_tCurDocID it, tRowID), it\<lparr>m_pCur := pCur, m_iProcessedDocs := 1\<rparr>)
     } else do {
       (tDelta, pCur) \<leftarrow> UnzipOffsetBE (m_pCur it);
       (tRowID, pCur) \<leftarrow> get_rowid pCur;
       Some (Some (m_tCurDocID it + tDelta, tRowID),
         it\<lparr>m_pCur := pCur, m_tCurDocID := m_tCurDocID it + tDelta, m_iProcessedDocs := m_iProcessedDocs it + 1\<rparr>)
     })"

definition LookupReaderIterator_Read ::
  "LookupReaderIterator_c \<Rightarrow> ((DocID_t \<times> RowID_t) option \<times> LookupReaderIterator_c) option" where
  "LookupReaderIterator_Read it =
    (case m_pCurCheckpoint it of None \<Rightarrow> Some (None, it)
     | Some k \<Rightarrow>
       if m_iProcessedDocs it = m_iCheckpointDocs it then
         if IsLastCheckpoint (m_tReader it) k then Some (None, it\<lparr>m_pCurCheckpoint := None\<rparr>)
         else do { it \<leftarrow> SetCheckpoint (Some (k + 1)) it; read_entry it }
       else read_entry it)"

definition LookupReaderIterator_ReadDocID ::
  "LookupReaderIterator_c \<Rightarrow> (DocID_t option \<times> LookupReaderIterator_c) option" where
  "LookupReaderIterator_ReadDocID it = do {
     (x, it) \<leftarrow> LookupReaderIterator_Read it;
     Some (map_option fst x, it)
   }"

definition LookupReaderIterator_HintDocID :: "DocID_t \<Rightarrow> LookupReaderIterator_c \<Rightarrow> LookupReaderIterator_c option" where
  "LookupReaderIterator_HintDocID tDocID it =
    (case m_pCurCheckpoint it of None \<Rightarrow> Some it
     | Some k \<Rightarrow>
       if IsLastCheckpoint (m_tReader it) k then Some it
       else do {
         next \<leftarrow> chk_base (m_tReader it) (k + 1);
         if tDocID < next then Some it
         else do {
           c \<leftarrow> FindCheckpoint (m_tReader it) tDocID (k + 1);
           SetCheckpoint c it
         }
       })"

section \<open>What a reader serves\<close>

abbreviation doc :: "DocidRowidPair_t list \<Rightarrow> nat \<Rightarrow> DocID_t" where
  "doc ps i \<equiv> m_tDocID (ps ! i)"

abbreviation row :: "DocidRowidPair_t list \<Rightarrow> nat \<Rightarrow> RowID_t" where
  "row ps i \<equiv> m_tRowID (ps ! i)"

text \<open>The bytes of entry \<open>i\<close>: the docid is stored as a difference, and not at all for the first entry of
  a block of \<open>D\<close>.\<close>

definition entry_bytes :: "nat \<Rightarrow> DocidRowidPair_t list \<Rightarrow> nat \<Rightarrow> byte list" where
  "entry_bytes D ps i =
    (if i mod D = 0 then [] else ZipValueBE False (doc ps i - doc ps (i - 1))) @ le_bytes 4 (row ps i)"

definition entries :: "nat \<Rightarrow> DocidRowidPair_t list \<Rightarrow> nat \<Rightarrow> nat \<Rightarrow> byte list" where
  "entries D ps i j = concat (map (entry_bytes D ps) [i..<j])"

definition blocks :: "nat \<Rightarrow> DocidRowidPair_t list \<Rightarrow> nat" where
  "blocks D ps = (length ps + D - 1) div D"

definition serves :: "LookupReader_c \<Rightarrow> nat \<Rightarrow> DocidRowidPair_t list \<Rightarrow> bool" where
  "serves r D ps \<longleftrightarrow> 0 < D \<and> ps \<noteq> [] \<and> unat (m_nDocs r) = length ps \<and> unat (m_nDocsPerCheckpoint r) = D \<and>
    m_nCheckpoints r = blocks D ps \<and> m_tMaxDocID r = doc ps (length ps - 1) \<and> m_pCheckpoints r \<noteq> None \<and>
    (\<forall>k < blocks D ps. chk_base r k = Some (doc ps (D * k)) \<and>
      (\<exists>off tail. chk_offset r k = Some off \<and> drop (unat off) (m_pData r) = entries D ps (D * k) (length ps) @ tail))"

definition docid_sorted :: "DocidRowidPair_t list \<Rightarrow> bool" where
  "docid_sorted ps \<longleftrightarrow> sorted_wrt (\<lambda>a b. m_tDocID a < m_tDocID b) ps"

lemma docid_sortedD: "docid_sorted ps \<Longrightarrow> i < j \<Longrightarrow> j < length ps \<Longrightarrow> doc ps i < doc ps j"
  by (simp add: docid_sorted_def sorted_wrt_iff_nth_less)

text \<open>Ascending docids that may repeat, and blocks of \<open>D\<close> of them such that no docid continues from one block to the
  next. Docids that never repeat are of this kind for every \<open>D\<close>.\<close>

definition docid_asc :: "DocidRowidPair_t list \<Rightarrow> bool" where
  "docid_asc ps \<longleftrightarrow> sorted_wrt (\<lambda>a b. m_tDocID a \<le> m_tDocID b) ps"

definition docid_blocks :: "nat \<Rightarrow> DocidRowidPair_t list \<Rightarrow> bool" where
  "docid_blocks D ps \<longleftrightarrow> docid_asc ps \<and> (\<forall>i < length ps. 0 < i \<longrightarrow> i mod D = 0 \<longrightarrow> doc ps (i - 1) < doc ps i)"

lemma docid_asc_le: "docid_asc ps \<Longrightarrow> i \<le> j \<Longrightarrow> j < length ps \<Longrightarrow> doc ps i \<le> doc ps j"
  by (cases "i = j") (auto simp: docid_asc_def sorted_wrt_iff_nth_less)

lemma docid_le_last: "docid_asc ps \<Longrightarrow> j < length ps \<Longrightarrow> doc ps j \<le> doc ps (length ps - 1)"
  by (rule docid_asc_le) auto

lemma sorted_asc: "docid_sorted ps \<Longrightarrow> docid_asc ps"
  unfolding docid_sorted_def docid_asc_def by (erule sorted_wrt_mono_rel[rotated]) (simp add: less_imp_le)

lemma sorted_blocks: "docid_sorted ps \<Longrightarrow> docid_blocks D ps"
  by (simp add: docid_blocks_def sorted_asc docid_sortedD)

lemma docid_blocks_asc: "docid_blocks D ps \<Longrightarrow> docid_asc ps"
  by (simp add: docid_blocks_def)

lemma docid_blocks_less:
  assumes "docid_blocks D ps" "0 < D" "l < D * m" "D * m < length ps"
  shows "doc ps l < doc ps (D * m)"
proof -
  have "doc ps l \<le> doc ps (D * m - 1)" using assms by (intro docid_asc_le[OF docid_blocks_asc[OF assms(1)]]) auto
  also have "\<dots> < doc ps (D * m)" using assms(1)[unfolded docid_blocks_def, THEN conjunct2, rule_format, OF assms(4)] assms(2,3) by (cases "m = 0") auto
  finally show ?thesis .
qed

lemma entries_step: "i < j \<Longrightarrow> entries D ps i j = entry_bytes D ps i @ entries D ps (Suc i) j"
  by (simp add: entries_def upt_conv_Cons)

lemma entries_split: "i \<le> j \<Longrightarrow> j \<le> k \<Longrightarrow> entries D ps i k = entries D ps i j @ entries D ps j k"
  by (metis concat_append entries_def le_Suc_ex map_append upt_add_eq_append)

lemma get_rowid_bytes [simp]: "get_rowid (le_bytes 4 w @ rest) = Some (w, rest)"
  by (simp add: get_rowid_def le_word_bytes)

lemma unzip_delta [simp]: "UnzipOffsetBE (ZipValueBE False v @ rest) = Some (v, rest)"
  by (simp add: UnzipOffsetBE_def UnzipValueBE8_def unzip_be_zip_value)

lemma block_bounds:
  assumes "0 < D" "k < blocks D ps"
  shows "D * k < length ps"
proof -
  have "k * D < length ps + D - 1 - (D - 1) \<or> k * D + D \<le> length ps + D - 1"
    using assms by (simp add: blocks_def less_eq_div_iff_mult_less_eq Suc_le_eq[symmetric])
  then show ?thesis using assms(1) by (auto simp: mult.commute)
qed

lemma block_of:
  assumes "0 < D" "i < length ps"
  shows "i div D < blocks D ps"
proof -
  have "i div D * D + D \<le> length ps + D - 1"
    using assms div_mult_mod_eq[of i D] mod_less_divisor[of D i] by linarith
  then show ?thesis using assms(1)
    by (simp add: blocks_def less_eq_div_iff_mult_less_eq Suc_le_eq[symmetric])
qed

text \<open>Number of entries in block \<open>k\<close>.\<close>

lemma num_docs:
  assumes "serves r D ps" "k < blocks D ps"
  shows "GetNumDocsInCheckpoint r k = min D (length ps - D * k)"
proof -
  have D: "0 < D" "unat (m_nDocsPerCheckpoint r) = D" "unat (m_nDocs r) = length ps" "m_nCheckpoints r = blocks D ps"
    "ps \<noteq> []" using assms(1) by (auto simp: serves_def)
  have lt: "D * k < length ps" by (rule block_bounds[OF D(1) assms(2)])
  show ?thesis
  proof (cases "k + 1 < blocks D ps")
    case True
    then have "D * (k + 1) < length ps" by (rule block_bounds[OF D(1)])
    then show ?thesis using True D by (simp add: GetNumDocsInCheckpoint_def IsLastCheckpoint_def)
  next
    case False
    then have last: "k + 1 = blocks D ps" using assms(2) by simp
    then have "length ps \<le> D * k + D"
      using block_of[OF D(1), of "D * k + D" ps] D(1) by (cases "length ps \<le> D * k + D") auto
    then obtain m where m: "length ps = D * k + m" "0 < m" "m \<le> D" using lt by (metis less_imp_add_positive nat_add_left_cancel_le)
    have "unat (m_nDocs r mod m_nDocsPerCheckpoint r) = m mod D"
      using D m by (simp add: unat_mod)
    then show ?thesis using last D m
      by (cases "m = D") (auto simp: GetNumDocsInCheckpoint_def IsLastCheckpoint_def Let_def)
  qed
qed

lemma upt_append_upt: "i \<le> j \<Longrightarrow> j \<le> k \<Longrightarrow> [i..<j] @ [j..<k] = [i..<k]"
  by (metis le_Suc_ex upt_add_eq_append)

section \<open>Searching\<close>

lemma serves_base: "serves r D ps \<Longrightarrow> k < blocks D ps \<Longrightarrow> chk_base r k = Some (doc ps (D * k))"
  by (simp add: serves_def)

lemma blocks_pos: "serves r D ps \<Longrightarrow> 0 < blocks D ps"
  using block_of[of D 0 ps] by (auto simp: serves_def)

lemma FindCheckpoint_spec:
  assumes s: "serves r D ps" and sorted: "docid_blocks D ps" and k: "k < blocks D ps"
    and d: "doc ps (D * k) \<le> d"
  shows "\<exists>c. FindCheckpoint r d k = Some c \<and>
    (case c of None \<Rightarrow> (\<forall>i < length ps. doc ps i < d)
     | Some m \<Rightarrow> k \<le> m \<and> m < blocks D ps \<and> doc ps (D * m) \<le> d \<and>
        (\<forall>l. m < l \<longrightarrow> l < blocks D ps \<longrightarrow> d < doc ps (D * l)))"
proof -
  have D: "0 < D" "m_nCheckpoints r = blocks D ps" "m_tMaxDocID r = doc ps (length ps - 1)"
    using s by (auto simp: serves_def)
  let ?n = "blocks D ps" and ?f = "\<lambda>i. the (chk_base r (nat i))"
  have base: "\<And>l. l < ?n \<Longrightarrow> chk_base r l = Some (doc ps (D * l))" using s by (rule serves_base)
  have mono: "doc ps (D * l) < doc ps (D * m)" if "l < m" "m < ?n" for l m
    using sorted that D(1) block_bounds[OF D(1) that(2)] by (intro docid_blocks_less) auto
  show ?thesis
  proof (cases "d > doc ps (length ps - 1)")
    case True
    have "doc ps i < d" if "i < length ps" for i
      using docid_le_last[OF docid_blocks_asc[OF sorted] that] True by (rule le_less_trans)
    with True show ?thesis using base[OF k] D by (auto simp: FindCheckpoint_def)
  next
    case False
    have "doc ps (D * l) \<le> doc ps (D * m)" if "l \<le> m" "m < ?n" for l m
      using mono[of l m] that by (cases "l = m") auto
    then have ks: "key_sorted ?f (int k) (int ?n - 1)"
      by (auto simp: key_sorted_def base nat_less_iff)
    have "\<not> int ?n - 1 < int k" using k by simp
    then obtain i where i: "BinarySearchFirst ?f (int k) (int ?n - 1) d = Some i"
      by (simp add: BinarySearchFirst_def)
    note b = BinarySearchFirst_spec[OF i ks]
    define m where "m = nat i"
    have m: "i = int m" "k \<le> m" "m < ?n" using b(1,2) k by (auto simp: m_def)
    have low: "doc ps (D * l) < d" if "k \<le> l" "l < m" for l
      using b(3)[of "int l"] that m base[of l] by simp
    have high: "m + 1 < ?n \<Longrightarrow> d \<le> doc ps (D * m)" using b(4) m base[of m] by simp
    have eq: "FindCheckpoint r d k =
      (if d < doc ps (D * m) then Some (if m = 0 then None else Some (m - 1)) else Some (Some m))"
      using False leD[OF d] base[OF k] base[of m] base[of "?n - 1"] i m k D by (simp add: FindCheckpoint_def)
    show ?thesis
    proof (cases "d < doc ps (D * m)")
      case True
      then have "k < m" using d m(2) by (cases "k = m") auto
      then have "d < doc ps (D * l)" if "m - 1 < l" "l < ?n" for l
        using True mono[of m l] that by (cases "l = m") (auto intro: less_trans)
      moreover have "doc ps (D * (m - 1)) \<le> d" by (rule less_imp_le[OF low]) (use \<open>k < m\<close> in auto)
      ultimately show ?thesis using True \<open>k < m\<close> m(3) eq by (intro exI[of _ "Some (m - 1)"]) auto
    next
      case ge: False
      have "d < doc ps (D * l)" if "m < l" "l < ?n" for l
        using high mono[OF that] that by (auto intro: le_less_trans)
      then show ?thesis using ge m eq by (intro exI[of _ "Some m"]) auto
    qed
  qed
qed

text \<open>Reading one entry of a block that is not the first.\<close>

lemma read_delta:
  assumes "i mod D \<noteq> 0" "i < j"
  shows "UnzipOffsetBE (entries D ps i j @ tail) =
    Some (doc ps i - doc ps (i - 1), le_bytes 4 (row ps i) @ entries D ps (Suc i) j @ tail)"
  using assms by (simp add: entries_step entry_bytes_def)

lemma read_first:
  assumes "i mod D = 0" "i < j"
  shows "get_rowid (entries D ps i j @ tail) = Some (row ps i, entries D ps (Suc i) j @ tail)"
  using assms by (simp add: entries_step entry_bytes_def)

text \<open>The row of docid \<open>d\<close> among the entries \<open>is\<close>, or \<^verbatim>\<open>INVALID_ROWID\<close>.\<close>

definition row_among :: "DocidRowidPair_t list \<Rightarrow> nat list \<Rightarrow> DocID_t \<Rightarrow> RowID_t" where
  "row_among ps is d = (case find (\<lambda>j. doc ps j = d) is of Some j \<Rightarrow> row ps j | None \<Rightarrow> INVALID_ROWID)"

lemma row_among_none: "(\<And>j. j \<in> set is \<Longrightarrow> doc ps j \<noteq> d) \<Longrightarrow> row_among ps is d = INVALID_ROWID"
  by (induction "is") (auto simp: row_among_def)

lemma row_among_Cons: "row_among ps (i # is) d = (if doc ps i = d then row ps i else row_among ps is d)"
  by (simp add: row_among_def)

lemma row_among_append:
  "(\<And>j. j \<in> set as \<Longrightarrow> doc ps j \<noteq> d) \<Longrightarrow> row_among ps (as @ bs) d = row_among ps bs d"
  by (induction as) (auto simp: row_among_Cons)

lemma row_among_append2:
  "(\<And>j. j \<in> set bs \<Longrightarrow> doc ps j \<noteq> d) \<Longrightarrow> row_among ps (as @ bs) d = row_among ps as d"
proof (induction as)
  case Nil
  have "row_among ps [] d = INVALID_ROWID" by (simp add: row_among_def)
  with Nil show ?case by (simp add: row_among_none)
qed (simp add: row_among_Cons)

lemma find_loop_spec:
  assumes "docid_sorted ps" "0 < i" "i + m \<le> length ps" "\<And>j. i \<le> j \<Longrightarrow> j < i + m \<Longrightarrow> j mod D \<noteq> 0"
  shows "find_loop m (entries D ps i (length ps) @ tail) (doc ps (i - 1)) d = Some (row_among ps [i..<i + m] d)"
  using assms(2-4)
proof (induction m arbitrary: i)
  case 0
  then show ?case by (simp add: row_among_def)
next
  case (Suc m)
  have i: "i < length ps" "i mod D \<noteq> 0" using Suc.prems(2) Suc.prems(3)[of i] by auto
  have eq: "find_loop (Suc m) (entries D ps i (length ps) @ tail) (doc ps (i - 1)) d =
    (if doc ps i = d then Some (row ps i) else if doc ps i > d then Some INVALID_ROWID
     else find_loop m (entries D ps (Suc i) (length ps) @ tail) (doc ps (Suc i - 1)) d)"
    using i by (simp add: read_delta Let_def)
  have up: "[i..<i + Suc m] = i # [Suc i..<Suc i + m]" by (simp add: upt_conv_Cons)
  have IH: "find_loop m (entries D ps (Suc i) (length ps) @ tail) (doc ps (Suc i - 1)) d =
    Some (row_among ps [Suc i..<Suc i + m] d)"
    using Suc.prems by (intro Suc.IH) auto
  have "row_among ps [Suc i..<Suc i + m] d = INVALID_ROWID" if "doc ps i > d"
  proof (rule row_among_none)
    fix j assume "j \<in> set [Suc i..<Suc i + m]"
    then have "doc ps i < doc ps j" using Suc.prems(2) by (intro docid_sortedD[OF assms(1)]) auto
    with that show "doc ps j \<noteq> d" by auto
  qed
  then show ?case unfolding eq up row_among_Cons using IH by auto
qed

lemma serves_block:
  assumes "serves r D ps" "k < blocks D ps"
  obtains off tail where "chk_offset r k = Some off"
    "drop (unat off) (m_pData r) = entries D ps (D * k) (length ps) @ tail"
  using assms by (auto simp: serves_def)

lemma not_multiple: "0 < D \<Longrightarrow> D * k < j \<Longrightarrow> j < D * k + D \<Longrightarrow> j mod D \<noteq> (0 :: nat)"
  by (metis add_less_cancel_left less_imp_add_positive mod_less mod_mult_self4 mult.commute nat_neq_iff)

lemma Find_spec:
  assumes s: "serves r D ps" and sorted: "docid_sorted ps"
  shows "LookupReader_Find r d = Some (row_among ps [0..<length ps] d)"
proof -
  let ?n = "length ps"
  have D: "0 < D" "m_tMaxDocID r = doc ps (?n - 1)" "m_pCheckpoints r \<noteq> None" "0 < ?n"
    using s by (auto simp: serves_def)
  have mono: "i < j \<Longrightarrow> j < ?n \<Longrightarrow> doc ps i < doc ps j" for i j by (rule docid_sortedD[OF sorted])
  have b0: "chk_base r 0 = Some (doc ps 0)" using serves_base[OF s blocks_pos[OF s]] by simp
  consider "d < doc ps 0" | "doc ps (?n - 1) < d" | "doc ps 0 \<le> d" "d \<le> doc ps (?n - 1)" by force
  then show ?thesis
  proof cases
    case 1
    have "doc ps j \<noteq> d" if "j < ?n" for j using 1 mono[of 0 j] that by (cases "j = 0") auto
    then have "row_among ps [0..<?n] d = INVALID_ROWID" by (intro row_among_none) simp
    with 1 b0 D show ?thesis by (simp add: LookupReader_Find_def)
  next
    case 2
    have "doc ps j \<noteq> d" if "j < ?n" for j
      using le_less_trans[OF docid_le_last[OF sorted_asc[OF sorted] that] 2] by simp
    then have "row_among ps [0..<?n] d = INVALID_ROWID" by (intro row_among_none) simp
    with 2 b0 D show ?thesis by (simp add: LookupReader_Find_def)
  next
    case 3
    from FindCheckpoint_spec[OF s sorted_blocks[OF sorted] blocks_pos[OF s], of d] 3(1) obtain c where
      c: "FindCheckpoint r d 0 = Some c" "case c of None \<Rightarrow> \<forall>i < ?n. doc ps i < d
        | Some m \<Rightarrow> 0 \<le> m \<and> m < blocks D ps \<and> doc ps (D * m) \<le> d \<and>
          (\<forall>l. m < l \<longrightarrow> l < blocks D ps \<longrightarrow> d < doc ps (D * l))"
      by auto
    have "c \<noteq> None"
    proof
      assume "c = None"
      with c(2) D(4) have "doc ps (?n - 1) < d" by simp
      with 3(2) show False by simp
    qed
    then obtain k where k: "c = Some k" by blast
    with c(2) have kb: "k < blocks D ps" "doc ps (D * k) \<le> d"
      and above: "\<And>l. k < l \<Longrightarrow> l < blocks D ps \<Longrightarrow> d < doc ps (D * l)" by auto
    let ?m = "min D (?n - D * k)"
    have kn: "D * k < ?n" by (rule block_bounds[OF D(1) kb(1)])
    obtain off tail where off: "chk_offset r k = Some off" "drop (unat off) (m_pData r) = entries D ps (D * k) ?n @ tail"
      using serves_block[OF s kb(1)] .
    have loop: "find_loop (?m - 1) (entries D ps (Suc (D * k)) ?n @ tail) (doc ps (D * k)) d =
      Some (row_among ps [Suc (D * k)..<D * k + ?m] d)"
      using find_loop_spec[OF sorted, of "Suc (D * k)" "?m - 1" D tail d] kn D(1) not_multiple[OF D(1), of k]
      by simp
    have "LookupReader_Find r d = Some (row_among ps [D * k..<D * k + ?m] d)"
    proof -
      have "[D * k..<D * k + ?m] = D * k # [Suc (D * k)..<D * k + ?m]" using kn D(1) by (simp add: upt_conv_Cons)
      then show ?thesis
        using b0 D 3 c(1) k off serves_base[OF s kb(1)] loop num_docs[OF s kb(1)] kn
        by (auto simp: LookupReader_Find_def read_first row_among_Cons)
    qed
    also have "row_among ps [D * k..<D * k + ?m] d = row_among ps ([0..<D * k] @ [D * k..<D * k + ?m] @ [D * k + ?m..<?n]) d"
    proof -
      have low: "doc ps j \<noteq> d" if "j < D * k" for j using mono[of j "D * k"] kn kb(2) that by auto
      have high: "doc ps j \<noteq> d" if "D * k + ?m \<le> j" "j < ?n" for j
      proof -
        have j: "D * (k + 1) \<le> j" using that by auto
        then have "k + 1 \<le> j div D" using D(1) by (simp add: less_eq_div_iff_mult_less_eq mult.commute)
        moreover have "j div D < blocks D ps" using D(1) that(2) by (intro block_of)
        ultimately have kb1: "k + 1 < blocks D ps" by simp
        then have "d < doc ps (D * (k + 1))" by (intro above) auto
        also have "\<dots> \<le> doc ps j" using mono[of "D * (k + 1)" j] j that(2) by (cases "D * (k + 1) = j") auto
        finally show ?thesis by simp
      qed
      have "row_among ps ([0..<D * k] @ [D * k..<D * k + ?m] @ [D * k + ?m..<?n]) d =
          row_among ps ([D * k..<D * k + ?m] @ [D * k + ?m..<?n]) d"
        using low by (intro row_among_append) auto
      also have "\<dots> = row_among ps [D * k..<D * k + ?m] d" using high by (intro row_among_append2) auto
      finally show ?thesis by simp
    qed
    also have "[0..<D * k] @ [D * k..<D * k + ?m] @ [D * k + ?m..<?n] = [0..<?n]"
      using kn by (simp add: upt_append_upt)
    finally show ?thesis .
  qed
qed

section \<open>Iterating\<close>

text \<open>The iterator has consumed the first \<open>i\<close> pairs.\<close>

definition iter_at :: "LookupReaderIterator_c \<Rightarrow> nat \<Rightarrow> DocidRowidPair_t list \<Rightarrow> nat \<Rightarrow> bool" where
  "iter_at it D ps i \<longleftrightarrow> serves (m_tReader it) D ps \<and>
    (case m_pCurCheckpoint it of None \<Rightarrow> i = length ps
     | Some k \<Rightarrow> k < blocks D ps \<and> m_iCheckpointDocs it = min D (length ps - D * k) \<and>
        m_iProcessedDocs it \<le> m_iCheckpointDocs it \<and> i = D * k + m_iProcessedDocs it \<and>
        m_tCurDocID it = doc ps (if m_iProcessedDocs it = 0 then i else i - 1) \<and>
        (\<exists>tail. m_pCur it = entries D ps i (length ps) @ tail))"

lemma iter_at_le: "iter_at it D ps i \<Longrightarrow> i \<le> length ps"
  using block_bounds[of D _ ps] by (auto simp: iter_at_def serves_def split: option.splits) fastforce

lemma SetCheckpoint_at:
  assumes "serves (m_tReader it) D ps" "k < blocks D ps"
  shows "\<exists>it'. SetCheckpoint (Some k) it = Some it' \<and> iter_at it' D ps (D * k) \<and>
    m_tReader it' = m_tReader it \<and> m_iProcessedDocs it' = 0 \<and> m_pCurCheckpoint it' = Some k"
proof -
  obtain off tail where off: "chk_offset (m_tReader it) k = Some off"
    "drop (unat off) (m_pData (m_tReader it)) = entries D ps (D * k) (length ps) @ tail"
    using serves_block[OF assms] .
  show ?thesis using off serves_base[OF assms] assms num_docs[OF assms]
    by (simp add: SetCheckpoint_def iter_at_def)
qed

lemma read_entry_at:
  assumes at: "iter_at it D ps i" and cur: "m_pCurCheckpoint it = Some k" "m_iProcessedDocs it < m_iCheckpointDocs it"
  shows "\<exists>it'. read_entry it = Some (Some (doc ps i, row ps i), it') \<and> iter_at it' D ps (Suc i) \<and>
    m_tReader it' = m_tReader it"
proof -
  have D: "0 < D" using at by (simp add: iter_at_def serves_def)
  from at cur obtain tail where a: "k < blocks D ps" "m_iCheckpointDocs it = min D (length ps - D * k)"
    "i = D * k + m_iProcessedDocs it" "m_tCurDocID it = doc ps (if m_iProcessedDocs it = 0 then i else i - 1)"
    "m_pCur it = entries D ps i (length ps) @ tail" "serves (m_tReader it) D ps"
    by (auto simp: iter_at_def)
  have n: "i < length ps" using a(2,3) cur(2) by auto
  show ?thesis
  proof (cases "m_iProcessedDocs it = 0")
    case True
    then have "i mod D = 0" using a(3) by simp
    with True a(5) n have "read_entry it = Some (Some (m_tCurDocID it, row ps i),
        it\<lparr>m_pCur := entries D ps (Suc i) (length ps) @ tail, m_iProcessedDocs := 1\<rparr>)"
      by (simp add: read_entry_def read_first)
    with True a cur D show ?thesis by (simp add: iter_at_def)
  next
    case False
    then have "i mod D \<noteq> 0" using a(2,3) cur(2) D by (intro not_multiple[of D k]) auto
    with False a(4,5) n have "read_entry it = Some (Some (doc ps i, row ps i),
        it\<lparr>m_pCur := entries D ps (Suc i) (length ps) @ tail, m_tCurDocID := doc ps i,
          m_iProcessedDocs := m_iProcessedDocs it + 1\<rparr>)"
      by (simp add: read_entry_def read_delta)
    with False a cur show ?thesis by (simp add: iter_at_def)
  qed
qed

lemma Read_at:
  assumes "iter_at it D ps i"
  shows "\<exists>it'. m_tReader it' = m_tReader it \<and> LookupReaderIterator_Read it =
    Some (if i < length ps then Some (doc ps i, row ps i) else None, it') \<and>
    iter_at it' D ps (if i < length ps then Suc i else i)"
proof (cases "m_pCurCheckpoint it")
  case None
  with assms show ?thesis by (auto simp: LookupReaderIterator_Read_def iter_at_def)
next
  case (Some k)
  have D: "0 < D" "m_nCheckpoints (m_tReader it) = blocks D ps" using assms by (auto simp: iter_at_def serves_def)
  from assms Some have a: "k < blocks D ps" "m_iCheckpointDocs it = min D (length ps - D * k)"
    "i = D * k + m_iProcessedDocs it" "m_iProcessedDocs it \<le> m_iCheckpointDocs it" "serves (m_tReader it) D ps"
    by (auto simp: iter_at_def)
  show ?thesis
  proof (cases "m_iProcessedDocs it = m_iCheckpointDocs it")
    case False
    then have "m_iProcessedDocs it < m_iCheckpointDocs it" using a(4) by simp
    moreover from this have "i < length ps" using a(2,3) by auto
    ultimately show ?thesis using read_entry_at[OF assms Some] Some False
      by (auto simp: LookupReaderIterator_Read_def)
  next
    case True
    show ?thesis
    proof (cases "k + 1 < blocks D ps")
      case more: True
      from SetCheckpoint_at[OF a(5) more] obtain v where v: "SetCheckpoint (Some (k + 1)) it = Some v"
        "iter_at v D ps (D * (k + 1))" "m_tReader v = m_tReader it" "m_iProcessedDocs v = 0" "m_pCurCheckpoint v = Some (k + 1)"
        by blast
      have n: "D * (k + 1) < length ps" by (rule block_bounds[OF D(1) more])
      then have i: "i = D * (k + 1)" using True a(2,3) by auto
      have "0 < m_iCheckpointDocs v" using v(2,5) n D(1) by (auto simp: iter_at_def)
      from read_entry_at[OF v(2,5)] this v(4) obtain w where
        "read_entry v = Some (Some (doc ps i, row ps i), w)" "iter_at w D ps (Suc i)" "m_tReader w = m_tReader v"
        unfolding i by auto
      then show ?thesis using v(1,3) Some True more D(2) n i
        by (auto simp: LookupReaderIterator_Read_def IsLastCheckpoint_def)
    next
      case last: False
      then have "length ps \<le> D * k + D"
        using block_of[OF D(1), of "D * k + D" ps] D(1) by (cases "length ps \<le> D * k + D") auto
      moreover have "D * k < length ps" by (rule block_bounds[OF D(1) a(1)])
      ultimately have i: "i = length ps" using True a(2,3) by auto
      moreover have "IsLastCheckpoint (m_tReader it) k"
        using last a(1) D(2) by (auto simp: IsLastCheckpoint_def)
      ultimately show ?thesis using Some True a(5) by (auto simp: LookupReaderIterator_Read_def iter_at_def)
    qed
  qed
qed

lemma HintDocID_at:
  assumes at: "iter_at it D ps i" and sorted: "docid_blocks D ps"
  shows "\<exists>it' j. LookupReaderIterator_HintDocID d it = Some it' \<and> iter_at it' D ps j \<and> i \<le> j \<and>
    m_tReader it' = m_tReader it \<and> (\<forall>l. i \<le> l \<longrightarrow> l < j \<longrightarrow> doc ps l < d)"
proof (cases "m_pCurCheckpoint it")
  case None
  with at show ?thesis by (auto simp: LookupReaderIterator_HintDocID_def)
next
  case (Some k)
  have D: "0 < D" "m_nCheckpoints (m_tReader it) = blocks D ps" using at by (auto simp: iter_at_def serves_def)
  from at Some have a: "k < blocks D ps" "i \<le> D * (k + 1)" "serves (m_tReader it) D ps"
    by (auto simp: iter_at_def)
  have stay: ?thesis if "LookupReaderIterator_HintDocID d it = Some it" using that at by auto
  show ?thesis
  proof (cases "k + 1 < blocks D ps \<and> doc ps (D * (k + 1)) \<le> d")
    case False
    show ?thesis
    proof (cases "k + 1 < blocks D ps")
      case True
      with False have "d < doc ps (D * (k + 1))" by simp
      then show ?thesis using stay Some True serves_base[OF a(3) True]
        by (simp add: LookupReaderIterator_HintDocID_def)
    qed (use stay Some a(1) D(2) in \<open>auto simp: LookupReaderIterator_HintDocID_def IsLastCheckpoint_def\<close>)
  next
    case True
    then have k1: "k + 1 < blocks D ps" and d: "doc ps (D * (k + 1)) \<le> d" by auto
    from FindCheckpoint_spec[OF a(3) sorted k1 d] obtain c where c: "FindCheckpoint (m_tReader it) d (k + 1) = Some c"
      "case c of None \<Rightarrow> \<forall>i < length ps. doc ps i < d
       | Some m \<Rightarrow> k + 1 \<le> m \<and> m < blocks D ps \<and> doc ps (D * m) \<le> d \<and>
        (\<forall>l. m < l \<longrightarrow> l < blocks D ps \<longrightarrow> d < doc ps (D * l))" by blast
    have eq: "LookupReaderIterator_HintDocID d it = SetCheckpoint c it"
      using Some k1 D(2) leD[OF d] serves_base[OF a(3) k1] c(1)
      by (simp add: LookupReaderIterator_HintDocID_def IsLastCheckpoint_def)
    show ?thesis
    proof (cases c)
      case None
      have "iter_at (it\<lparr>m_pCurCheckpoint := None\<rparr>) D ps (length ps)" using a(3) by (simp add: iter_at_def)
      then show ?thesis unfolding eq using None c(2) iter_at_le[OF at]
        by (intro exI[of _ "it\<lparr>m_pCurCheckpoint := None\<rparr>"] exI[of _ "length ps"]) (simp add: SetCheckpoint_def)
    next
      case m: (Some m)
      with c(2) have mb: "k + 1 \<le> m" "m < blocks D ps" "doc ps (D * m) \<le> d" by auto
      have "doc ps l < d" if "l < D * m" for l
        using docid_blocks_less[OF sorted D(1) that block_bounds[OF D(1) mb(2)]] mb(3) by (rule less_le_trans)
      moreover have "D * (k + 1) \<le> D * m" using mb(1) by (rule mult_le_mono2)
      ultimately show ?thesis unfolding eq m using SetCheckpoint_at[OF a(3) mb(2)] a(2) by (meson le_trans)
    qed
  qed
qed

end
