(* ===== verification/Docid_Lookup_File.thy ===== *)
theory Docid_Lookup_File
  imports Docid_Lookup
begin

text \<open>
  The docid lookup as a file: the layout of its header, checkpoint table and entries in the two
  header versions, that the writer of \<^verbatim>\<open>Docid_Lookup\<close> produces it and its readers serve it, the format
  check and the upgrade of \<^verbatim>\<open>src/src/docidlookup.cpp\<close>, and the UUID entries behind the numeric ones.
\<close>

section \<open>Layout\<close>

definition header_size :: "nat \<Rightarrow> nat" where
  "header_size ver = (if 71 \<le> ver then 24 else 16)"

definition header_bytes :: "nat \<Rightarrow> nat \<Rightarrow> SphOffset_t \<Rightarrow> DocidRowidPair_t list \<Rightarrow> byte list" where
  "header_bytes ver D u ps =
    le_bytes 4 (of_nat (length ps) :: dword) @ le_bytes 4 (of_nat D :: dword) @
    le_bytes 8 (if ps = [] then 0 else doc ps (length ps - 1)) @ (if 71 \<le> ver then le_bytes 8 u else [])"

definition block_offset :: "nat \<Rightarrow> nat \<Rightarrow> DocidRowidPair_t list \<Rightarrow> nat \<Rightarrow> nat" where
  "block_offset ver D ps k = header_size ver + 16 * blocks D ps + length (entries D ps 0 (D * k))"

definition checkpoint_bytes :: "nat \<Rightarrow> nat \<Rightarrow> DocidRowidPair_t list \<Rightarrow> nat \<Rightarrow> byte list" where
  "checkpoint_bytes ver D ps k = le_bytes 8 (doc ps (D * k)) @ le_bytes 8 (of_nat (block_offset ver D ps k) :: qword)"

definition table_bytes :: "nat \<Rightarrow> nat \<Rightarrow> DocidRowidPair_t list \<Rightarrow> byte list" where
  "table_bytes ver D ps = concat (map (checkpoint_bytes ver D ps) [0..<blocks D ps])"

definition lookup_image :: "nat \<Rightarrow> nat \<Rightarrow> SphOffset_t \<Rightarrow> DocidRowidPair_t list \<Rightarrow> byte list" where
  "lookup_image ver D u ps = header_bytes ver D u ps @ table_bytes ver D ps @ entries D ps 0 (length ps)"

text \<open>Sizes for which no count and no offset wraps around.\<close>

definition lookup_fits :: "nat \<Rightarrow> nat \<Rightarrow> DocidRowidPair_t list \<Rightarrow> bool" where
  "lookup_fits ver D ps \<longleftrightarrow> 0 < D \<and> length ps + D \<le> 2 ^ 32 \<and> length (lookup_image ver D 0 ps) < 2 ^ 64"

lemma length_header [simp]: "length (header_bytes ver D u ps) = header_size ver"
  by (simp add: header_bytes_def header_size_def)

lemma length_concat_blocks: "(\<And>k. length (f k) = m) \<Longrightarrow> length (concat (map f [i..<n])) = m * (n - i)"
  by (simp add: length_concat comp_def sum_list_triv)

lemma drop_concat_blocks:
  assumes "\<And>k. length (f k) = m" "k < n"
  shows "drop (m * k) (concat (map f [0..<n])) = f k @ concat (map f [Suc k..<n])"
proof -
  have "[0..<n] = [0..<k] @ k # [Suc k..<n]"
    using assms(2) by (metis upt_append_upt upt_conv_Cons less_imp_le_nat zero_le)
  then have "concat (map f [0..<n]) = concat (map f [0..<k]) @ f k @ concat (map f [Suc k..<n])" by simp
  moreover have "length (concat (map f [0..<k])) = m * k" using length_concat_blocks[of f m 0 k, OF assms(1)] by simp
  ultimately show ?thesis by simp
qed

lemma length_checkpoint_bytes [simp]: "length (checkpoint_bytes ver D ps k) = 16"
  by (simp add: checkpoint_bytes_def)

lemma length_table [simp]: "length (table_bytes ver D ps) = 16 * blocks D ps"
  by (simp add: table_bytes_def length_concat_blocks)

lemma length_image: "length (lookup_image ver D u ps) = header_size ver + 16 * blocks D ps + length (entries D ps 0 (length ps))"
  by (simp add: lookup_image_def)

lemma image_read_header:
  fixes ver D :: nat and u :: SphOffset_t and ps :: "DocidRowidPair_t list" and tail :: "byte list"
  defines "f \<equiv> lookup_image ver D u ps @ tail"
  shows "read32 f 0 = Some (of_nat (length ps))" "read32 f 4 = Some (of_nat D)"
    "read64 f 8 = Some (if ps = [] then 0 else doc ps (length ps - 1))" "71 \<le> ver \<Longrightarrow> read64 f 16 = Some u"
  by (simp_all add: f_def lookup_image_def header_bytes_def read32_image read64_image)

lemma image_read_checkpoint:
  fixes ver D :: nat and u :: SphOffset_t and ps :: "DocidRowidPair_t list" and tail :: "byte list"
  assumes "k < blocks D ps"
  defines "f \<equiv> lookup_image ver D u ps @ tail"
  shows "read64 f (header_size ver + 16 * k) = Some (doc ps (D * k))"
    "read64 f (header_size ver + 16 * k + 8) = Some (of_nat (block_offset ver D ps k))"
proof -
  let ?p = "header_size ver + 16 * k"
  obtain rest where d: "drop ?p f = checkpoint_bytes ver D ps k @ rest"
    using drop_concat_blocks[of "checkpoint_bytes ver D ps" 16 k "blocks D ps"] assms(1)
    by (auto simp: f_def lookup_image_def table_bytes_def)
  then show "read64 f ?p = Some (doc ps (D * k))"
    by (intro read64_image) (simp add: checkpoint_bytes_def)
  have "drop (?p + 8) f = drop 8 (drop ?p f)" by (simp add: add.commute)
  also have "\<dots> = le_bytes 8 (of_nat (block_offset ver D ps k) :: qword) @ rest"
    unfolding d by (simp add: checkpoint_bytes_def)
  finally show "read64 f (?p + 8) = Some (of_nat (block_offset ver D ps k))"
    by (intro read64_image) simp
qed

lemma image_entries:
  assumes "i \<le> length ps"
  shows "drop (header_size ver + 16 * blocks D ps + length (entries D ps 0 i)) (lookup_image ver D u ps @ tail) =
    entries D ps i (length ps) @ tail"
proof -
  have "entries D ps 0 (length ps) = entries D ps 0 i @ entries D ps i (length ps)"
    using assms by (intro entries_split) auto
  then show ?thesis by (simp add: lookup_image_def)
qed

lemma block_offset_less:
  assumes "lookup_fits ver D ps" "k < blocks D ps"
  shows "unat (of_nat (block_offset ver D ps k) :: qword) = block_offset ver D ps k"
proof -
  have "D * k < length ps" using assms by (intro block_bounds) (auto simp: lookup_fits_def)
  then have "length (entries D ps 0 (D * k)) \<le> length (entries D ps 0 (length ps))"
    using entries_split[of 0 "D * k" "length ps" D ps] by simp
  then have "block_offset ver D ps k < 2 ^ 64"
    using assms(1) by (simp add: lookup_fits_def block_offset_def length_image)
  then show ?thesis by (simp add: unat_of_nat)
qed

lemma blocks_word:
  assumes "0 < D" "length ps + D \<le> 2 ^ 32" "D < 2 ^ 32"
  shows "unat ((of_nat (length ps) + of_nat D - 1 :: dword) div of_nat D) = blocks D ps"
proof -
  have "(of_nat (length ps) + of_nat D - 1 :: dword) = of_nat (length ps + D - 1)"
    using assms by (simp add: of_nat_diff)
  moreover have "length ps + D - 1 < 2 ^ 32" using assms by linarith
  ultimately show ?thesis using assms(3) by (simp add: unat_div unat_of_nat blocks_def)
qed

lemma image_serves:
  assumes "lookup_fits ver D ps" "ps \<noteq> []"
  shows "\<exists>r. LookupReader_SetData (Some (lookup_image ver D u ps @ tail)) ver r0 =
      Some (r, if 71 \<le> ver then u else 0, of_nat (length ps)) \<and> serves r D ps"
proof -
  have fit: "0 < D" "length ps + D \<le> 2 ^ 32" using assms(1) by (auto simp: lookup_fits_def)
  moreover have "0 < length ps" using assms(2) by simp
  ultimately have D32: "D < 2 ^ 32" by linarith
  with fit have un: "unat (of_nat D :: dword) = D" "unat (of_nat (length ps) :: dword) = length ps"
    using assms(2) by (auto simp: unat_of_nat neq_Nil_conv)
  then have nz: "(of_nat D :: dword) \<noteq> 0" using fit(1) by (metis neq0_conv unat_0)
  let ?f = "lookup_image ver D u ps @ tail"
  let ?r = "\<lparr>m_nDocs = of_nat (length ps), m_nDocsPerCheckpoint = of_nat D, m_nCheckpoints = blocks D ps,
    m_tMaxDocID = doc ps (length ps - 1), m_pData = ?f, m_pCheckpoints = Some (header_size ver)\<rparr>"
  have "LookupReader_SetData (Some ?f) ver r0 = Some (?r, if 71 \<le> ver then u else 0, of_nat (length ps))"
    using nz image_read_header[of ver D u ps tail] blocks_word[OF fit D32] assms(2)
    by (simp add: LookupReader_SetData_def header_size_def)
  moreover have "serves ?r D ps"
  proof -
    have "chk_base ?r k = Some (doc ps (D * k)) \<and> (\<exists>off tl. chk_offset ?r k = Some off \<and>
        drop (unat off) ?f = entries D ps (D * k) (length ps) @ tl)" if "k < blocks D ps" for k
    proof -
      have "D * k \<le> length ps" using block_bounds[OF fit(1) that] by simp
      then show ?thesis
        using image_read_checkpoint[OF that, of ver u tail] block_offset_less[OF assms(1) that]
          image_entries[of "D * k" ps ver D u tail]
        by (simp add: chk_base_def chk_offset_def block_offset_def)
    qed
    then show ?thesis using un fit assms(2) by (simp add: serves_def)
  qed
  ultimately show ?thesis by blast
qed

section \<open>The writer produces the layout\<close>

text \<open>The file before \<^verbatim>\<open>FinalizeNumeric\<close> fills in the reserved places.\<close>

definition reserved :: "DocidRowidPair_t list \<Rightarrow> byte list" where
  "reserved ps = le_bytes 4 (of_nat (length ps) :: dword) @ le_bytes 4 (64 :: dword) @ le_bytes 8 (0 :: qword) @
    le_bytes 8 (0 :: qword) @ concat (replicate (blocks 64 ps) (le_bytes 8 (0 :: qword) @ le_bytes 8 (0 :: qword)))"

definition writer_at :: "DocidLookupWriter_c \<Rightarrow> DocidRowidPair_t list \<Rightarrow> nat \<Rightarrow> bool" where
  "writer_at lw ps i \<longleftrightarrow>
    stands_for (m_tWriter lw) (reserved ps @ entries 64 ps 0 i) (length (reserved ps @ entries 64 ps 0 i)) \<and>
    m_tMaxDocIDPos lw = 8 \<and> m_tUuidLookupOffsetPos lw = 16 \<and> m_tCheckpointStart lw = 24 \<and> m_iProcessed lw = i \<and>
    m_iCheckpoint lw = (i + 63) div 64 \<and> w_nDocs lw = of_nat (length ps) \<and>
    length (m_dCheckpoints lw) = blocks 64 ps \<and>
    (\<forall>k < (i + 63) div 64. m_dCheckpoints lw ! k =
      \<lparr>m_tBaseDocID = doc ps (64 * k), m_tOffset = of_nat (block_offset 71 64 ps k)\<rparr>) \<and>
    m_tLastDocID lw = (if i = 0 then 0 else doc ps (i - 1))"

lemma length_reserved: "length (reserved ps) = 24 + 16 * blocks 64 ps"
  by (simp add: reserved_def length_concat sum_list_replicate)

lemma put_offsets_stands:
  "stands_for w f p \<Longrightarrow> \<exists>w'. put_offsets xs w = Some w' \<and>
    stands_for w' (overwrite f p (concat (map (le_bytes 8) xs))) (p + 8 * length xs)"
proof (induction xs arbitrary: w f p)
  case (Cons x xs)
  obtain v where v: "CSphWriter_PutOffset x w = Some v" "stands_for v (overwrite f p (le_bytes 8 x)) (p + 8)"
    using PutBytes_stands[OF Cons.prems, of "le_bytes 8 x"] by (auto simp: CSphWriter_PutOffset_def)
  from Cons.IH[OF v(2)] v(1) show ?case
    using overwrite_seq[of f p "le_bytes 8 x" "concat (map (le_bytes 8) xs)"] by (auto simp: add.assoc)
qed simp

text \<open>Appending at the end of the file.\<close>

lemma append_bytes:
  assumes "stands_for w f (length f)"
  shows "\<exists>w'. CSphWriter_PutBytes bs w = Some w' \<and> stands_for w' (f @ bs) (length (f @ bs))"
  using PutBytes_stands[OF assms, of bs] by simp

lemma append_byte_fold:
  "stands_for w f (length f) \<Longrightarrow> stands_for (fold CSphWriter_PutByte bs w) (f @ bs) (length (f @ bs))"
  using PutByte_fold[of w f "length f" bs] by simp

lemma concat_zero_offsets:
  "concat (map (le_bytes 8) (concat (replicate n [0, 0 :: qword]))) = concat (replicate n (le_bytes 8 (0 :: qword) @ le_bytes 8 (0 :: qword)))"
  by (induction n) auto

lemma Start_at:
  assumes "0 < n" "length ps + 64 \<le> 2 ^ 32"
  shows "\<exists>lw. DocidLookupWriter_Start (DocidLookupWriter_new (CSphWriter_OpenFile True n) (of_nat (length ps))) = Some lw \<and>
    writer_at lw ps 0"
proof -
  have nc: "unat ((of_nat (length ps) + of_nat DOCS_PER_LOOKUP_CHECKPOINT - 1 :: dword) div of_nat DOCS_PER_LOOKUP_CHECKPOINT) = blocks 64 ps"
    unfolding DOCS_PER_LOOKUP_CHECKPOINT_def using assms(2) by (intro blocks_word) auto
  let ?h1 = "le_bytes 4 (of_nat (length ps) :: dword)" and ?h2 = "le_bytes 4 (64 :: dword)"
    and ?z = "le_bytes 8 (0 :: qword)"
  have "stands_for (CSphWriter_OpenFile True n) [] (length ([] :: byte list))" using open_file[OF assms(1)] by simp
  from append_bytes[OF this, of ?h1] obtain w1 where
    w1: "CSphWriter_PutDword (of_nat (length ps)) (CSphWriter_OpenFile True n) = Some w1" "stands_for w1 ?h1 (length ?h1)"
    by (auto simp: CSphWriter_PutDword_def)
  from append_bytes[OF w1(2), of ?h2] obtain w2 where
    w2: "CSphWriter_PutDword 64 w1 = Some w2" "stands_for w2 (?h1 @ ?h2) (length (?h1 @ ?h2))"
    by (auto simp: CSphWriter_PutDword_def)
  from append_bytes[OF w2(2), of ?z] obtain w3 where
    w3: "CSphWriter_PutOffset 0 w2 = Some w3" "stands_for w3 ((?h1 @ ?h2) @ ?z) (length ((?h1 @ ?h2) @ ?z))"
    unfolding CSphWriter_PutOffset_def by blast
  from append_bytes[OF w3(2), of ?z] obtain w4 where
    w4: "CSphWriter_PutOffset 0 w3 = Some w4" "stands_for w4 (((?h1 @ ?h2) @ ?z) @ ?z) (length (((?h1 @ ?h2) @ ?z) @ ?z))"
    unfolding CSphWriter_PutOffset_def by blast
  from put_offsets_stands[OF w4(2), of "concat (replicate (blocks 64 ps) [0, 0])"] obtain w5 where
    w5: "put_offsets (concat (replicate (blocks 64 ps) [0, 0])) w4 = Some w5"
      "stands_for w5 (reserved ps) (length (reserved ps))"
    unfolding overwrite_end concat_zero_offsets
    by (auto simp: reserved_def length_concat sum_list_replicate mult.commute)
  have pos: "CSphWriter_GetPos w2 = 8" "CSphWriter_GetPos w3 = 16" "CSphWriter_GetPos w4 = 24"
    using w2(2) w3(2) w4(2) by (auto simp: stands_for_def CSphWriter_GetPos_def)
  show ?thesis
    using w1(1) w2(1) w3(1) w4(1) w5 pos nc
    by (simp add: DocidLookupWriter_Start_def DocidLookupWriter_new_def writer_at_def entries_def
        DOCS_PER_LOOKUP_CHECKPOINT_def Let_def)
qed

lemma entries_Suc: "entries D ps 0 (Suc i) = entries D ps 0 i @ entry_bytes D ps i"
  by (simp add: entries_def)

lemma checkpoint_count:
  fixes i :: nat
  shows "i mod 64 = 0 \<Longrightarrow> (i + 63) div 64 = i div 64" "i mod 64 = 0 \<Longrightarrow> (Suc i + 63) div 64 = Suc (i div 64)"
    "i mod 64 = 0 \<Longrightarrow> i = 64 * (i div 64)" "i mod 64 \<noteq> 0 \<Longrightarrow> (Suc i + 63) div 64 = (i + 63) div 64"
proof -
  have e: "i = 64 * (i div 64) + i mod 64" by simp
  then show "i mod 64 = 0 \<Longrightarrow> i = 64 * (i div 64)" by linarith
  show "i mod 64 = 0 \<Longrightarrow> (i + 63) div 64 = i div 64" "i mod 64 = 0 \<Longrightarrow> (Suc i + 63) div 64 = Suc (i div 64)"
    using e by linarith+
  assume "i mod 64 \<noteq> 0"
  moreover have "i mod 64 < 64" by simp
  ultimately have "(i + 63) div 64 = i div 64 + 1" "(Suc i + 63) div 64 = i div 64 + 1"
    using e by linarith+
  then show "(Suc i + 63) div 64 = (i + 63) div 64" by simp
qed

lemma AddPair_at:
  assumes at: "writer_at lw ps i" and i: "i < length ps" and asc: "docid_asc ps"
  shows "\<exists>lw'. DocidLookupWriter_AddPair (ps ! i) lw = Some lw' \<and> writer_at lw' ps (Suc i)"
proof -
  have st: "stands_for (m_tWriter lw) (reserved ps @ entries 64 ps 0 i) (length (reserved ps @ entries 64 ps 0 i))"
    and cp: "m_iCheckpoint lw = (i + 63) div 64" "length (m_dCheckpoints lw) = blocks 64 ps" "m_iProcessed lw = i"
    and ld: "m_tLastDocID lw = (if i = 0 then 0 else doc ps (i - 1))"
    using at by (auto simp: writer_at_def)
  have "\<not> doc ps i < m_tLastDocID lw"
    using asc i by (auto simp: ld docid_asc_def sorted_wrt_iff_nth_less not_less)
  note ok = this
  show ?thesis
  proof (cases "i mod 64 = 0")
    case True
    note c = checkpoint_count(1-3)[OF True]
    have b: "i div 64 < blocks 64 ps" using i by (intro block_of) auto
    obtain w where w: "CSphWriter_PutDword (row ps i) (m_tWriter lw) = Some w"
      "stands_for w ((reserved ps @ entries 64 ps 0 i) @ le_bytes 4 (row ps i)) (length ((reserved ps @ entries 64 ps 0 i) @ le_bytes 4 (row ps i)))"
      using append_bytes[OF st, of "le_bytes 4 (row ps i)"] by (auto simp: CSphWriter_PutDword_def)
    have e: "entries 64 ps 0 (Suc i) = entries 64 ps 0 i @ le_bytes 4 (row ps i)"
      using True by (simp add: entries_Suc entry_bytes_def)
    have off: "CSphWriter_GetPos (m_tWriter lw) = block_offset 71 64 ps (i div 64)"
      using st c(3) by (simp add: CSphWriter_GetPos_def stands_for_def block_offset_def header_size_def length_reserved)
    let ?c = "\<lparr>m_tBaseDocID = doc ps i, m_tOffset = of_nat (block_offset 71 64 ps (i div 64))\<rparr>"
    have add: "DocidLookupWriter_AddPair (ps ! i) lw = Some (lw\<lparr>m_dCheckpoints := (m_dCheckpoints lw)[i div 64 := ?c],
        m_iCheckpoint := Suc (i div 64), m_tWriter := w, m_tLastDocID := doc ps i, m_iProcessed := Suc i\<rparr>)"
      using True ok cp c b w(1) off by (simp add: DocidLookupWriter_AddPair_def DOCS_PER_LOOKUP_CHECKPOINT_def)
    have "(m_dCheckpoints lw)[i div 64 := ?c] ! k = \<lparr>m_tBaseDocID = doc ps (64 * k), m_tOffset = of_nat (block_offset 71 64 ps k)\<rparr>"
      if "k < Suc (i div 64)" for k
      using at that cp(2) b c by (cases "k = i div 64") (auto simp: writer_at_def)
    then show ?thesis using add w(2) at c e by (simp add: writer_at_def cp(2))
  next
    case False
    note c = checkpoint_count(4)[OF False]
    from False have i0: "i \<noteq> 0" by auto
    let ?z = "ZipValueBE False (doc ps i - doc ps (i - 1))"
    have z: "stands_for (CSphWriter_ZipOffset (doc ps i - doc ps (i - 1)) (m_tWriter lw))
        ((reserved ps @ entries 64 ps 0 i) @ ?z) (length ((reserved ps @ entries 64 ps 0 i) @ ?z))"
      unfolding CSphWriter_ZipOffset_def by (rule append_byte_fold[OF st])
    obtain w where w: "CSphWriter_PutDword (row ps i) (CSphWriter_ZipOffset (doc ps i - doc ps (i - 1)) (m_tWriter lw)) = Some w"
      "stands_for w (((reserved ps @ entries 64 ps 0 i) @ ?z) @ le_bytes 4 (row ps i))
        (length (((reserved ps @ entries 64 ps 0 i) @ ?z) @ le_bytes 4 (row ps i)))"
      using append_bytes[OF z, of "le_bytes 4 (row ps i)"] by (auto simp: CSphWriter_PutDword_def)
    have e: "entries 64 ps 0 (Suc i) = entries 64 ps 0 i @ ?z @ le_bytes 4 (row ps i)"
      using False by (simp add: entries_Suc entry_bytes_def)
    show ?thesis using False ok cp c i0 w at e
      by (simp add: DocidLookupWriter_AddPair_def DOCS_PER_LOOKUP_CHECKPOINT_def writer_at_def ld)
  qed
qed

lemma add_pairs_at:
  assumes "docid_asc ps"
  shows "writer_at lw ps i \<Longrightarrow> i \<le> length ps \<Longrightarrow>
    \<exists>lw'. add_pairs (drop i ps) lw = Some lw' \<and> writer_at lw' ps (length ps)"
proof (induction "length ps - i" arbitrary: lw i)
  case 0
  then show ?case by simp
next
  case (Suc m)
  then have i: "i < length ps" by simp
  obtain v where v: "DocidLookupWriter_AddPair (ps ! i) lw = Some v" "writer_at v ps (Suc i)"
    using AddPair_at[OF Suc.prems(1) i assms] by blast
  have "m = length ps - Suc i" using Suc.hyps(2) by simp
  from Suc.hyps(1)[OF this v(2)] i v(1) show ?case by (simp add: Cons_nth_drop_Suc[symmetric])
qed

lemma concat_pairs: "concat (map (le_bytes 8) (concat (map (\<lambda>c. [f c, g c]) cs))) = concat (map (\<lambda>c. le_bytes 8 (f c) @ le_bytes 8 (g c)) cs)"
  by (induction cs) auto

lemma checkpoints_table:
  assumes "writer_at lw ps (length ps)"
  shows "concat (map (le_bytes 8) (concat (map (\<lambda>i. [m_tBaseDocID i, m_tOffset i]) (m_dCheckpoints lw)))) = table_bytes 71 64 ps"
proof -
  have "m_dCheckpoints lw = map (\<lambda>k. \<lparr>m_tBaseDocID = doc ps (64 * k), m_tOffset = of_nat (block_offset 71 64 ps k)\<rparr>) [0..<blocks 64 ps]"
    using assms by (intro nth_equalityI) (auto simp: writer_at_def blocks_def)
  then show ?thesis unfolding concat_pairs by (simp add: table_bytes_def checkpoint_bytes_def[abs_def] comp_def)
qed

text \<open>Where \<^verbatim>\<open>FinalizeNumeric\<close> leaves the writer: at the end of the finished numeric part.\<close>

lemma FinalizeNumeric_at:
  assumes at: "writer_at lw ps (length ps)" and n: "length ps + 64 \<le> 2 ^ 32"
  shows "\<exists>lw'. DocidLookupWriter_FinalizeNumeric lw = Some (True, lw') \<and>
    stands_for (m_tWriter lw') (lookup_image 71 64 0 ps) (length (lookup_image 71 64 0 ps)) \<and>
    m_tUuidLookupOffsetPos lw' = 16 \<and> (ps \<noteq> [] \<longrightarrow> m_dPool (m_tWriter lw') = [])"
proof -
  let ?e = "entries 64 ps 0 (length ps)" and ?h = "le_bytes 4 (of_nat (length ps) :: dword) @ le_bytes 4 (64 :: dword)"
    and ?z = "le_bytes 8 (0 :: qword)" and ?max = "le_bytes 8 (m_tLastDocID lw)"
  let ?zt = "concat (replicate (blocks 64 ps) (?z @ ?z))"
  have st: "stands_for (m_tWriter lw) (reserved ps @ ?e) (length (reserved ps @ ?e))"
    and f: "m_tMaxDocIDPos lw = 8" "m_tUuidLookupOffsetPos lw = 16" "m_tCheckpointStart lw = 24" "m_iProcessed lw = length ps"
      "w_nDocs lw = of_nat (length ps)" "length (m_dCheckpoints lw) = blocks 64 ps"
      "m_tLastDocID lw = (if ps = [] then 0 else doc ps (length ps - 1))"
    using at by (auto simp: writer_at_def)
  note tb = checkpoints_table[OF at]
  let ?w0 = "CSphWriter_Flush (m_tWriter lw)"
  note fl = flush_stands[OF st]
  note s1 = SeekTo_flushed[OF fl(1,2), of 8]
  obtain w1 where w1: "CSphWriter_PutOffset (m_tLastDocID lw) (CSphWriter_SeekTo 8 ?w0) = Some w1"
    "stands_for w1 (overwrite (reserved ps @ ?e) 8 ?max) 16"
    using PutBytes_stands[OF s1(1), of ?max] by (auto simp: CSphWriter_PutOffset_def)
  have "reserved ps @ ?e = ?h @ ?z @ (?z @ ?zt @ ?e)" by (simp add: reserved_def)
  then have o1: "overwrite (reserved ps @ ?e) 8 ?max = (?h @ ?max @ ?z) @ ?zt @ ?e"
    using overwrite_mid[of ?h 8 ?z ?max "?z @ ?zt @ ?e"] by simp
  have s2: "stands_for (CSphWriter_SeekTo 24 w1) ((?h @ ?max @ ?z) @ ?zt @ ?e) 24"
    using SeekTo_outside(1)[OF w1(2), of 24] o1 by simp
  obtain w2 where w2: "put_offsets (concat (map (\<lambda>i. [m_tBaseDocID i, m_tOffset i]) (m_dCheckpoints lw))) (CSphWriter_SeekTo 24 w1) = Some w2"
    "stands_for w2 (overwrite ((?h @ ?max @ ?z) @ ?zt @ ?e) 24 (table_bytes 71 64 ps)) (24 + 16 * blocks 64 ps)"
    using put_offsets_stands[OF s2, of "concat (map (\<lambda>i. [m_tBaseDocID i, m_tOffset i]) (m_dCheckpoints lw))"] f(6)
    unfolding tb by (auto simp: length_concat comp_def sum_list_triv)
  have o2: "overwrite ((?h @ ?max @ ?z) @ ?zt @ ?e) 24 (table_bytes 71 64 ps) = lookup_image 71 64 0 ps"
    using overwrite_mid[of "?h @ ?max @ ?z" 24 ?zt "table_bytes 71 64 ps" ?e]
    by (simp add: lookup_image_def header_bytes_def f(7) length_concat sum_list_replicate)
  let ?fin = "length (reserved ps @ ?e)"
  have le: "24 + 16 * blocks 64 ps \<le> ?fin" "?fin = length (lookup_image 71 64 0 ps)"
    by (auto simp: length_reserved length_image header_size_def)
  have s3: "stands_for (CSphWriter_SeekTo ?fin w2) (lookup_image 71 64 0 ps) ?fin"
    using SeekTo_forward[OF w2(2) le(1)] o2 by simp
  have pool: "m_dPool (CSphWriter_SeekTo ?fin w2) = []" if "ps \<noteq> []"
  proof -
    have "?e = entry_bytes 64 ps 0 @ entries 64 ps (Suc 0) (length ps)" using that by (intro entries_step) simp
    then have "0 < length ?e" by (simp add: entry_bytes_def)
    then have "24 + 16 * blocks 64 ps < ?fin" by (simp add: length_reserved)
    then show ?thesis using SeekTo_outside(2)[OF w2(2)] by blast
  qed
  have "CSphWriter_GetPos ?w0 = ?fin" using fl(1) by (simp add: CSphWriter_GetPos_def stands_for_def)
  moreover have "\<not> m_bError (CSphWriter_SeekTo ?fin w2)" using s3 by (simp add: stands_for_def writer_wf_def)
  moreover have "unat (of_nat (length ps) :: dword) = length ps" using n by (simp add: unat_of_nat)
  ultimately have "DocidLookupWriter_FinalizeNumeric lw = Some (True, lw\<lparr>m_tWriter := CSphWriter_SeekTo ?fin w2\<rparr>)"
    using f w1(1) w2(1) by (simp add: DocidLookupWriter_FinalizeNumeric_def Let_def)
  then show ?thesis using s3 le(2) f(2) pool by (intro exI[of _ "lw\<lparr>m_tWriter := CSphWriter_SeekTo ?fin w2\<rparr>"]) simp
qed

lemma WriteDocidLookup_image:
  assumes "0 < n" "length ps + 64 \<le> 2 ^ 32" "docid_asc ps"
  shows "WriteDocidLookup n ps = Some (True, lookup_image 71 64 0 ps)"
proof -
  obtain lw where lw: "DocidLookupWriter_Start (DocidLookupWriter_new (CSphWriter_OpenFile True n) (of_nat (length ps))) = Some lw"
    "writer_at lw ps 0"
    using Start_at[OF assms(1,2)] by blast
  obtain v where v: "add_pairs ps lw = Some v" "writer_at v ps (length ps)"
    using add_pairs_at[OF assms(3) lw(2)] by auto
  obtain u where u: "DocidLookupWriter_FinalizeNumeric v = Some (True, u)"
    "stands_for (m_tWriter u) (lookup_image 71 64 0 ps) (length (lookup_image 71 64 0 ps))"
    using FinalizeNumeric_at[OF v(2) assms(2)] by blast
  show ?thesis using lw(1) v(1) u close_stands[OF u(2)]
    by (simp add: WriteDocidLookup_def DocidLookupWriter_Finalize_def Let_def)
qed

section \<open>Properties\<close>

lemma row_among_Nil: "row_among ps [] d = INVALID_ROWID"
  by (simp add: row_among_def)

lemma row_among_map_of:
  "row_among ps [0..<length ps] d =
    (case map_of (map (\<lambda>p. (m_tDocID p, m_tRowID p)) ps) d of None \<Rightarrow> INVALID_ROWID | Some w \<Rightarrow> w)"
proof (induction ps)
  case (Cons p ps)
  have "[0..<length (p # ps)] = 0 # map Suc [0..<length ps]" by (simp add: map_Suc_upt upt_conv_Cons del: upt_Suc)
  moreover have "row_among (p # ps) (map Suc is) d = row_among ps is d" for "is"
    by (induction "is") (simp_all add: row_among_Cons row_among_Nil)
  ultimately show ?case using Cons.IH by (simp add: row_among_Cons)
qed (simp add: row_among_Nil)

text \<open>C2: a lookup file written by \<^verbatim>\<open>WriteDocidLookup\<close>, with any buffer size, is opened by the reader, and \<^verbatim>\<open>Find\<close> on it
  returns for every docid whatsoever the row it was written with, and \<^verbatim>\<open>INVALID_ROWID\<close> for a docid that was not
  written: the checkpoint search and the delta decoding never read outside the file.\<close>

theorem lookup_find_correct:
  assumes "0 < n" "ps \<noteq> []" "docid_sorted ps" "lookup_fits 71 64 ps"
  shows "\<exists>f r. WriteDocidLookup n ps = Some (True, f) \<and>
    LookupReader_SetData (Some f) 71 LookupReader_new = Some (r, 0, of_nat (length ps)) \<and>
    (\<forall>d. LookupReader_Find r d =
      Some (case map_of (map (\<lambda>p. (m_tDocID p, m_tRowID p)) ps) d of None \<Rightarrow> INVALID_ROWID | Some w \<Rightarrow> w))"
proof -
  have "WriteDocidLookup n ps = Some (True, lookup_image 71 64 0 ps @ [])"
    using WriteDocidLookup_image[OF assms(1) _ sorted_asc[OF assms(3)]] assms(4) by (simp add: lookup_fits_def)
  moreover obtain r where "LookupReader_SetData (Some (lookup_image 71 64 0 ps @ [])) 71 LookupReader_new = Some (r, 0, of_nat (length ps))"
    "serves r 64 ps" using image_serves[OF assms(4,2), of 0 "[]" LookupReader_new] by auto
  ultimately show ?thesis using Find_spec[OF _ assms(3)] by (auto simp: row_among_map_of)
qed

theorem lookup_find_correct_witness:
  "\<exists>f r. WriteDocidLookup 8 [\<lparr>m_tDocID = 3, m_tRowID = 1\<rparr>, \<lparr>m_tDocID = 9, m_tRowID = 0\<rparr>] = Some (True, f) \<and>
    LookupReader_SetData (Some f) 71 LookupReader_new = Some (r, 0, 2) \<and>
    LookupReader_Find r 9 = Some 0 \<and> LookupReader_Find r 4 = Some INVALID_ROWID"
proof -
  let ?ps = "[\<lparr>m_tDocID = 3, m_tRowID = 1\<rparr>, \<lparr>m_tDocID = 9, m_tRowID = 0\<rparr>]"
  have fit: "lookup_fits 71 64 ?ps"
    by (simp add: lookup_fits_def length_image header_size_def blocks_def entries_def entry_bytes_def ZipValueBE_def
        zip_be_loop.simps sphCalcZippedLen_def zipped_len_loop.simps)
  have s: "docid_sorted ?ps" by (simp add: docid_sorted_def)
  from lookup_find_correct[OF _ _ s fit, of 8] obtain f r where *: "WriteDocidLookup 8 ?ps = Some (True, f)"
    "LookupReader_SetData (Some f) 71 LookupReader_new = Some (r, 0, of_nat (length ?ps))"
    "\<forall>d. LookupReader_Find r d =
      Some (case map_of (map (\<lambda>p. (m_tDocID p, m_tRowID p)) ?ps) d of None \<Rightarrow> INVALID_ROWID | Some w \<Rightarrow> w)" by auto
  show ?thesis using *(1,2) *(3)[rule_format, of 9] *(3)[rule_format, of 4] by (intro exI[of _ f] exI[of _ r]) simp
qed

end
