(* ===== verification/Docid_Format.thy ===== *)
theory Docid_Format
  imports Docid_Lookup_File
begin

text \<open>
  The layouts of the docid lookup file: \<^verbatim>\<open>CheckDocidLookupFormat\<close>, \<^verbatim>\<open>DetectDocidLookupVersion\<close> and the
  converter \<^verbatim>\<open>UpgradeDocidLookupFile\<close> of \<^verbatim>\<open>src/src/docidlookup.cpp\<close>, which turns a file of format 65 to 70
  into the layout with the UUID offset. Shown: the check never reads outside the data, accepts every
  file of the current layout, the version detection never reports an unknown layout, and the
  conversion yields exactly the image of the current layout, which for 64 docids per checkpoint is
  what the current writer writes for the same pairs.
\<close>

section \<open>Model\<close>

definition DOCID_LOOKUP_SPLIT_VERSION :: nat where "DOCID_LOOKUP_SPLIT_VERSION = 65"
definition DOCID_LOOKUP_SUSPECT_MIN :: nat where "DOCID_LOOKUP_SUSPECT_MIN = 71"
definition DOCID_LOOKUP_SUSPECT_MAX :: nat where "DOCID_LOOKUP_SUSPECT_MAX = 72"
definition DOCID_LOOKUP_UUID_VERSION :: nat where "DOCID_LOOKUP_UUID_VERSION = 71"

lemmas lookup_versions = DOCID_LOOKUP_SPLIT_VERSION_def DOCID_LOOKUP_SUSPECT_MIN_def DOCID_LOOKUP_SUSPECT_MAX_def
  DOCID_LOOKUP_UUID_VERSION_def

definition FixedIndexFormatVersion :: "nat \<Rightarrow> nat" where
  "FixedIndexFormatVersion uVersion = (if uVersion = 72 \<or> uVersion = 74 then 74 else 73)"

definition DocidLookupHeaderSize :: "nat \<Rightarrow> nat" where
  "DocidLookupHeaderSize uIndexVersion = (if uIndexVersion \<ge> DOCID_LOOKUP_UUID_VERSION then 4 * 2 + 8 + 8 else 4 * 2 + 8)"

text \<open>The messages of the check; the last one carries the version of the other layout if the data follows that.\<close>

datatype format_error =
    Too_Short nat
  | Zero_Docs_Per_Checkpoint
  | Table_Too_Short nat nat
  | Layout_Mismatch qword nat "nat option"

text \<open>The data is None for a null pointer. The outer option is None for a read outside the data; the inner
  value is None when the check passes. Sizes are 64-bit in the code; with a 32-bit number of docids
  they cannot overflow.\<close>

definition CheckDocidLookupFormat :: "byte list option \<Rightarrow> nat \<Rightarrow> format_error option option" where
  "CheckDocidLookupFormat pData uIndexVersion =
    (if uIndexVersion < DOCID_LOOKUP_SUSPECT_MIN \<or> uIndexVersion > DOCID_LOOKUP_SUSPECT_MAX then Some None
     else let iHeader = DocidLookupHeaderSize uIndexVersion in
     case pData of None \<Rightarrow> Some (Some (Too_Short 0))
     | Some d \<Rightarrow>
       if length d < iHeader then Some (Some (Too_Short (length d)))
       else do {
         nDocs \<leftarrow> read32 d 0;
         nPer \<leftarrow> read32 d 4;
         if nDocs = 0 then Some None
         else if nPer = 0 then Some (Some Zero_Docs_Per_Checkpoint)
         else let nCheckpoints = (unat nDocs + unat nPer - 1) div unat nPer;
                  iExpected = iHeader + nCheckpoints * 16 in
         if length d < iExpected then Some (Some (Table_Too_Short (length d) nCheckpoints))
         else do {
           tFirst \<leftarrow> read64 d (iHeader + 8);
           if tFirst = of_nat iExpected then Some None
           else
             let uOther = (if uIndexVersion \<ge> DOCID_LOOKUP_UUID_VERSION then DOCID_LOOKUP_UUID_VERSION - 1 else DOCID_LOOKUP_UUID_VERSION);
                 iOtherHeader = DocidLookupHeaderSize uOther;
                 iOtherExpected = iOtherHeader + nCheckpoints * 16 in
             do {
               b \<leftarrow> (if length d \<ge> iOtherExpected
                    then do { t \<leftarrow> read64 d (iOtherHeader + 8); Some (t = of_nat iOtherExpected) }
                    else Some False);
               Some (Some (Layout_Mismatch tFirst iExpected (if b then Some uOther else None)))
             }
         }
       })"

definition DetectDocidLookupVersion :: "byte list option \<Rightarrow> nat option" where
  "DetectDocidLookupVersion pData = do {
     e \<leftarrow> CheckDocidLookupFormat pData DOCID_LOOKUP_UUID_VERSION;
     if e = None then Some DOCID_LOOKUP_UUID_VERSION
     else do {
       e \<leftarrow> CheckDocidLookupFormat pData (DOCID_LOOKUP_UUID_VERSION - 1);
       if e = None then Some (DOCID_LOOKUP_UUID_VERSION - 1) else Some 0
     }
   }"

text \<open>The words of the converted checkpoint table.\<close>

fun shifted_checkpoints :: "byte list \<Rightarrow> nat \<Rightarrow> nat \<Rightarrow> nat \<Rightarrow> qword list option" where
  "shifted_checkpoints d p iShift 0 = Some []"
| "shifted_checkpoints d p iShift (Suc n) = do {
     b \<leftarrow> read64 d p;
     t \<leftarrow> read64 d (p + 8);
     ws \<leftarrow> shifted_checkpoints d (p + 16) iShift n;
     Some (b # (t + of_nat iShift) # ws)
   }"

text \<open>Writing the converted file: the result flag and the file afterwards. \<open>bRename\<close>: whether renaming the temporary
  file succeeds. None: a read outside the mapped file, or a negative length.\<close>

definition upgrade_write :: "nat \<Rightarrow> bool \<Rightarrow> byte list \<Rightarrow> nat \<Rightarrow> dword \<Rightarrow> dword \<Rightarrow> DocID_t \<Rightarrow> (bool \<times> byte list) option" where
  "upgrade_write iBufferSize bRename d uIndexVersion nDocs nPer tMaxDocID = do {
     let iOldHeader = DocidLookupHeaderSize uIndexVersion;
     let iShift = DocidLookupHeaderSize DOCID_LOOKUP_UUID_VERSION - iOldHeader;
     let nCheckpoints = (if nDocs \<noteq> 0 then (unat nDocs + unat nPer - 1) div unat nPer else 0);
     let iDataStart = iOldHeader + nCheckpoints * 16;
     w \<leftarrow> CSphWriter_PutDword nDocs (CSphWriter_OpenFile True iBufferSize);
     w \<leftarrow> CSphWriter_PutDword nPer w;
     w \<leftarrow> CSphWriter_PutOffset tMaxDocID w;
     w \<leftarrow> CSphWriter_PutOffset 0 w;
     ws \<leftarrow> shifted_checkpoints d iOldHeader iShift nCheckpoints;
     w \<leftarrow> put_offsets ws w;
     w \<leftarrow> (if length d < iDataStart then None else CSphWriter_PutBytes (drop iDataStart d) w);
     let w = CSphWriter_CloseFile w;
     if m_bError w then Some (False, d)
     else if \<not> bRename then Some (False, d)
     else Some (True, m_dDisk w)
   }"

text \<open>How the conversion can go wrong without reporting an error.\<close>

datatype upgrade_fault = Divides_By_Zero | Reads_Outside

definition UpgradeDocidLookupFile :: "nat \<Rightarrow> bool \<Rightarrow> byte list \<Rightarrow> nat \<Rightarrow> upgrade_fault + bool \<times> byte list" where
  "UpgradeDocidLookupFile iBufferSize bRename d uIndexVersion =
    (if uIndexVersion \<ge> DOCID_LOOKUP_UUID_VERSION \<or> uIndexVersion < DOCID_LOOKUP_SPLIT_VERSION then Inr (True, d)
     else case CheckDocidLookupFormat (Some d) uIndexVersion of
       None \<Rightarrow> Inl Reads_Outside
     | Some (Some _) \<Rightarrow> Inr (False, d)
     | Some None \<Rightarrow>
         (case do { nDocs \<leftarrow> read32 d 0; nPer \<leftarrow> read32 d 4; tMaxDocID \<leftarrow> read64 d 8; Some (nDocs, nPer, tMaxDocID) } of
            None \<Rightarrow> Inl Reads_Outside
          | Some (nDocs, nPer, tMaxDocID) \<Rightarrow>
              if nDocs \<noteq> 0 \<and> nPer = 0 then Inl Divides_By_Zero
              else case upgrade_write iBufferSize bRename d uIndexVersion nDocs nPer tMaxDocID of
                None \<Rightarrow> Inl Reads_Outside | Some x \<Rightarrow> Inr x))"

section \<open>Lemmas\<close>

lemma header_size_eq: "DocidLookupHeaderSize ver = header_size ver"
  by (simp add: DocidLookupHeaderSize_def header_size_def lookup_versions)

lemma read_some: "p + 4 \<le> length d \<Longrightarrow> \<exists>w. read32 d p = Some w" "p + 8 \<le> length d \<Longrightarrow> \<exists>w. read64 d p = Some w"
  by (simp_all add: read32_def read64_def read_at_def)

lemma checkpoints_pos: "nDocs \<noteq> 0 \<Longrightarrow> nPer \<noteq> 0 \<Longrightarrow> 1 \<le> (unat nDocs + unat nPer - 1) div unat nPer" for nDocs nPer :: dword
proof -
  assume a: "nDocs \<noteq> 0" "nPer \<noteq> 0"
  then have "0 < unat nDocs" "0 < unat nPer" by (auto simp: unat_gt_0)
  then have "unat nPer div unat nPer \<le> (unat nDocs + unat nPer - 1) div unat nPer" by (intro div_le_mono) linarith
  then show ?thesis using \<open>0 < unat nPer\<close> by simp
qed

text \<open>The check never reads outside the data.\<close>

lemma check_total: "\<exists>e. CheckDocidLookupFormat pData uIndexVersion = Some e"
proof (cases "uIndexVersion < 71 \<or> uIndexVersion > 72 \<or> pData = None")
  case True
  then show ?thesis by (auto simp: CheckDocidLookupFormat_def lookup_versions)
next
  case False
  then obtain d where d: "pData = Some d" and v: "71 \<le> uIndexVersion" "uIndexVersion \<le> 72" by auto
  show ?thesis
  proof (cases "length d < 24")
    case True
    then show ?thesis using v by (simp add: CheckDocidLookupFormat_def lookup_versions d header_size_eq header_size_def)
  next
    case False
    then obtain nDocs nPer where r: "read32 d 0 = Some nDocs" "read32 d 4 = Some nPer"
      using read_some(1)[of 0 d] read_some(1)[of 4 d] by auto
    show ?thesis
    proof (cases "nDocs = 0 \<or> nPer = 0 \<or> length d < 24 + (unat nDocs + unat nPer - 1) div unat nPer * 16")
      case True
      then show ?thesis using v False r
        by (auto simp: CheckDocidLookupFormat_def lookup_versions d header_size_eq header_size_def Let_def)
    next
      case False
      then have "24 + 16 \<le> length d" using checkpoints_pos[of nDocs nPer] by linarith
      then obtain a b where "read64 d 32 = Some a" "read64 d 24 = Some b"
        using read_some(2)[of 32 d] read_some(2)[of 24 d] by auto
      then show ?thesis using v False r
        by (auto simp: CheckDocidLookupFormat_def lookup_versions d header_size_eq header_size_def Let_def)
    qed
  qed
qed

lemma check_accepts:
  assumes "lookup_fits ver D ps" "ps \<noteq> []" "71 \<le> ver"
  shows "CheckDocidLookupFormat (Some (lookup_image ver D u ps @ tail)) uIndexVersion = Some None"
proof (cases "uIndexVersion < 71 \<or> uIndexVersion > 72")
  case True
  then show ?thesis by (auto simp: CheckDocidLookupFormat_def lookup_versions)
next
  case False
  let ?f = "lookup_image ver D u ps @ tail"
  have fit: "0 < D" "length ps + D \<le> 2 ^ 32" using assms(1) by (auto simp: lookup_fits_def)
  moreover have "0 < length ps" using assms(2) by simp
  ultimately have D32: "D < 2 ^ 32" "length ps < 2 ^ 32" by linarith+
  then have un: "unat (of_nat D :: dword) = D" "unat (of_nat (length ps) :: dword) = length ps" by (auto simp: unat_of_nat)
  have b: "0 < blocks D ps" using fit(1) assms(2) block_of[of D 0 ps] by simp
  note hd = image_read_header[of ver D u ps tail] and cp = image_read_checkpoint[OF b, of ver u tail]
  have "block_offset ver D ps 0 = 24 + blocks D ps * 16"
    using assms(3) by (simp add: block_offset_def header_size_def entries_def)
  moreover have "length ?f \<ge> 24 + blocks D ps * 16" using assms(3) by (simp add: length_image header_size_def)
  moreover have "(length ps + D - 1) div D = blocks D ps" by (simp add: blocks_def)
  moreover have "(of_nat D :: dword) \<noteq> 0" "(of_nat (length ps) :: dword) \<noteq> 0" using un fit(1) assms(2) by (metis unat_0 neq0_conv length_0_conv)+
  ultimately show ?thesis using False hd(1,2) cp(2) assms(3) un
    by (simp add: CheckDocidLookupFormat_def lookup_versions header_size_eq header_size_def Let_def)
qed

lemma shifted_image:
  assumes "k + n \<le> blocks D ps" "ver < 71"
  shows "shifted_checkpoints (lookup_image ver D u ps @ tail) (16 + 16 * k) 8 n =
    Some (concat (map (\<lambda>k. [doc ps (D * k), of_nat (block_offset 71 D ps k)]) [k..<k + n]))"
  using assms(1)
proof (induction n arbitrary: k)
  case (Suc n)
  have k: "k < blocks D ps" using Suc.prems by simp
  have e: "[k..<k + Suc n] = k # [Suc k..<Suc k + n]" by (simp add: upt_conv_Cons)
  have "header_size ver = 16" using assms(2) by (simp add: header_size_def)
  moreover have "of_nat (block_offset ver D ps k) + 8 = (of_nat (block_offset 71 D ps k) :: qword)"
    using assms(2) by (simp add: block_offset_def header_size_def)
  moreover have "16 + 16 * k + 16 = 16 + 16 * Suc k" by simp
  ultimately show ?case unfolding e using image_read_checkpoint[OF k, of ver u tail] Suc.IH[of "Suc k"] Suc.prems
    by (simp add: add_ac)
qed simp

lemma upgrade_image:
  assumes "lookup_fits ver D ps" "ps \<noteq> []" "65 \<le> ver" "ver < 71" "0 < n"
  shows "UpgradeDocidLookupFile n True (lookup_image ver D u ps @ tail) ver = Inr (True, lookup_image 71 D 0 ps @ tail)"
proof -
  let ?f = "lookup_image ver D u ps @ tail"
  have fit: "0 < D" "length ps + D \<le> 2 ^ 32" using assms(1) by (auto simp: lookup_fits_def)
  moreover have "0 < length ps" using assms(2) by simp
  ultimately have D32: "D < 2 ^ 32" "length ps < 2 ^ 32" by linarith+
  then have un: "unat (of_nat D :: dword) = D" "unat (of_nat (length ps) :: dword) = length ps" by (auto simp: unat_of_nat)
  have nz: "(of_nat D :: dword) \<noteq> 0" "(of_nat (length ps) :: dword) \<noteq> 0" using un fit(1) assms(2) by (metis unat_0 neq0_conv length_0_conv)+
  have hs: "header_size ver = 16" using assms(4) by (simp add: header_size_def)
  note hd = image_read_header[of ver D u ps tail]
  let ?ws = "concat (map (\<lambda>k. [doc ps (D * k), of_nat (block_offset 71 D ps k)]) [0..<blocks D ps])"
  let ?nD = "le_bytes 4 (of_nat (length ps) :: dword)" and ?nP = "le_bytes 4 (of_nat D :: dword)"
    and ?mx = "le_bytes 8 (doc ps (length ps - 1))" and ?z = "le_bytes 8 (0 :: qword)"
  have sh: "shifted_checkpoints ?f 16 8 (blocks D ps) = Some ?ws"
    using shifted_image[of 0 "blocks D ps" D ps ver u tail] assms(4) by simp
  obtain w1 where w1: "CSphWriter_PutDword (of_nat (length ps)) (CSphWriter_OpenFile True n) = Some w1" "stands_for w1 ?nD (length ?nD)"
    using PutBytes_stands[OF open_file[OF assms(5)], of ?nD] by (auto simp: CSphWriter_PutDword_def)
  obtain w2 where w2: "CSphWriter_PutDword (of_nat D) w1 = Some w2" "stands_for w2 (?nD @ ?nP) (length (?nD @ ?nP))"
    using append_bytes[OF w1(2), of ?nP] by (auto simp: CSphWriter_PutDword_def)
  obtain w3 where w3: "CSphWriter_PutOffset (doc ps (length ps - 1)) w2 = Some w3" "stands_for w3 ((?nD @ ?nP) @ ?mx) (length ((?nD @ ?nP) @ ?mx))"
    using append_bytes[OF w2(2), of ?mx] by (auto simp: CSphWriter_PutOffset_def)
  obtain w4 where w4: "CSphWriter_PutOffset 0 w3 = Some w4" "stands_for w4 (((?nD @ ?nP) @ ?mx) @ ?z) (length (((?nD @ ?nP) @ ?mx) @ ?z))"
    using append_bytes[OF w3(2), of ?z] by (auto simp: CSphWriter_PutOffset_def)
  let ?h = "((?nD @ ?nP) @ ?mx) @ ?z"
  have tb: "concat (map (le_bytes 8) ?ws) = table_bytes 71 D ps"
    unfolding concat_pairs by (simp add: table_bytes_def checkpoint_bytes_def[abs_def])
  have "length ?h + 8 * length ?ws = length (?h @ table_bytes 71 D ps)" by (simp add: length_concat comp_def sum_list_triv)
  then obtain w5 where w5: "put_offsets ?ws w4 = Some w5" "stands_for w5 (?h @ table_bytes 71 D ps) (length (?h @ table_bytes 71 D ps))"
    using put_offsets_stands[OF w4(2), of ?ws] unfolding tb overwrite_end by auto
  have dr: "drop (16 + blocks D ps * 16) ?f = entries D ps 0 (length ps) @ tail"
    using image_entries[of 0 ps ver D u tail] hs by (simp add: entries_def mult.commute add.commute)
  have img: "(?h @ table_bytes 71 D ps) @ entries D ps 0 (length ps) @ tail = lookup_image 71 D 0 ps @ tail"
    using assms(2) by (simp add: lookup_image_def header_bytes_def)
  obtain w6 where w6: "CSphWriter_PutBytes (entries D ps 0 (length ps) @ tail) w5 = Some w6"
    "stands_for w6 (lookup_image 71 D 0 ps @ tail) (length (lookup_image 71 D 0 ps @ tail))"
    using append_bytes[OF w5(2), of "entries D ps 0 (length ps) @ tail", unfolded img] by blast
  have len: "\<not> length ?f < 16 + blocks D ps * 16" using hs by (simp add: length_image)
  have mx: "read64 ?f 8 = Some (doc ps (length ps - 1))" using hd(3) assms(2) by simp
  have ck: "CheckDocidLookupFormat (Some ?f) ver = Some None" using assms(4) by (simp add: CheckDocidLookupFormat_def lookup_versions)
  have v: "\<not> (71 \<le> ver \<or> ver < 65)" using assms by simp
  have hz: "header_size 71 - 16 = 8" "(length ps + D - 1) div D = blocks D ps" by (simp_all add: header_size_def blocks_def)
  have "upgrade_write n True ?f ver (of_nat (length ps)) (of_nat D) (doc ps (length ps - 1)) = Some (True, lookup_image 71 D 0 ps @ tail)"
    unfolding upgrade_write_def lookup_versions header_size_eq hs hz Let_def if_P[OF nz(2)] un w1(1) w2(1) w3(1) w4(1) bind.bind_lunit sh w5(1)
      if_not_P[OF len] dr w6(1)
    using close_stands[OF w6(2)] by simp
  then show ?thesis
    unfolding UpgradeDocidLookupFile_def lookup_versions if_not_P[OF v] ck hd(1,2) mx by (simp add: nz)
qed

section \<open>Properties\<close>

text \<open>C25: converting a lookup file of format 65 to 70 (with any number of docids per checkpoint) yields, byte for byte, the file that
  the layout of format 71 prescribes for the same pairs; when the file has 64 docids per checkpoint and they ascend,
  this is what \<^verbatim>\<open>WriteDocidLookup\<close>, the current writer, writes for the pairs. If no docid repeats, \<^verbatim>\<open>Find\<close> on the
  converted file answers every docid as on the old one. The converted file passes the format check for every version.\<close>

theorem upgrade_preserves:
  assumes "lookup_fits ver D ps" "lookup_fits 71 D ps" "ps \<noteq> []" "65 \<le> ver" "ver < 71" "0 < n"
  shows "\<exists>f r r'. UpgradeDocidLookupFile n True (lookup_image ver D u ps) ver = Inr (True, f) \<and> f = lookup_image 71 D 0 ps \<and>
    (D = DOCS_PER_LOOKUP_CHECKPOINT \<and> docid_asc ps \<longrightarrow> (\<forall>b > 0. WriteDocidLookup b ps = Some (True, f))) \<and>
    LookupReader_SetData (Some (lookup_image ver D u ps)) ver LookupReader_new = Some (r, 0, of_nat (length ps)) \<and>
    LookupReader_SetData (Some f) 71 LookupReader_new = Some (r', 0, of_nat (length ps)) \<and>
    (docid_sorted ps \<longrightarrow> (\<forall>d. LookupReader_Find r' d \<noteq> None \<and> LookupReader_Find r' d = LookupReader_Find r d)) \<and>
    (\<forall>v. CheckDocidLookupFormat (Some f) v = Some None)"
proof -
  obtain r where r: "LookupReader_SetData (Some (lookup_image ver D u ps)) ver LookupReader_new = Some (r, 0, of_nat (length ps))" "serves r D ps"
    using image_serves[OF assms(1,3), of u "[]" LookupReader_new] assms(5) by auto
  obtain r' where r': "LookupReader_SetData (Some (lookup_image 71 D 0 ps)) 71 LookupReader_new = Some (r', 0, of_nat (length ps))" "serves r' D ps"
    using image_serves[OF assms(2,3), of 0 "[]" LookupReader_new] by auto
  have "UpgradeDocidLookupFile n True (lookup_image ver D u ps) ver = Inr (True, lookup_image 71 D 0 ps)"
    using upgrade_image[OF assms(1,3-6), of u "[]"] by simp
  moreover have "WriteDocidLookup b ps = Some (True, lookup_image 71 D 0 ps)" if "D = DOCS_PER_LOOKUP_CHECKPOINT" "docid_asc ps" "0 < b" for b
    using WriteDocidLookup_image[OF that(3) _ that(2)] assms(1) that(1) by (simp add: lookup_fits_def DOCS_PER_LOOKUP_CHECKPOINT_def)
  moreover have "LookupReader_Find r' d \<noteq> None \<and> LookupReader_Find r' d = LookupReader_Find r d" if "docid_sorted ps" for d
    using Find_spec[OF r(2) that] Find_spec[OF r'(2) that] by simp
  ultimately show ?thesis using r(1) r'(1) check_accepts[OF assms(2,3), of 0 "[]", unfolded append_Nil2]
    by (intro exI[of _ "lookup_image 71 D 0 ps"] exI[of _ r] exI[of _ r']) blast
qed

theorem upgrade_preserves_witness:
  "\<exists>f. UpgradeDocidLookupFile 16 True (lookup_image 70 64 0 [\<lparr>m_tDocID = 3, m_tRowID = 1\<rparr>, \<lparr>m_tDocID = 9, m_tRowID = 0\<rparr>]) 70 = Inr (True, f) \<and>
    WriteDocidLookup 32 [\<lparr>m_tDocID = 3, m_tRowID = 1\<rparr>, \<lparr>m_tDocID = 9, m_tRowID = 0\<rparr>] = Some (True, f)"
proof -
  let ?ps = "[\<lparr>m_tDocID = 3, m_tRowID = 1\<rparr>, \<lparr>m_tDocID = 9, m_tRowID = 0\<rparr>]"
  have "lookup_fits 70 64 ?ps" "lookup_fits 71 64 ?ps"
    by (simp_all add: lookup_fits_def length_image header_size_def blocks_def entries_def entry_bytes_def ZipValueBE_def
        zip_be_loop.simps sphCalcZippedLen_def zipped_len_loop.simps)
  moreover have "docid_asc ?ps" by (simp add: docid_asc_def)
  ultimately show ?thesis using upgrade_preserves[of 70 64 ?ps 16 0] by (auto simp: DOCS_PER_LOOKUP_CHECKPOINT_def)
qed

text \<open>C26: the check and the detection return for any data whatsoever, also for a null pointer or a file cut anywhere,
  without reading outside it; the detection reports version 71 or 70 and never 0 for an unknown layout, because
  the check accepts every version outside 71 and 72.\<close>

theorem detect_never_unknown:
  "(\<exists>e. CheckDocidLookupFormat pData v = Some e) \<and>
   (DetectDocidLookupVersion pData = Some 71 \<or> DetectDocidLookupVersion pData = Some 70)"
proof -
  obtain e where e: "CheckDocidLookupFormat pData 71 = Some e" using check_total by blast
  moreover have "CheckDocidLookupFormat pData 70 = Some None" by (simp add: CheckDocidLookupFormat_def lookup_versions)
  ultimately show ?thesis using check_total by (auto simp: DetectDocidLookupVersion_def lookup_versions)
qed

text \<open>A file whose header names docids but no docids per checkpoint makes the conversion divide by zero; the checkpoint table
  is not looked at before.\<close>

lemma upgrade_zero_per_checkpoint:
  assumes "65 \<le> ver" "ver < 71" "read32 d 0 = Some nDocs" "nDocs \<noteq> 0" "read32 d 4 = Some 0" "read64 d 8 = Some m"
  shows "UpgradeDocidLookupFile n b d ver = Inl Divides_By_Zero"
  using assms by (simp add: UpgradeDocidLookupFile_def CheckDocidLookupFormat_def lookup_versions)

end
