(* ===== verification/Uuid_Lookup.thy ===== *)
theory Uuid_Lookup
  imports Docid_Lookup_File
begin

text \<open>
  The UUID section of the docid lookup file: \<^verbatim>\<open>WriteDocidLookup\<close> with UUIDs, which appends the sorted keys after the numeric
  part and patches their offset into the header, and \<^verbatim>\<open>UuidLookupReader_c\<close>, which searches them by
  bisection (\<^verbatim>\<open>src/src/docidlookup.cpp\<close>). Shown: the section round-trips, and the numeric part is not disturbed.
\<close>

section \<open>Model\<close>

record UuidDocidKey_t =
  m_uHi :: qword
  m_uLo :: qword

record UuidDocidLookupPair_t =
  m_tKey :: UuidDocidKey_t
  u_tDocID :: DocID_t

definition SameUuidKey :: "UuidDocidKey_t \<Rightarrow> UuidDocidKey_t \<Rightarrow> bool" where
  "SameUuidKey a b \<longleftrightarrow> m_uHi a = m_uHi b \<and> m_uLo a = m_uLo b"

definition LessUuidKey :: "UuidDocidKey_t \<Rightarrow> UuidDocidKey_t \<Rightarrow> bool" where
  "LessUuidKey a b = (if m_uHi a = m_uHi b then m_uLo a < m_uLo b else m_uHi a < m_uHi b)"

text \<open>The loop that appends the entries; a failed assertion is None.\<close>

fun put_uuids :: "UuidDocidKey_t option \<Rightarrow> UuidDocidLookupPair_t list \<Rightarrow> CSphWriter \<Rightarrow> CSphWriter option" where
  "put_uuids prev [] w = Some w"
| "put_uuids prev (p # ps) w =
    (if u_tDocID p = 0 \<or> (case prev of None \<Rightarrow> False | Some q \<Rightarrow> \<not> LessUuidKey q (m_tKey p)) then None
     else do {
       w \<leftarrow> CSphWriter_PutOffset (m_uHi (m_tKey p)) w;
       w \<leftarrow> CSphWriter_PutOffset (m_uLo (m_tKey p)) w;
       w \<leftarrow> CSphWriter_PutOffset (u_tDocID p) w;
       put_uuids (Some (m_tKey p)) ps w
     })"

definition WriteDocidLookup_uuid :: "nat \<Rightarrow> DocidRowidPair_t list \<Rightarrow> UuidDocidLookupPair_t list \<Rightarrow> (bool \<times> byte list) option" where
  "WriteDocidLookup_uuid iBufferSize dLookup dUuidLookup =
    (if length dUuidLookup \<noteq> length dLookup then None
     else do {
       lw \<leftarrow> DocidLookupWriter_Start (DocidLookupWriter_new (CSphWriter_OpenFile True iBufferSize) (of_nat (length dLookup)));
       lw \<leftarrow> add_pairs dLookup lw;
       (ok, lw) \<leftarrow> DocidLookupWriter_FinalizeNumeric lw;
       if \<not> ok then Some (False, m_dDisk (m_tWriter lw))
       else do {
         let tEntriesOffset = CSphWriter_GetPos (m_tWriter lw);
         lw \<leftarrow> DocidLookupWriter_SetUuidLookupOffset (of_nat tEntriesOffset) lw;
         w \<leftarrow> put_uuids None dUuidLookup (m_tWriter lw);
         let w = CSphWriter_CloseFile w;
         Some (\<not> m_bError w, m_dDisk w)
       }
     })"

text \<open>\<^verbatim>\<open>m_pEntries\<close> is the position of the first entry in the data; None is the null pointer.\<close>

record UuidLookupReader_c =
  m_pUuidData :: "byte list"
  m_pEntries :: "nat option"
  u_nDocs :: dword

definition UuidLookupReader_SetData :: "byte list \<Rightarrow> SphOffset_t \<Rightarrow> dword \<Rightarrow> UuidLookupReader_c" where
  "UuidLookupReader_SetData pData tEntriesOffset nDocs =
    (if tEntriesOffset = 0 then \<lparr>m_pUuidData = pData, m_pEntries = None, u_nDocs = 0\<rparr>
     else \<lparr>m_pUuidData = pData, m_pEntries = Some (unat tEntriesOffset), u_nDocs = nDocs\<rparr>)"

definition UuidLookupReader_Get :: "UuidLookupReader_c \<Rightarrow> dword \<Rightarrow> UuidDocidLookupPair_t option" where
  "UuidLookupReader_Get r uEntry =
    (if \<not> uEntry < u_nDocs r then None
     else do {
       p \<leftarrow> m_pEntries r;
       let p = p + unat uEntry * 24;
       hi \<leftarrow> read64 (m_pUuidData r) p;
       lo \<leftarrow> read64 (m_pUuidData r) (p + 8);
       d \<leftarrow> read64 (m_pUuidData r) (p + 16);
       Some \<lparr>m_tKey = \<lparr>m_uHi = hi, m_uLo = lo\<rparr>, u_tDocID = d\<rparr>
     })"

lemma mid_word:
  assumes "uBegin < (uEnd :: dword)"
  shows "unat (uBegin + (uEnd - uBegin) div 2) = (unat uBegin + unat uEnd) div 2"
    "unat (uBegin + (uEnd - uBegin) div 2 + 1) = (unat uBegin + unat uEnd) div 2 + 1"
proof -
  let ?m = "uBegin + (uEnd - uBegin) div 2"
  have b: "unat uBegin < unat uEnd" "unat uEnd < 2 ^ 32" using assms unsigned_less[of uEnd] by (simp_all add: word_less_nat_alt)
  then have "unat ((uEnd - uBegin) div 2) = (unat uEnd - unat uBegin) div 2" by (simp add: unat_div unat_sub word_le_nat_alt)
  then have "unat uBegin + unat ((uEnd - uBegin) div 2) = (unat uBegin + unat uEnd) div 2" using b by linarith
  moreover have "(unat uBegin + unat uEnd) div 2 + 1 < 2 ^ 32" using b by linarith
  ultimately show "unat ?m = (unat uBegin + unat uEnd) div 2" by (simp add: unat_word_ariths(1))
  with \<open>(unat uBegin + unat uEnd) div 2 + 1 < 2 ^ 32\<close> show "unat (?m + 1) = (unat uBegin + unat uEnd) div 2 + 1"
    by (subst unat_word_ariths(1)) simp
qed

function uuid_search :: "UuidLookupReader_c \<Rightarrow> UuidDocidKey_t \<Rightarrow> dword \<Rightarrow> dword \<Rightarrow> dword option" where
  "uuid_search r tKey uBegin uEnd =
    (if uBegin < uEnd then
       let uMid = uBegin + (uEnd - uBegin) div 2 in
       case UuidLookupReader_Get r uMid of None \<Rightarrow> None
       | Some tPair \<Rightarrow>
           if LessUuidKey (m_tKey tPair) tKey then uuid_search r tKey (uMid + 1) uEnd
           else uuid_search r tKey uBegin uMid
     else Some uBegin)"
  by auto
termination
  by (relation "measure (\<lambda>(_, _, b, e). unat e - unat b)") (auto simp: mid_word word_less_nat_alt)

declare uuid_search.simps [simp del]

definition UuidLookupReader_Find :: "UuidLookupReader_c \<Rightarrow> UuidDocidKey_t \<Rightarrow> DocID_t option" where
  "UuidLookupReader_Find r tKey = do {
     uBegin \<leftarrow> uuid_search r tKey 0 (u_nDocs r);
     if uBegin = u_nDocs r then Some 0
     else do {
       tPair \<leftarrow> UuidLookupReader_Get r uBegin;
       Some (if SameUuidKey (m_tKey tPair) tKey then u_tDocID tPair else 0)
     }
   }"

section \<open>Order of the keys\<close>

lemma same_uuid [simp]: "SameUuidKey a b \<longleftrightarrow> a = b" for a b :: UuidDocidKey_t
  by (cases a; cases b) (auto simp: SameUuidKey_def)

lemma less_uuid_trans: "LessUuidKey a b \<Longrightarrow> LessUuidKey b c \<Longrightarrow> LessUuidKey a c"
  by (auto simp: LessUuidKey_def split: if_splits)

lemma less_uuid_irrefl: "\<not> LessUuidKey a a"
  by (simp add: LessUuidKey_def)

lemma less_uuid_total: "a \<noteq> b \<Longrightarrow> \<not> LessUuidKey a b \<Longrightarrow> LessUuidKey b a" for a b :: UuidDocidKey_t
  by (cases a; cases b) (auto simp: LessUuidKey_def split: if_splits)

abbreviation uuid_sorted :: "UuidDocidLookupPair_t list \<Rightarrow> bool" where
  "uuid_sorted us \<equiv> sorted_wrt (\<lambda>a b. LessUuidKey (m_tKey a) (m_tKey b)) us"

definition uuid_bytes :: "UuidDocidLookupPair_t \<Rightarrow> byte list" where
  "uuid_bytes u = le_bytes 8 (m_uHi (m_tKey u)) @ le_bytes 8 (m_uLo (m_tKey u)) @ le_bytes 8 (u_tDocID u)"

lemma length_uuid_bytes [simp]: "length (uuid_bytes u) = 24"
  by (simp add: uuid_bytes_def)

text \<open>What a UUID reader serves.\<close>

definition uuid_serves :: "UuidLookupReader_c \<Rightarrow> UuidDocidLookupPair_t list \<Rightarrow> bool" where
  "uuid_serves r us \<longleftrightarrow> unat (u_nDocs r) = length us \<and> (us \<noteq> [] \<longrightarrow> (\<exists>p. m_pEntries r = Some p \<and>
    drop p (m_pUuidData r) = concat (map uuid_bytes us)))"

lemma Get_serves:
  assumes "uuid_serves r us" "unat i < length us"
  shows "UuidLookupReader_Get r i = Some (us ! unat i)"
proof -
  have "us \<noteq> []" using assms(2) by auto
  then obtain p where p: "m_pEntries r = Some p" "drop p (m_pUuidData r) = concat (map uuid_bytes us)"
    and n: "unat (u_nDocs r) = length us" using assms(1) by (auto simp: uuid_serves_def)
  let ?d = "m_pUuidData r" and ?u = "us ! unat i" and ?q = "p + unat i * 24"
  let ?r = "concat (map (\<lambda>k. uuid_bytes (us ! k)) [Suc (unat i)..<length us])"
  have m: "map uuid_bytes us = map (\<lambda>k. uuid_bytes (us ! k)) [0..<length us]" by (intro nth_equalityI) auto
  have "drop (24 * unat i) (concat (map uuid_bytes us)) = uuid_bytes ?u @ ?r"
    unfolding m by (rule drop_concat_blocks) (simp_all add: assms(2))
  moreover have "drop ?q ?d = drop (24 * unat i) (drop p ?d)" by (simp add: add.commute mult.commute)
  ultimately have d: "drop ?q ?d = uuid_bytes ?u @ ?r" by (simp only: p(2))
  have e: "drop (?q + k) ?d = drop k (uuid_bytes ?u @ ?r)" for k
    by (simp only: d[symmetric] drop_drop add.commute)
  have "read64 ?d ?q = Some (m_uHi (m_tKey ?u))" by (rule read64_image) (simp add: d uuid_bytes_def)
  moreover have "read64 ?d (?q + 8) = Some (m_uLo (m_tKey ?u))"
    by (rule read64_image) (simp only: e, simp add: uuid_bytes_def)
  moreover have "read64 ?d (?q + 16) = Some (u_tDocID ?u)"
    by (rule read64_image) (simp only: e, simp add: uuid_bytes_def)
  ultimately show ?thesis using p(1) n assms(2)
    by (simp add: UuidLookupReader_Get_def Let_def word_less_nat_alt)
qed

lemma uuid_search_spec:
  assumes "uuid_serves r us" "uuid_sorted us" "b \<le> e" "unat e \<le> length us"
    "\<forall>j < unat b. LessUuidKey (m_tKey (us ! j)) k"
    "\<forall>j. unat e \<le> j \<longrightarrow> j < length us \<longrightarrow> \<not> LessUuidKey (m_tKey (us ! j)) k"
  shows "\<exists>i. uuid_search r k b e = Some i \<and> unat i \<le> length us \<and>
    (\<forall>j < unat i. LessUuidKey (m_tKey (us ! j)) k) \<and> (\<forall>j. unat i \<le> j \<longrightarrow> j < length us \<longrightarrow> \<not> LessUuidKey (m_tKey (us ! j)) k)"
  using assms
proof (induction r k b e rule: uuid_search.induct)
  case (1 r k b e)
  show ?case
  proof (cases "b < e")
    case False
    then have "b = e" using 1(5) by simp
    then show ?thesis using 1 by (subst uuid_search.simps) auto
  next
    case True
    let ?m = "b + (e - b) div 2"
    have m: "unat ?m = (unat b + unat e) div 2" "unat (?m + 1) = (unat b + unat e) div 2 + 1" using mid_word[OF True] by auto
    have be: "unat b < unat e" using True by (simp add: word_less_nat_alt)
    then have lt: "unat ?m < length us" using 1(6) m by linarith
    note g = Get_serves[OF 1(3) lt]
    have sm: "LessUuidKey (m_tKey (us ! i)) (m_tKey (us ! j))" if "i < j" "j < length us" for i j
      using 1(4) that by (simp add: sorted_wrt_iff_nth_less)
    show ?thesis
    proof (cases "LessUuidKey (m_tKey (us ! unat ?m)) k")
      case less: True
      have "LessUuidKey (m_tKey (us ! j)) k" if "j < unat (?m + 1)" for j
      proof (cases "j = unat ?m")
        case False
        then have "j < unat ?m" using that m by linarith
        from less_uuid_trans[OF sm[OF this lt] less] show ?thesis .
      qed (simp add: less)
      then have "\<exists>i. uuid_search r k (?m + 1) e = Some i \<and> unat i \<le> length us \<and>
        (\<forall>j < unat i. LessUuidKey (m_tKey (us ! j)) k) \<and> (\<forall>j. unat i \<le> j \<longrightarrow> j < length us \<longrightarrow> \<not> LessUuidKey (m_tKey (us ! j)) k)"
        using be m by (intro 1(1)[OF True refl g less 1(3,4) _ 1(6) _ 1(8)]) (simp_all add: word_le_nat_alt)
      moreover have "uuid_search r k b e = uuid_search r k (?m + 1) e"
        by (subst uuid_search.simps) (simp only: True g less Let_def option.case if_True)
      ultimately show ?thesis by simp
    next
      case ge: False
      have "\<not> LessUuidKey (m_tKey (us ! j)) k" if "unat ?m \<le> j" "j < length us" for j
      proof (cases "j = unat ?m")
        case False
        then have "unat ?m < j" using that(1) by linarith
        then show ?thesis using less_uuid_trans[OF sm[OF _ that(2)]] ge by blast
      qed (simp only: ge not_False_eq_True)
      then have "\<exists>i. uuid_search r k b ?m = Some i \<and> unat i \<le> length us \<and>
        (\<forall>j < unat i. LessUuidKey (m_tKey (us ! j)) k) \<and> (\<forall>j. unat i \<le> j \<longrightarrow> j < length us \<longrightarrow> \<not> LessUuidKey (m_tKey (us ! j)) k)"
        using be m lt by (intro 1(2)[OF True refl g ge 1(3,4) _ _ 1(7)]) (simp_all add: word_le_nat_alt)
      moreover have "uuid_search r k b e = uuid_search r k b ?m"
        by (subst uuid_search.simps) (simp only: True g ge Let_def option.case if_True if_False)
      ultimately show ?thesis by simp
    qed
  qed
qed

lemma uuid_sorted_distinct: "uuid_sorted us \<Longrightarrow> distinct (map m_tKey us)"
  by (induction us) (auto simp: less_uuid_irrefl image_iff)

lemma uuid_find_serves:
  assumes "uuid_serves r us" "uuid_sorted us"
  shows "UuidLookupReader_Find r k =
    Some (case map_of (map (\<lambda>u. (m_tKey u, u_tDocID u)) us) k of None \<Rightarrow> 0 | Some d \<Rightarrow> d)"
proof -
  have n: "unat (u_nDocs r) = length us" using assms(1) by (simp add: uuid_serves_def)
  obtain i where i: "uuid_search r k 0 (u_nDocs r) = Some i" "unat i \<le> length us"
    "\<forall>j < unat i. LessUuidKey (m_tKey (us ! j)) k" "\<forall>j. unat i \<le> j \<longrightarrow> j < length us \<longrightarrow> \<not> LessUuidKey (m_tKey (us ! j)) k"
    using uuid_search_spec[OF assms, of 0 "u_nDocs r" k] n by auto
  have ne: "m_tKey (us ! j) \<noteq> k" if "j < length us" "j \<noteq> unat i \<or> m_tKey (us ! unat i) \<noteq> k" for j
  proof -
    consider "j < unat i" | "j = unat i" | "unat i < j" by linarith
    then show ?thesis
    proof cases
      case 1
      then have "LessUuidKey (m_tKey (us ! j)) k" using i(3) by blast
      then show ?thesis using less_uuid_irrefl by blast
    next
      case 2
      then show ?thesis using that(2) by blast
    next
      case 3
      then have "LessUuidKey (m_tKey (us ! unat i)) (m_tKey (us ! j))" using assms(2) that(1) by (simp add: sorted_wrt_iff_nth_less)
      moreover have "\<not> LessUuidKey (m_tKey (us ! unat i)) k" using i(4) 3 that(1) by simp
      ultimately show ?thesis by blast
    qed
  qed
  show ?thesis
  proof (cases "unat i < length us \<and> m_tKey (us ! unat i) = k")
    case True
    have "distinct (map fst (map (\<lambda>u. (m_tKey u, u_tDocID u)) us))"
      using uuid_sorted_distinct[OF assms(2)] by (simp add: comp_def)
    moreover have "(k, u_tDocID (us ! unat i)) \<in> set (map (\<lambda>u. (m_tKey u, u_tDocID u)) us)" using True by auto
    ultimately have "map_of (map (\<lambda>u. (m_tKey u, u_tDocID u)) us) k = Some (u_tDocID (us ! unat i))"
      by (rule map_of_is_SomeI)
    moreover have "i \<noteq> u_nDocs r" using True n by auto
    ultimately show ?thesis using i(1) True Get_serves[OF assms(1), of i] by (simp add: UuidLookupReader_Find_def)
  next
    case False
    have "m_tKey u \<noteq> k" if "u \<in> set us" for u
    proof -
      obtain j where "j < length us" "u = us ! j" using \<open>u \<in> set us\<close> by (auto simp: in_set_conv_nth)
      then show ?thesis using ne[of j] False by blast
    qed
    then have m: "map_of (map (\<lambda>u. (m_tKey u, u_tDocID u)) us) k = None" by (force simp: map_of_eq_None_iff)
    show ?thesis
    proof (cases "i = u_nDocs r")
      case True
      then show ?thesis using i(1) m by (simp add: UuidLookupReader_Find_def)
    next
      case ne: False
      then have "unat i < length us" using i(2) n by (metis le_neq_implies_less word_unat_eq_iff)
      then show ?thesis using i(1) m ne False Get_serves[OF assms(1), of i] by (simp add: UuidLookupReader_Find_def)
    qed
  qed
qed

section \<open>The written file\<close>

lemma put_uuids_stands:
  assumes "stands_for w f (length f)" "uuid_sorted us" "\<forall>u \<in> set us. u_tDocID u \<noteq> 0"
    "\<And>q u. prev = Some q \<Longrightarrow> u \<in> set us \<Longrightarrow> LessUuidKey q (m_tKey u)"
  shows "\<exists>w'. put_uuids prev us w = Some w' \<and> stands_for w' (f @ concat (map uuid_bytes us)) (length (f @ concat (map uuid_bytes us)))"
  using assms
proof (induction us arbitrary: prev w f)
  case (Cons u us)
  obtain w1 where w1: "CSphWriter_PutOffset (m_uHi (m_tKey u)) w = Some w1" "stands_for w1 (f @ le_bytes 8 (m_uHi (m_tKey u))) (length (f @ le_bytes 8 (m_uHi (m_tKey u))))"
    using append_bytes[OF Cons.prems(1), of "le_bytes 8 (m_uHi (m_tKey u))"] unfolding CSphWriter_PutOffset_def by blast
  obtain w2 where w2: "CSphWriter_PutOffset (m_uLo (m_tKey u)) w1 = Some w2"
    "stands_for w2 ((f @ le_bytes 8 (m_uHi (m_tKey u))) @ le_bytes 8 (m_uLo (m_tKey u))) (length ((f @ le_bytes 8 (m_uHi (m_tKey u))) @ le_bytes 8 (m_uLo (m_tKey u))))"
    using append_bytes[OF w1(2), of "le_bytes 8 (m_uLo (m_tKey u))"] unfolding CSphWriter_PutOffset_def by blast
  obtain w3 where w3: "CSphWriter_PutOffset (u_tDocID u) w2 = Some w3" "stands_for w3 (f @ uuid_bytes u) (length (f @ uuid_bytes u))"
    using append_bytes[OF w2(2), of "le_bytes 8 (u_tDocID u)"] by (auto simp: CSphWriter_PutOffset_def uuid_bytes_def)
  have "\<exists>w'. put_uuids (Some (m_tKey u)) us w3 = Some w' \<and>
    stands_for w' ((f @ uuid_bytes u) @ concat (map uuid_bytes us)) (length ((f @ uuid_bytes u) @ concat (map uuid_bytes us)))"
    using Cons.prems by (intro Cons.IH[OF w3(2)]) auto
  then show ?case using Cons.prems(3,4) w1(1) w2(1) w3(1) by (auto split: option.split)
qed simp

lemma header_uuid_split: "lookup_image 71 D u ps = take 16 (lookup_image 71 D 0 ps) @ le_bytes 8 u @ drop 24 (lookup_image 71 D 0 ps)"
  by (simp add: lookup_image_def header_bytes_def)

lemma write_uuid_image:
  assumes "0 < n" "ps \<noteq> []" "docid_asc ps" "length ps + 64 \<le> 2 ^ 32" "length us = length ps" "uuid_sorted us" "\<forall>u \<in> set us. u_tDocID u \<noteq> 0"
  shows "WriteDocidLookup_uuid n ps us =
    Some (True, lookup_image 71 64 (of_nat (length (lookup_image 71 64 0 ps))) ps @ concat (map uuid_bytes us))"
proof -
  let ?i = "lookup_image 71 64 0 ps" and ?u = "of_nat (length (lookup_image 71 64 0 ps)) :: qword"
  obtain lw where lw: "DocidLookupWriter_Start (DocidLookupWriter_new (CSphWriter_OpenFile True n) (of_nat (length ps))) = Some lw" "writer_at lw ps 0"
    using Start_at[OF assms(1,4)] by blast
  obtain v where v: "add_pairs ps lw = Some v" "writer_at v ps (length ps)" using add_pairs_at[OF assms(3) lw(2)] by auto
  obtain x where x: "DocidLookupWriter_FinalizeNumeric v = Some (True, x)" "stands_for (m_tWriter x) ?i (length ?i)"
    "m_tUuidLookupOffsetPos x = 16" "m_dPool (m_tWriter x) = []"
    using FinalizeNumeric_at[OF v(2) assms(4)] assms(2) by blast
  have pos: "CSphWriter_GetPos (m_tWriter x) = length ?i" using x(2) by (simp add: CSphWriter_GetPos_def stands_for_def)
  have l: "24 \<le> length ?i" by (simp add: length_image header_size_def)
  obtain w1 where w1: "CSphWriter_PutOffset ?u (CSphWriter_SeekTo 16 (m_tWriter x)) = Some w1" "stands_for w1 (overwrite ?i 16 (le_bytes 8 ?u)) 24"
    using PutBytes_stands[OF SeekTo_flushed(1)[OF x(2,4), of 16], of "le_bytes 8 ?u"] by (auto simp: CSphWriter_PutOffset_def)
  have "?i = take 16 ?i @ take 8 (drop 16 ?i) @ drop 8 (drop 16 ?i)" by (simp only: append_take_drop_id)
  then have "?i = take 16 ?i @ take 8 (drop 16 ?i) @ drop 24 ?i" by simp
  then have "overwrite ?i 16 (le_bytes 8 ?u) = lookup_image 71 64 ?u ps"
    using overwrite_mid[of "take 16 ?i" 16 "take 8 (drop 16 ?i)" "le_bytes 8 ?u" "drop 24 ?i"] l header_uuid_split[of 64 ?u ps] by simp
  then have w2: "stands_for (CSphWriter_SeekTo (length ?i) w1) (lookup_image 71 64 ?u ps) (length (lookup_image 71 64 ?u ps))"
    using SeekTo_forward[OF w1(2) l] by (simp add: length_image)
  obtain w3 where w3: "put_uuids None us (CSphWriter_SeekTo (length ?i) w1) = Some w3"
    "stands_for w3 (lookup_image 71 64 ?u ps @ concat (map uuid_bytes us)) (length (lookup_image 71 64 ?u ps @ concat (map uuid_bytes us)))"
    using put_uuids_stands[OF w2 assms(6,7), of None] by auto
  show ?thesis using lw(1) v(1) x(1,3) pos w1(1) w3(1) close_stands[OF w3(2)] assms(5)
    by (simp add: WriteDocidLookup_uuid_def DocidLookupWriter_SetUuidLookupOffset_def Let_def)
qed

section \<open>Properties\<close>

text \<open>C28: in a lookup file written with UUIDs the reader finds for every key whatsoever the docid it was written with and 0 for
  every other key, and the numeric lookup of the same file still answers every docid.\<close>

theorem uuid_roundtrip:
  assumes "0 < n" "ps \<noteq> []" "docid_sorted ps" "lookup_fits 71 64 ps" "length us = length ps" "uuid_sorted us"
    "\<forall>u \<in> set us. u_tDocID u \<noteq> 0"
  shows "\<exists>f r off. WriteDocidLookup_uuid n ps us = Some (True, f) \<and>
    LookupReader_SetData (Some f) 71 LookupReader_new = Some (r, off, of_nat (length ps)) \<and>
    (\<forall>k. UuidLookupReader_Find (UuidLookupReader_SetData f off (of_nat (length ps))) k =
      Some (case map_of (map (\<lambda>u. (m_tKey u, u_tDocID u)) us) k of None \<Rightarrow> 0 | Some d \<Rightarrow> d)) \<and>
    (\<forall>d. LookupReader_Find r d =
      Some (case map_of (map (\<lambda>p. (m_tDocID p, m_tRowID p)) ps) d of None \<Rightarrow> INVALID_ROWID | Some w \<Rightarrow> w))"
proof -
  let ?i = "lookup_image 71 64 0 ps"
  define off where "off = (of_nat (length ?i) :: qword)"
  let ?f = "lookup_image 71 64 off ps @ concat (map uuid_bytes us)"
  have fit: "length ps + 64 \<le> 2 ^ 32" "length ?i < 2 ^ 64" using assms(4) by (auto simp: lookup_fits_def)
  have w: "WriteDocidLookup_uuid n ps us = Some (True, ?f)"
    unfolding off_def by (rule write_uuid_image[OF assms(1,2) sorted_asc[OF assms(3)] fit(1) assms(5-7)])
  obtain r where r: "LookupReader_SetData (Some ?f) 71 LookupReader_new = Some (r, off, of_nat (length ps))" "serves r 64 ps"
    using image_serves[OF assms(4,2), of off "concat (map uuid_bytes us)" LookupReader_new] by auto
  have o: "unat off = length ?i" using fit(2) by (simp add: off_def unat_of_nat)
  then have nz: "off \<noteq> 0" by (auto simp: length_image header_size_def)
  have "unat (of_nat (length ps) :: dword) = length us" using fit(1) assms(5) by (simp add: unat_of_nat)
  moreover have "length (lookup_image 71 64 off ps) = length ?i" by (simp add: length_image)
  ultimately have "uuid_serves (UuidLookupReader_SetData ?f off (of_nat (length ps))) us"
    using nz o by (simp add: uuid_serves_def UuidLookupReader_SetData_def)
  then show ?thesis using w r uuid_find_serves[OF _ assms(6)] Find_spec[OF r(2) assms(3)]
    by (intro exI[of _ ?f] exI[of _ r] exI[of _ off]) (simp add: row_among_map_of)
qed

theorem uuid_roundtrip_witness:
  "\<exists>f r off. WriteDocidLookup_uuid 16 [\<lparr>m_tDocID = 3, m_tRowID = 1\<rparr>] [\<lparr>m_tKey = \<lparr>m_uHi = 5, m_uLo = 6\<rparr>, u_tDocID = 3\<rparr>] = Some (True, f) \<and>
    LookupReader_SetData (Some f) 71 LookupReader_new = Some (r, off, 1) \<and>
    UuidLookupReader_Find (UuidLookupReader_SetData f off 1) \<lparr>m_uHi = 5, m_uLo = 6\<rparr> = Some 3 \<and>
    UuidLookupReader_Find (UuidLookupReader_SetData f off 1) \<lparr>m_uHi = 5, m_uLo = 7\<rparr> = Some 0"
proof -
  let ?ps = "[\<lparr>m_tDocID = 3, m_tRowID = 1\<rparr>]" and ?us = "[\<lparr>m_tKey = \<lparr>m_uHi = 5, m_uLo = 6\<rparr>, u_tDocID = 3\<rparr>]"
  have "lookup_fits 71 64 ?ps"
    by (simp add: lookup_fits_def length_image header_size_def blocks_def entries_def entry_bytes_def)
  moreover have "docid_sorted ?ps" by (simp add: docid_sorted_def)
  ultimately obtain f r off where *: "WriteDocidLookup_uuid 16 ?ps ?us = Some (True, f)"
    "LookupReader_SetData (Some f) 71 LookupReader_new = Some (r, off, of_nat (length ?ps))"
    "\<forall>k. UuidLookupReader_Find (UuidLookupReader_SetData f off (of_nat (length ?ps))) k =
      Some (case map_of (map (\<lambda>u. (m_tKey u, u_tDocID u)) ?us) k of None \<Rightarrow> 0 | Some d \<Rightarrow> d)"
    using uuid_roundtrip[of 16 ?ps ?us] by auto
  show ?thesis using *(1,2) *(3)[rule_format, of "\<lparr>m_uHi = 5, m_uLo = 6\<rparr>"] *(3)[rule_format, of "\<lparr>m_uHi = 5, m_uLo = 7\<rparr>"]
    by (intro exI[of _ f] exI[of _ r] exI[of _ off]) simp
qed

end
