(* ===== verification/Dead_Row_Map.thy ===== *)
theory Dead_Row_Map
  imports Bit_Vec File_Writer
begin

text \<open>
  The map of killed rows of a segment or disk chunk, \<^verbatim>\<open>DeadRowMap_c\<close> and its RAM and disk variants of
  \<^verbatim>\<open>src/src/killlist.h\<close> and \<^verbatim>\<open>killlist.cpp\<close>. Both variants keep an array of dwords (owned, or mapped from
  the \<^verbatim>\<open>.spm\<close> file) and the cached facts \<^verbatim>\<open>m_bHaveDead\<close> and \<^verbatim>\<open>m_iNumDeads\<close>. Shown: the cached facts
  never contradict the bits, whatever is set, counted, saved or loaded. The number of dwords is computed
  with 32-bit wrap-around as in the code; for the last 31 row counts it wraps to zero dwords, where \<^verbatim>\<open>Load\<close> of the code
  stores at index -1 and the model stores nothing.
\<close>

section \<open>Model\<close>

record DeadRowMap_c =
  m_bHaveDead :: bool
  m_iNumDeads :: int
  m_uRows :: dword
  m_dDead :: "dword list"

definition DeadRowMap_HasDead :: "DeadRowMap_c \<Rightarrow> bool" where
  "DeadRowMap_HasDead m = m_bHaveDead m"

definition DeadRowMap_IsSet :: "RowID_t \<Rightarrow> DeadRowMap_c \<Rightarrow> bool option" where
  "DeadRowMap_IsSet tRowID m =
    (if \<not> m_bHaveDead m \<or> tRowID = INVALID_ROWID then Some False
     else if \<not> tRowID < m_uRows m then None
     else Some (m_dDead m ! unat (drop_bit 5 tRowID) AND push_bit (unat (tRowID AND 31)) 1 \<noteq> 0))"

definition DeadRowMap_Set :: "RowID_t \<Rightarrow> DeadRowMap_c \<Rightarrow> (bool \<times> DeadRowMap_c) option" where
  "DeadRowMap_Set tRowID m =
    (if tRowID = INVALID_ROWID then Some (False, m)
     else if \<not> tRowID < m_uRows m then None
     else
       let k = unat (drop_bit 5 tRowID);
           uMask = push_bit (unat (tRowID AND 31)) 1;
           uPrev = m_dDead m ! k;
           bSet = (uPrev AND uMask = 0);
           m = m\<lparr>m_dDead := (m_dDead m)[k := uPrev OR uMask], m_bHaveDead := m_bHaveDead m \<or> bSet\<rparr>;
           m = (if bSet \<and> 0 \<le> m_iNumDeads m then m\<lparr>m_iNumDeads := m_iNumDeads m + 1\<rparr> else m)
       in Some (bSet, m))"

definition CountBits :: "dword list \<Rightarrow> dword" where
  "CountBits dData = fold (\<lambda>uData U. U + of_nat (popcount uData)) dData 0"

definition DeadRowMap_CountDeads :: "DeadRowMap_c \<Rightarrow> dword" where
  "DeadRowMap_CountDeads m = CountBits (m_dDead m)"

text \<open>\<^verbatim>\<open>m_iNumDeads\<close> is mutable: the count is cached in the map that is returned.\<close>

definition DeadRowMap_GetNumDeads :: "DeadRowMap_c \<Rightarrow> dword \<times> DeadRowMap_c" where
  "DeadRowMap_GetNumDeads m =
    (let m = (if m_iNumDeads m < 0
              then m\<lparr>m_iNumDeads := if DeadRowMap_HasDead m then int (unat (DeadRowMap_CountDeads m)) else 0\<rparr> else m)
     in (of_int (m_iNumDeads m), m))"

definition DeadRowMap_GetNumAlive :: "DeadRowMap_c \<Rightarrow> dword \<times> DeadRowMap_c" where
  "DeadRowMap_GetNumAlive m = (let (n, m) = DeadRowMap_GetNumDeads m in (m_uRows m - n, m))"

text \<open>The scan of \<^verbatim>\<open>CheckForDead\<close>: whether it met a nonzero dword, and how many dwords it read.\<close>

fun dead_scan :: "dword list \<Rightarrow> bool \<times> nat" where
  "dead_scan [] = (False, 0)"
| "dead_scan (w # ws) = (if w \<noteq> 0 then (True, 1) else let (h, k) = dead_scan ws in (h, k + 1))"

definition DeadRowMap_CheckForDead :: "DeadRowMap_c \<Rightarrow> DeadRowMap_c" where
  "DeadRowMap_CheckForDead m =
    (let (h, k) = dead_scan (m_dDead m); m = m\<lparr>m_bHaveDead := h\<rparr> in
     if \<not> h then m\<lparr>m_iNumDeads := 0\<rparr>
     else if k = length (m_dDead m) then m\<lparr>m_iNumDeads := int (popcount (m_dDead m ! (k - 1)))\<rparr>
     else m)"

definition DeadRowMap_Ram_Reset :: "dword \<Rightarrow> DeadRowMap_c \<Rightarrow> DeadRowMap_c" where
  "DeadRowMap_Ram_Reset uRows m =
    m\<lparr>m_uRows := uRows, m_dDead := replicate (unat ((uRows + 31) div 32)) 0, m_bHaveDead := False, m_iNumDeads := 0\<rparr>"

definition DeadRowMap_new :: DeadRowMap_c where
  "DeadRowMap_new = \<lparr>m_bHaveDead = False, m_iNumDeads = -1, m_uRows = 0, m_dDead = []\<rparr>"

definition DeadRowMap_Ram_new :: "dword \<Rightarrow> DeadRowMap_c" where
  "DeadRowMap_Ram_new uRows = DeadRowMap_Ram_Reset uRows DeadRowMap_new"

text \<open>\<open>n\<close> dwords from the front of a byte stream; None when the stream is too short.\<close>

fun get_dwords :: "nat \<Rightarrow> byte list \<Rightarrow> (dword list \<times> byte list) option" where
  "get_dwords 0 s = Some ([], s)"
| "get_dwords (Suc n) s =
    (if length s < 4 then None
     else case get_dwords n (drop 4 s) of None \<Rightarrow> None | Some (ws, s') \<Rightarrow> Some (le_word (take 4 s) # ws, s'))"

text \<open>The last dword is zeroed before the bytes are read over it, so that store has no effect.\<close>

definition DeadRowMap_Ram_Load :: "dword \<Rightarrow> byte list \<Rightarrow> DeadRowMap_c \<Rightarrow> (DeadRowMap_c \<times> byte list) option" where
  "DeadRowMap_Ram_Load uRows tReader m =
    (let n = unat ((uRows + 31) div 32); d = replicate n (0 :: dword);
         d = (if uRows AND 0x1F \<noteq> 0 then d[n - 1 := 0] else d)
     in case get_dwords (length d) tReader of None \<Rightarrow> None
        | Some (d, s) \<Rightarrow> Some (DeadRowMap_CheckForDead (m\<lparr>m_uRows := uRows, m_dDead := d, m_iNumDeads := -1\<rparr>), s))"

definition DeadRowMap_Ram_Save :: "DeadRowMap_c \<Rightarrow> byte list" where
  "DeadRowMap_Ram_Save m = concat (map (le_bytes 4) (m_dDead m))"

definition DeadRowMap_GetLengthBytes :: "DeadRowMap_c \<Rightarrow> nat" where
  "DeadRowMap_GetLengthBytes m = length (m_dDead m) * 4"

text \<open>The disk variant maps the dwords of the file.\<close>

definition DeadRowMap_Disk_Prealloc :: "dword \<Rightarrow> dword list \<Rightarrow> DeadRowMap_c \<Rightarrow> DeadRowMap_c" where
  "DeadRowMap_Disk_Prealloc uRows dFile m = m\<lparr>m_bHaveDead := True, m_uRows := uRows, m_dDead := dFile\<rparr>"

definition DeadRowMap_Disk_Preread :: "DeadRowMap_c \<Rightarrow> DeadRowMap_c" where
  "DeadRowMap_Disk_Preread m =
    (let n = int (sum_list (map popcount (m_dDead m))) in m\<lparr>m_iNumDeads := n, m_bHaveDead := 0 < n\<rparr>)"

definition DeadRowMap_Disk_Dealloc :: "DeadRowMap_c \<Rightarrow> DeadRowMap_c" where
  "DeadRowMap_Disk_Dealloc m = m\<lparr>m_dDead := []\<rparr>"

definition WriteDeadRowMap :: "nat \<Rightarrow> dword \<Rightarrow> (bool \<times> byte list) option" where
  "WriteDeadRowMap iBufferSize uTotalDocs =
    (case put_all (replicate (unat ((uTotalDocs + 31) div 32)) (le_bytes 4 (0 :: dword))) (CSphWriter_OpenFile True iBufferSize) of
       None \<Rightarrow> None | Some w \<Rightarrow> let w = CSphWriter_CloseFile w in Some (\<not> m_bError w, m_dDisk w))"

section \<open>Invariant\<close>

definition dead_rows :: "DeadRowMap_c \<Rightarrow> nat set" where
  "dead_rows m = {i. i < unat (m_uRows m) \<and> dbit (m_dDead m) i}"

definition dead_count :: "dword list \<Rightarrow> nat" where
  "dead_count d = sum_list (map popcount d)"

definition dead_inv :: "DeadRowMap_c \<Rightarrow> bool" where
  "dead_inv m \<longleftrightarrow> unat (m_uRows m) \<le> 2 ^ 32 - 32 \<and> length (m_dDead m) = (unat (m_uRows m) + 31) div 32 \<and>
    (\<not> m_bHaveDead m \<longrightarrow> dead_count (m_dDead m) = 0) \<and>
    (0 \<le> m_iNumDeads m \<longrightarrow> m_iNumDeads m = int (dead_count (m_dDead m))) \<and>
    (\<forall>i < 32 * length (m_dDead m). unat (m_uRows m) \<le> i \<longrightarrow> \<not> dbit (m_dDead m) i)"

lemma popcount_zero: "popcount w = 0 \<longleftrightarrow> w = 0" for w :: "'a::len word"
proof -
  have "popcount w = 0 \<longleftrightarrow> (\<forall>j. j < LENGTH('a) \<longrightarrow> \<not> bit w j)"
    by (auto simp: popcount_def filter_empty_conv)
  also have "\<dots> \<longleftrightarrow> (\<forall>j. \<not> bit w j)" using bit_imp_le_length[of w] by blast
  also have "\<dots> \<longleftrightarrow> w = 0" by (auto intro!: bit_eqI)
  finally show ?thesis .
qed

lemma dead_count_card: "dead_count d = card {i. i < 32 * length d \<and> dbit d i}"
proof -
  have "map popcount d = map (\<lambda>i. popcount (d ! i)) [0..<length d]"
    by (intro nth_equalityI) auto
  then show ?thesis by (simp only: dead_count_def sum_popcount)
qed

lemma dead_count_rows:
  assumes "dead_inv m"
  shows "dead_count (m_dDead m) = card (dead_rows m)"
proof -
  have "{i. i < 32 * length (m_dDead m) \<and> dbit (m_dDead m) i} = dead_rows m"
    using assms by (auto simp: dead_inv_def dead_rows_def not_le)
  then show ?thesis by (simp add: dead_count_card)
qed

lemma dead_rows_bound:
  "finite (dead_rows m)" "dead_inv m \<Longrightarrow> card (dead_rows m) \<le> unat (m_uRows m)"
proof -
  have "dead_rows m \<subseteq> {..<unat (m_uRows m)}" by (auto simp: dead_rows_def)
  then show "finite (dead_rows m)" "card (dead_rows m) \<le> unat (m_uRows m)"
    using finite_subset card_mono[of "{..<unat (m_uRows m)}"] by auto
qed

lemma row_in_data: "dead_inv m \<Longrightarrow> i < unat (m_uRows m) \<Longrightarrow> i div 32 < length (m_dDead m)"
  by (simp add: dead_inv_def)

lemma IsSet_dead:
  assumes "dead_inv m" "tRowID < m_uRows m"
  shows "DeadRowMap_IsSet tRowID m = Some (unat tRowID \<in> dead_rows m)"
proof -
  have r: "unat tRowID < unat (m_uRows m)" using assms(2) by (simp add: word_less_nat_alt)
  have ninv: "tRowID \<noteq> INVALID_ROWID"
    using r assms(1) by (auto simp: INVALID_ROWID_def dead_inv_def)
  have "dead_rows m = {}" if "\<not> m_bHaveDead m"
    using that assms(1) dead_count_rows[OF assms(1)] dead_rows_bound(1)[of m] by (auto simp: dead_inv_def)
  moreover have "(m_dDead m ! unat (drop_bit 5 tRowID) AND push_bit (unat (tRowID AND 31)) 1 \<noteq> 0) = dbit (m_dDead m) (unat tRowID)"
    using bit_test_dbit by (simp only: bit_test_def)
  ultimately show ?thesis
    using ninv assms(2) r by (auto simp: DeadRowMap_IsSet_def dead_rows_def)
qed

lemma dbits_finite: "finite {i. i < 32 * length d \<and> dbit d i}"
  by (rule finite_subset[of _ "{..<32 * length d}"]) auto

lemma Set_dead:
  assumes inv: "dead_inv m" and row: "tRowID < m_uRows m"
  shows "\<exists>m'. DeadRowMap_Set tRowID m = Some (unat tRowID \<notin> dead_rows m, m') \<and> dead_inv m' \<and>
    dead_rows m' = insert (unat tRowID) (dead_rows m) \<and> m_uRows m' = m_uRows m"
proof -
  let ?r = "unat tRowID" and ?d = "m_dDead m"
  define e where "e = ?d[?r div 32 := ?d ! (?r div 32) OR push_bit (?r mod 32) 1]"
  have r: "?r < unat (m_uRows m)" using row by (simp add: word_less_nat_alt)
  have k: "?r div 32 < length ?d" by (rule row_in_data[OF inv r])
  then have r32: "?r < 32 * length ?d" by linarith
  have ninv: "tRowID \<noteq> INVALID_ROWID" using r inv by (auto simp: INVALID_ROWID_def dead_inv_def)
  have e: "\<And>i. dbit e i = (i = ?r \<or> dbit ?d i)" "length e = length ?d"
    unfolding e_def by (rule dbit_set(1)[OF k], rule length_list_update)
  have "(?d ! (?r div 32) AND push_bit (?r mod 32) 1 = 0) = (\<not> dbit ?d ?r)"
    by (simp only: dbit_def bit_iff_and_push_bit_not_eq_0 not_not)
  also have "\<dots> = (?r \<notin> dead_rows m)" using r by (simp add: dead_rows_def)
  finally have b: "(?d ! (?r div 32) AND push_bit (?r mod 32) 1 = 0) = (?r \<notin> dead_rows m)" .
  have "{i. i < 32 * length e \<and> dbit e i} = insert ?r {i. i < 32 * length ?d \<and> dbit ?d i}"
    using r32 by (auto simp: e)
  then have cnt: "dead_count e = (if ?r \<in> dead_rows m then dead_count ?d else Suc (dead_count ?d))"
    using dbits_finite[of ?d] r r32 by (simp add: dead_count_card card_insert_if dead_rows_def)
  define m' where "m' = m\<lparr>m_dDead := e, m_bHaveDead := m_bHaveDead m \<or> ?r \<notin> dead_rows m,
    m_iNumDeads := (if ?r \<notin> dead_rows m \<and> 0 \<le> m_iNumDeads m then m_iNumDeads m + 1 else m_iNumDeads m)\<rparr>"
  have "DeadRowMap_Set tRowID m = Some (?r \<notin> dead_rows m, m')"
    using ninv row
    by (simp only: DeadRowMap_Set_def unat_drop_5 unat_and_31 b Let_def e_def[symmetric]) (simp add: m'_def)
  moreover have "dead_inv m'" using inv cnt r e by (auto simp: dead_inv_def m'_def)
  moreover have "dead_rows m' = insert ?r (dead_rows m)" using r e by (auto simp: dead_rows_def m'_def)
  ultimately show ?thesis by (auto simp: m'_def)
qed

lemma fold_count: "fold (\<lambda>u U. U + of_nat (popcount u)) d a = a + (of_nat (dead_count d) :: dword)"
  by (induction d arbitrary: a) (auto simp: dead_count_def)

lemma dead_count_less:
  assumes "dead_inv m"
  shows "dead_count (m_dDead m) < 2 ^ 32"
proof -
  have "unat (m_uRows m) < 2 ^ 32" using unsigned_less[of "m_uRows m"] by simp
  with dead_rows_bound(2)[OF assms] dead_count_rows[OF assms] show ?thesis by linarith
qed

lemma dead_inv_flags:
  assumes "dead_inv m"
  shows "\<not> m_bHaveDead m \<Longrightarrow> dead_count (m_dDead m) = 0"
    "0 \<le> m_iNumDeads m \<Longrightarrow> m_iNumDeads m = int (dead_count (m_dDead m))"
  using assms unfolding dead_inv_def by blast+

lemma CountBits_exact: "dead_inv m \<Longrightarrow> unat (CountBits (m_dDead m)) = dead_count (m_dDead m)"
  using dead_count_less[of m] by (simp add: CountBits_def fold_count unat_of_nat take_bit_nat_eq_self)

lemma NumDeads_exact:
  assumes "dead_inv m"
  shows "DeadRowMap_GetNumDeads m = (of_nat (card (dead_rows m)), m\<lparr>m_iNumDeads := int (card (dead_rows m))\<rparr>)"
    "dead_inv (m\<lparr>m_iNumDeads := int (card (dead_rows m))\<rparr>)"
proof -
  note c = dead_count_rows[OF assms]
  have h: "(if m_bHaveDead m then int (unat (CountBits (m_dDead m))) else 0) = int (card (dead_rows m))"
    using dead_inv_flags(1)[OF assms] CountBits_exact[OF assms] c by auto
  have n: "m_iNumDeads m = int (card (dead_rows m))" if "\<not> m_iNumDeads m < 0"
    using dead_inv_flags(2)[OF assms] c that by linarith
  have m: "m\<lparr>m_iNumDeads := int (card (dead_rows m))\<rparr> = m" if "\<not> m_iNumDeads m < 0"
    by (simp only: n[OF that, symmetric]) simp
  show "DeadRowMap_GetNumDeads m = (of_nat (card (dead_rows m)), m\<lparr>m_iNumDeads := int (card (dead_rows m))\<rparr>)"
  proof (cases "m_iNumDeads m < 0")
    case True
    then show ?thesis
      by (simp only: DeadRowMap_GetNumDeads_def DeadRowMap_HasDead_def DeadRowMap_CountDeads_def h Let_def) simp
  next
    case False
    then have "DeadRowMap_GetNumDeads m = (of_int (m_iNumDeads m), m)" by (simp add: DeadRowMap_GetNumDeads_def)
    then show ?thesis by (simp only: m[OF False] n[OF False] of_int_of_nat_eq)
  qed
  show "dead_inv (m\<lparr>m_iNumDeads := int (card (dead_rows m))\<rparr>)"
    using assms unfolding dead_inv_def by (simp add: c)
qed

lemma dead_scan_spec:
  "dead_scan d = (h, k) \<Longrightarrow> k \<le> length d \<and> (\<not> h \<longrightarrow> dead_count d = 0) \<and>
    (h \<longrightarrow> 0 < k \<and> (k = length d \<longrightarrow> dead_count d = popcount (d ! (k - 1))))"
proof (induction d arbitrary: h k)
  case (Cons w ws)
  show ?case
  proof (cases "w = 0")
    case True
    obtain h' k' where s: "dead_scan ws = (h', k')" by fastforce
    have w0: "popcount w = 0" using True by (simp add: popcount_zero)
    from Cons.IH[OF s] Cons.prems True s w0 show ?thesis by (auto simp: dead_count_def nth_Cons')
  next
    case False
    with Cons.prems show ?thesis by (auto simp: dead_count_def)
  qed
qed (simp add: dead_count_def)

lemma CheckForDead_inv:
  assumes "unat (m_uRows m) \<le> 2 ^ 32 - 32" "length (m_dDead m) = (unat (m_uRows m) + 31) div 32" "m_iNumDeads m = -1"
    "\<forall>i < 32 * length (m_dDead m). unat (m_uRows m) \<le> i \<longrightarrow> \<not> dbit (m_dDead m) i"
  shows "dead_inv (DeadRowMap_CheckForDead m) \<and> dead_rows (DeadRowMap_CheckForDead m) = dead_rows m"
proof -
  obtain h k where s: "dead_scan (m_dDead m) = (h, k)" by fastforce
  from dead_scan_spec[OF s] assms show ?thesis
    by (auto simp: DeadRowMap_CheckForDead_def s dead_inv_def dead_rows_def Let_def)
qed

lemma get_dwords_image: "get_dwords (length ws) (concat (map (le_bytes 4) ws) @ s) = Some (ws, s)"
  by (induction ws) (auto simp: le_word_bytes)

lemma rows_dwords:
  assumes "unat uRows \<le> 2 ^ 32 - 32"
  shows "unat ((uRows + 31 :: dword) div 32) = (unat uRows + 31) div 32"
proof -
  have "unat (uRows + 31) = unat uRows + 31" using assms by (simp add: unat_add_lem [THEN iffD1])
  then show ?thesis by (simp only: unat_div) simp
qed

section \<open>Properties\<close>

text \<open>C7: the map is the set of its killed rows. \<^verbatim>\<open>IsSet\<close> tests membership, \<^verbatim>\<open>Set\<close> adds a row and reports
  whether it was alive, and \<^verbatim>\<open>GetNumDeads\<close> returns the number of killed rows, cached or not; the
  invariant that ties the cached flag and count to the bits is kept.\<close>

theorem dead_map_refines_set:
  assumes "dead_inv m" "tRowID < m_uRows m"
  shows "DeadRowMap_IsSet tRowID m = Some (unat tRowID \<in> dead_rows m) \<and>
    (\<exists>m'. DeadRowMap_Set tRowID m = Some (unat tRowID \<notin> dead_rows m, m') \<and> dead_inv m' \<and>
      dead_rows m' = insert (unat tRowID) (dead_rows m)) \<and>
    fst (DeadRowMap_GetNumDeads m) = of_nat (card (dead_rows m)) \<and> dead_inv (snd (DeadRowMap_GetNumDeads m)) \<and>
    fst (DeadRowMap_GetNumAlive m) = m_uRows m - of_nat (card (dead_rows m))"
  using IsSet_dead[OF assms] Set_dead[OF assms] NumDeads_exact[OF assms(1)]
  by (auto simp: DeadRowMap_GetNumAlive_def)

theorem dead_map_refines_set_witness:
  "\<exists>m'. DeadRowMap_Set 7 (DeadRowMap_Ram_new 100) = Some (True, m') \<and> dead_rows m' = {7}"
proof -
  have "dead_rows (DeadRowMap_Ram_new 100) = {}"
    by (auto simp: dead_rows_def DeadRowMap_Ram_new_def DeadRowMap_Ram_Reset_def dbit_def)
  moreover have "dead_inv (DeadRowMap_Ram_new 100)"
    by (auto simp: dead_inv_def DeadRowMap_Ram_new_def DeadRowMap_Ram_Reset_def dead_count_def dbit_def
        popcount_zero sum_list_replicate)
  moreover have "7 < m_uRows (DeadRowMap_Ram_new 100)"
    by (simp add: DeadRowMap_Ram_new_def DeadRowMap_Ram_Reset_def)
  ultimately show ?thesis using dead_map_refines_set[of "DeadRowMap_Ram_new 100" 7] by auto
qed

text \<open>C8: a saved map loads back with the same killed rows, and with a flag and a count that agree with
  them, whatever the map held before; the rest of the stream is left.\<close>

theorem dead_map_save_load:
  assumes "dead_inv m"
  shows "\<exists>m'. DeadRowMap_Ram_Load (m_uRows m) (DeadRowMap_Ram_Save m @ rest) old = Some (m', rest) \<and>
    dead_inv m' \<and> dead_rows m' = dead_rows m \<and> m_dDead m' = m_dDead m"
proof -
  let ?u = "m_uRows m"
  let ?v = "old\<lparr>m_uRows := ?u, m_dDead := m_dDead m, m_iNumDeads := -1\<rparr>"
  have n: "unat ((?u + 31) div 32) = length (m_dDead m)"
    using assms by (simp add: rows_dwords dead_inv_def)
  have "DeadRowMap_Ram_Load ?u (DeadRowMap_Ram_Save m @ rest) old = Some (DeadRowMap_CheckForDead ?v, rest)"
    using get_dwords_image[of "m_dDead m" rest]
    by (simp add: DeadRowMap_Ram_Load_def DeadRowMap_Ram_Save_def n Let_def)
  moreover have "dead_inv (DeadRowMap_CheckForDead ?v) \<and> dead_rows (DeadRowMap_CheckForDead ?v) = dead_rows ?v"
    using assms by (intro CheckForDead_inv) (auto simp: dead_inv_def)
  moreover have "m_dDead (DeadRowMap_CheckForDead ?v) = m_dDead m"
    by (simp add: DeadRowMap_CheckForDead_def Let_def split: prod.split)
  ultimately show ?thesis by (auto simp: dead_rows_def)
qed

theorem dead_map_save_load_witness:
  "\<exists>m'. DeadRowMap_Ram_Load 100 (DeadRowMap_Ram_Save (DeadRowMap_Ram_new 100) @ [1, 2]) DeadRowMap_new = Some (m', [1, 2]) \<and>
    dead_rows m' = dead_rows (DeadRowMap_Ram_new 100)"
proof -
  have "dead_inv (DeadRowMap_Ram_new 100)" "m_uRows (DeadRowMap_Ram_new 100) = 100"
    by (auto simp: dead_inv_def DeadRowMap_Ram_new_def DeadRowMap_Ram_Reset_def dead_count_def dbit_def
        popcount_zero sum_list_replicate)
  with dead_map_save_load[of "DeadRowMap_Ram_new 100" "[1, 2]" DeadRowMap_new] show ?thesis by auto
qed

text \<open>C9: loading keeps every bit of the stream, also those past the last row: zeroing the last dword first
  has no effect, because the read overwrites it.\<close>

theorem dead_map_load_keeps_tail:
  assumes "length ws = unat ((uRows + 31) div 32)"
  shows "\<exists>m'. DeadRowMap_Ram_Load uRows (concat (map (le_bytes 4) ws)) old = Some (m', []) \<and> m_dDead m' = ws"
proof -
  have "get_dwords (length ws) (concat (map (le_bytes 4) ws)) = Some (ws, [])"
    using get_dwords_image[of ws "[]"] by simp
  then show ?thesis
    using assms by (auto simp: DeadRowMap_Ram_Load_def DeadRowMap_CheckForDead_def Let_def split: prod.split)
qed

theorem dead_map_load_keeps_tail_witness:
  "\<exists>m'. DeadRowMap_Ram_Load 1 (concat (map (le_bytes 4) [0xFFFFFFFF :: dword])) DeadRowMap_new = Some (m', []) \<and> m_dDead m' = [0xFFFFFFFF]"
  using dead_map_load_keeps_tail[of "[0xFFFFFFFF]" 1 DeadRowMap_new] by simp

end
