(* ===== verification/Kill_List.thy ===== *)
theory Kill_List
  imports Docid_Lookup_File Dead_Row_Map
begin

text \<open>
  Applying kill lists: the merge loop \<^verbatim>\<open>Intersect\<close> of \<^verbatim>\<open>src/src/killlist.h\<close> over any two readers of
  ascending docids, and its clients \<^verbatim>\<open>ProcessIntersected\<close>, \<^verbatim>\<open>KillByLookup\<close>, \<^verbatim>\<open>CSphIndex_VLN::KillMulti\<close>,
  \<^verbatim>\<open>CheckThenKillMulti\<close>, \<^verbatim>\<open>KillDupes\<close> (\<^verbatim>\<open>src/src/sphinx.cpp\<close>) and \<^verbatim>\<open>ApplyKilllist\<close> (\<^verbatim>\<open>src/src/indextool.cpp\<close>). What the
  loop relies on of a reader is the locale \<open>docid_reader\<close>; it is interpreted on the docid lookup
  iterator (as a target and as a killer) and on the reader of a plain list.

  Conditions. Kill lists ascend. Docids of a lookup ascend and may repeat, as long as no docid continues across a
  checkpoint (\<open>docid_blocks\<close>; docids that never repeat satisfy it). Shown: the loop ends; after a match it
  advances both readers, so each docid of the killer is used up by one row of the target (\<open>common\<close>).
  Without repeated docids in the target this kills exactly the rows whose docid the killer has; with repeated
  docids it kills the first row of each and leaves the later rows alive. A docid that continues across a
  checkpoint can lose even the first row to \<^verbatim>\<open>HintDocID\<close>, which is shown last. Counts of killed rows are unbounded integers, the
  code's are 32-bit \<^verbatim>\<open>int\<close>; the rows are numbered by 32-bit numbers.
\<close>

section \<open>Model\<close>

record DocidListReader_c =
  m_dKlist :: "DocID_t list"
  m_pIterator :: nat

definition DocidListReader_new :: "DocID_t list \<Rightarrow> DocidListReader_c" where
  "DocidListReader_new dKlist = \<lparr>m_dKlist = dKlist, m_pIterator = 0\<rparr>"

definition DocidListReader_Read :: "DocidListReader_c \<Rightarrow> ((DocID_t \<times> RowID_t) option \<times> DocidListReader_c) option" where
  "DocidListReader_Read r = Some (None, r)"

definition DocidListReader_ReadDocID :: "DocidListReader_c \<Rightarrow> (DocID_t option \<times> DocidListReader_c) option" where
  "DocidListReader_ReadDocID r =
    (if m_pIterator r \<ge> length (m_dKlist r) then Some (None, r)
     else Some (Some (m_dKlist r ! m_pIterator r), r\<lparr>m_pIterator := m_pIterator r + 1\<rparr>))"

definition DocidListReader_HintDocID :: "DocID_t \<Rightarrow> DocidListReader_c \<Rightarrow> DocidListReader_c option" where
  "DocidListReader_HintDocID tDocID r = Some r"

text \<open>The operations of a reader type, the template parameters of the loop.\<close>

record ('r, 'x) reader_ops =
  op_Read :: "'r \<Rightarrow> ('x option \<times> 'r) option"
  op_HintDocID :: "DocID_t \<Rightarrow> 'r \<Rightarrow> 'r option"

definition lookup_target :: "(LookupReaderIterator_c, DocID_t \<times> RowID_t) reader_ops" where
  "lookup_target = \<lparr>op_Read = LookupReaderIterator_Read, op_HintDocID = LookupReaderIterator_HintDocID\<rparr>"

definition lookup_killer :: "(LookupReaderIterator_c, DocID_t) reader_ops" where
  "lookup_killer = \<lparr>op_Read = LookupReaderIterator_ReadDocID, op_HintDocID = LookupReaderIterator_HintDocID\<rparr>"

definition list_killer :: "(DocidListReader_c, DocID_t) reader_ops" where
  "list_killer = \<lparr>op_Read = DocidListReader_ReadDocID, op_HintDocID = DocidListReader_HintDocID\<rparr>"

text \<open>The while loop of \<^verbatim>\<open>Intersect\<close>: each reader with what it read last (None: its flag
  \<^verbatim>\<open>bHaveDocs\<close> is false), and the state the functor captures. The result None means that an operation failed
  or that the loop does not end.\<close>

partial_function (option) intersect_loop ::
  "('r1, DocID_t \<times> RowID_t) reader_ops \<Rightarrow> ('r2, DocID_t) reader_ops \<Rightarrow> (RowID_t \<Rightarrow> DocID_t \<Rightarrow> 'r2 \<Rightarrow> 's \<Rightarrow> 's option) \<Rightarrow>
   ((DocID_t \<times> RowID_t) option \<times> 'r1) \<times> (DocID_t option \<times> 'r2) \<times> 's \<Rightarrow> 's option" where
  "intersect_loop R1 R2 fnFunctor st =
    (case st of ((h1, r1), (h2, r2), s) \<Rightarrow>
     case h1 of None \<Rightarrow> Some s | Some (tDocID1, tRowID1) \<Rightarrow>
     case h2 of None \<Rightarrow> Some s | Some tDocID2 \<Rightarrow>
       if tDocID1 < tDocID2 then do {
         r1 \<leftarrow> op_HintDocID R1 tDocID2 r1;
         x1 \<leftarrow> op_Read R1 r1;
         intersect_loop R1 R2 fnFunctor (x1, (h2, r2), s)
       } else if tDocID1 > tDocID2 then do {
         r2 \<leftarrow> op_HintDocID R2 tDocID1 r2;
         x2 \<leftarrow> op_Read R2 r2;
         intersect_loop R1 R2 fnFunctor ((h1, r1), x2, s)
       } else do {
         s \<leftarrow> fnFunctor tRowID1 tDocID1 r2 s;
         x1 \<leftarrow> op_Read R1 r1;
         x2 \<leftarrow> op_Read R2 r2;
         intersect_loop R1 R2 fnFunctor (x1, x2, s)
       })"

definition Intersect ::
  "('r1, DocID_t \<times> RowID_t) reader_ops \<Rightarrow> ('r2, DocID_t) reader_ops \<Rightarrow> (RowID_t \<Rightarrow> DocID_t \<Rightarrow> 'r2 \<Rightarrow> 's \<Rightarrow> 's option) \<Rightarrow>
   'r1 \<Rightarrow> 'r2 \<Rightarrow> 's \<Rightarrow> 's option" where
  "Intersect R1 R2 fnFunctor tReader1 tReader2 s = do {
     x1 \<leftarrow> op_Read R1 tReader1;
     x2 \<leftarrow> op_Read R2 tReader2;
     intersect_loop R1 R2 fnFunctor (x1, x2, s)
   }"

definition ProcessIntersected ::
  "('r1, DocID_t \<times> RowID_t) reader_ops \<Rightarrow> ('r2, DocID_t) reader_ops \<Rightarrow> (RowID_t \<Rightarrow> DocID_t \<Rightarrow> 's \<Rightarrow> (bool \<times> 's) option) \<Rightarrow>
   'r1 \<Rightarrow> 'r2 \<Rightarrow> 's \<Rightarrow> (int \<times> 's) option" where
  "ProcessIntersected R1 R2 fnAction tReader1 tReader2 s =
    Intersect R1 R2
      (\<lambda>tRowID tDocID _ (iProcessed, s). do {
         (b, s) \<leftarrow> fnAction tRowID tDocID s;
         Some (if b then iProcessed + 1 else iProcessed, s)
       }) tReader1 tReader2 (0, s)"

definition KillByLookup ::
  "('r1, DocID_t \<times> RowID_t) reader_ops \<Rightarrow> ('r2, DocID_t) reader_ops \<Rightarrow>
   'r1 \<Rightarrow> 'r2 \<Rightarrow> DeadRowMap_c \<Rightarrow> (int \<times> DeadRowMap_c) option" where
  "KillByLookup R1 R2 tTargetReader tKillerReader tDeadRowMap =
    ProcessIntersected R1 R2 (\<lambda>tRowID _ m. DeadRowMap_Set tRowID m) tTargetReader tKillerReader tDeadRowMap"

text \<open>What the killing methods of a disk index change: its dead row map, the update flags of its attribute
  files, and whom the kill hook was called for.\<close>

record kill_state =
  k_tDeadRowMap :: DeadRowMap_c
  k_uAttrsStatus :: dword
  k_dHooked :: "DocID_t list"

definition ATTRS_ROWMAP_UPDATED :: dword where
  "ATTRS_ROWMAP_UPDATED = push_bit 2 1"

definition mark_killed :: "int \<Rightarrow> kill_state \<Rightarrow> int \<times> kill_state" where
  "mark_killed iTotalKilled k =
    (iTotalKilled, if iTotalKilled \<noteq> 0 then k\<lparr>k_uAttrsStatus := k_uAttrsStatus k OR ATTRS_ROWMAP_UPDATED\<rparr> else k)"

definition kill_hook_action :: "RowID_t \<Rightarrow> DocID_t \<Rightarrow> kill_state \<Rightarrow> (bool \<times> kill_state) option" where
  "kill_hook_action tRow tDoc k = do {
     (b, m) \<leftarrow> DeadRowMap_Set tRow (k_tDeadRowMap k);
     let k = k\<lparr>k_tDeadRowMap := m\<rparr>;
     Some (if \<not> b then (False, k) else (True, k\<lparr>k_dHooked := k_dHooked k @ [tDoc]\<rparr>))
   }"

definition KillMulti :: "bool \<Rightarrow> byte list \<Rightarrow> nat \<Rightarrow> DocID_t list \<Rightarrow> kill_state \<Rightarrow> (int \<times> kill_state) option" where
  "KillMulti bHasKillHook pLookup uVersion dKlist k = do {
     tTargetReader \<leftarrow> LookupReaderIterator_new (Some pLookup) uVersion;
     let tKillerReader = DocidListReader_new dKlist;
     (iTotalKilled, k) \<leftarrow>
       (if \<not> bHasKillHook then do {
          (n, m) \<leftarrow> KillByLookup lookup_target list_killer tTargetReader tKillerReader (k_tDeadRowMap k);
          Some (n, k\<lparr>k_tDeadRowMap := m\<rparr>)
        } else ProcessIntersected lookup_target list_killer kill_hook_action tTargetReader tKillerReader k);
     Some (mark_killed iTotalKilled k)
   }"

text \<open>The watcher of \<^verbatim>\<open>CheckThenKillMulti\<close> is the caller's function, with the state it may change; \<^verbatim>\<open>Verify\<close> of a
  \<^verbatim>\<open>Set\<close> that finds the row already dead is None.\<close>

definition check_kill_action ::
  "('w \<Rightarrow> bool \<times> 'w) \<Rightarrow> RowID_t \<Rightarrow> DocID_t \<Rightarrow> 'w \<times> kill_state \<Rightarrow> (bool \<times> 'w \<times> kill_state) option" where
  "check_kill_action fnWatcher tRow tDoc wk = do {
     let (w, k) = wk;
     b \<leftarrow> DeadRowMap_IsSet tRow (k_tDeadRowMap k);
     if b then Some (False, w, k)
     else let (c, w) = fnWatcher w in
       if \<not> c then Some (False, w, k)
       else do {
         (b, m) \<leftarrow> DeadRowMap_Set tRow (k_tDeadRowMap k);
         if \<not> b then None
         else Some (True, w, k\<lparr>k_tDeadRowMap := m, k_dHooked := k_dHooked k @ [tDoc]\<rparr>)
       }
   }"

definition CheckThenKillMulti ::
  "('w \<Rightarrow> bool \<times> 'w) \<Rightarrow> byte list \<Rightarrow> nat \<Rightarrow> DocID_t list \<Rightarrow> 'w \<times> kill_state \<Rightarrow> (int \<times> kill_state) option" where
  "CheckThenKillMulti fnWatcher pLookup uVersion dKlist wk = do {
     tTargetReader \<leftarrow> LookupReaderIterator_new (Some pLookup) uVersion;
     (iTotalKilled, _, k) \<leftarrow> ProcessIntersected lookup_target list_killer (check_kill_action fnWatcher)
        tTargetReader (DocidListReader_new dKlist) wk;
     Some (mark_killed iTotalKilled k)
   }"

partial_function (option) kill_dupes_loop ::
  "LookupReaderIterator_c \<Rightarrow> DocID_t \<Rightarrow> int \<Rightarrow> DeadRowMap_c \<Rightarrow> (int \<times> DeadRowMap_c) option" where
  "kill_dupes_loop tLookup tLastDocID iTotalKilled m = do {
     (h, tLookup) \<leftarrow> LookupReaderIterator_Read tLookup;
     case h of None \<Rightarrow> Some (iTotalKilled, m)
     | Some (tDocID, tRowID) \<Rightarrow>
         if tDocID = tLastDocID then do {
           (_, m) \<leftarrow> DeadRowMap_Set tRowID m;
           kill_dupes_loop tLookup tLastDocID (iTotalKilled + 1) m
         } else kill_dupes_loop tLookup tDocID iTotalKilled m
   }"

definition KillDupes :: "byte list \<Rightarrow> nat \<Rightarrow> kill_state \<Rightarrow> (int \<times> kill_state) option" where
  "KillDupes pLookup uVersion k = do {
     tLookup \<leftarrow> LookupReaderIterator_new (Some pLookup) uVersion;
     (iTotalKilled, m) \<leftarrow> kill_dupes_loop tLookup 0 0 (k_tDeadRowMap k);
     Some (mark_killed iTotalKilled (k\<lparr>k_tDeadRowMap := m\<rparr>))
   }"

definition ApplyKilllist :: "bool \<Rightarrow> bool \<Rightarrow> byte list \<Rightarrow> nat \<Rightarrow> byte list \<Rightarrow> nat \<Rightarrow> DocID_t list \<Rightarrow> DeadRowMap_c \<Rightarrow> DeadRowMap_c option" where
  "ApplyKilllist bUseDocids bUseKlist pTarget uTargetVersion pKiller uKillerVersion dKilllist m = do {
     m \<leftarrow> (if bUseDocids then do {
              tTargetReader \<leftarrow> LookupReaderIterator_new (Some pTarget) uTargetVersion;
              tKillerReader \<leftarrow> LookupReaderIterator_new (Some pKiller) uKillerVersion;
              (_, m) \<leftarrow> KillByLookup lookup_target lookup_killer tTargetReader tKillerReader m;
              Some m
            } else Some m);
     if bUseKlist then do {
       tTargetReader \<leftarrow> LookupReaderIterator_new (Some pTarget) uTargetVersion;
       (_, m) \<leftarrow> KillByLookup lookup_target list_killer tTargetReader (DocidListReader_new dKilllist) m;
       Some m
     } else Some m
   }"

section \<open>What the loop relies on\<close>

text \<open>\<open>pending r xs\<close>: reader \<open>r\<close> has exactly the entries \<open>xs\<close> still to deliver. They ascend; reading
  takes the first; a hint may skip entries, but none that reaches the hinted docid.\<close>

locale docid_reader =
  fixes R :: "('r, 'x) reader_ops"
    and key :: "'x \<Rightarrow> DocID_t"
    and pending :: "'r \<Rightarrow> 'x list \<Rightarrow> bool"
  assumes ascending: "pending r xs \<Longrightarrow> sorted (map key xs)"
    and read_nil: "pending r [] \<Longrightarrow> \<exists>r'. op_Read R r = Some (None, r') \<and> pending r' []"
    and read_cons: "pending r (x # xs) \<Longrightarrow> \<exists>r'. op_Read R r = Some (Some x, r') \<and> pending r' xs"
    and hint: "pending r xs \<Longrightarrow>
      \<exists>r' n. op_HintDocID R d r = Some r' \<and> pending r' (drop n xs) \<and> (\<forall>x \<in> set (take n xs). key x < d)"
begin

text \<open>A reader with what it read last: \<open>at (h, r) xs\<close> when \<open>xs\<close> starts with the entry read last.\<close>

definition at :: "'x option \<times> 'r \<Rightarrow> 'x list \<Rightarrow> bool" where
  "at hr xs \<longleftrightarrow> sorted (map key xs) \<and> (case xs of [] \<Rightarrow> fst hr = None | x # ys \<Rightarrow> fst hr = Some x \<and> pending (snd hr) ys)"

lemma read_at: "pending r xs \<Longrightarrow> \<exists>hr. op_Read R r = Some hr \<and> at hr xs"
  using read_nil[of r] read_cons[of r "hd xs" "tl xs"] ascending[of r xs] by (cases xs) (auto simp: at_def)

lemma hint_read:
  assumes "pending r xs"
  shows "\<exists>r' hr n. op_HintDocID R d r = Some r' \<and> op_Read R r' = Some hr \<and> at hr (drop n xs) \<and>
    (\<forall>x \<in> set (take n xs). key x < d)"
  using hint[OF assms, of d] read_at by blast

end

text \<open>The entries of the target that the loop pairs with docids of the killer: each docid of the killer is used up by
  one entry.\<close>

fun common :: "(DocID_t \<times> RowID_t) list \<Rightarrow> DocID_t list \<Rightarrow> (DocID_t \<times> RowID_t) list" where
  "common [] ys = []"
| "common (x # xs) ys = (if fst x \<in> set ys then x # common xs (remove1 (fst x) ys) else common xs ys)"

text \<open>The functor on a list of entries, in order.\<close>

fun run_functor :: "(RowID_t \<Rightarrow> DocID_t \<Rightarrow> 's \<Rightarrow> 's option) \<Rightarrow> (DocID_t \<times> RowID_t) list \<Rightarrow> 's \<Rightarrow> 's option" where
  "run_functor F [] s = Some s"
| "run_functor F ((d, w) # xs) s = Option.bind (F w d s) (run_functor F xs)"

lemma common_Nil [simp]: "common xs [] = []"
  by (induction xs) auto

lemma common_skip_target:
  assumes "\<forall>x \<in> set (take n xs). fst x < y" "sorted (y # ys)"
  shows "common (drop n xs) (y # ys) = common xs (y # ys)"
  using assms(1)
proof (induction n arbitrary: xs)
  case (Suc n)
  then show ?case using assms(2) by (cases xs) (auto simp: leD)
qed simp

lemma common_unused:
  assumes "y \<notin> fst ` set xs"
  shows "common xs (y # ys) = common xs ys"
  using assms by (induction xs arbitrary: ys) auto

lemma common_skip_killer:
  assumes "\<forall>z \<in> set (take n ys). z < d" "sorted (map fst ((d, w) # xs))"
  shows "common ((d, w) # xs) (drop n ys) = common ((d, w) # xs) ys"
  using assms(1)
proof (induction n arbitrary: ys)
  case (Suc n)
  show ?case
  proof (cases ys)
    case (Cons z zs)
    then have z: "z < d" "\<forall>z \<in> set (take n zs). z < d" using Suc.prems by auto
    have "z \<notin> fst ` set ((d, w) # xs)" using assms(2) z(1) leD by fastforce
    from common_unused[OF this] Suc.IH[OF z(2)] show ?thesis by (simp only: Cons drop_Suc_Cons)
  qed simp
qed simp

text \<open>Which entries these are: without repeated docids in the target all those whose docid the killer has; without
  repeated docids in the killer the first entry of each such docid.\<close>

lemma common_set: "set (common xs ys) \<subseteq> {x \<in> set xs. fst x \<in> set ys}"
proof (induction xs arbitrary: ys)
  case (Cons x xs)
  have "set (remove1 (fst x) ys) \<subseteq> set ys" by (rule set_remove1_subset)
  with Cons.IH[of ys] Cons.IH[of "remove1 (fst x) ys"] show ?case by auto
qed simp

lemma common_distinct_snd: "distinct (map snd xs) \<Longrightarrow> distinct (map snd (common xs ys))"
proof (induction xs arbitrary: ys)
  case (Cons x xs)
  have "snd ` set (common xs zs) \<subseteq> snd ` set xs" for zs using common_set[of xs zs] by auto
  with Cons show ?case by auto
qed simp

lemma common_unique:
  assumes "distinct (map fst xs)"
  shows "common xs ys = filter (\<lambda>x. fst x \<in> set ys) xs"
  using assms
proof (induction xs arbitrary: ys)
  case (Cons x xs)
  have "fst z \<in> set (remove1 (fst x) ys) \<longleftrightarrow> fst z \<in> set ys" if "z \<in> set xs" for z
    using Cons.prems that by (intro in_set_remove1) (auto simp: image_iff)
  then have "filter (\<lambda>z. fst z \<in> set (remove1 (fst x) ys)) xs = filter (\<lambda>z. fst z \<in> set ys) xs"
    by (simp cong: filter_cong)
  with Cons show ?case by simp
qed simp

lemma common_first:
  assumes "distinct ys"
  shows "common xs ys = map ((!) xs) (filter (\<lambda>i. fst (xs ! i) \<in> set ys \<and> (\<forall>j < i. fst (xs ! j) \<noteq> fst (xs ! i))) [0..<length xs])"
  using assms
proof (induction xs arbitrary: ys)
  case (Cons x xs)
  let ?Q = "\<lambda>i. \<forall>j < i. fst (xs ! j) \<noteq> fst (xs ! i)"
  have u: "[0..<length (x # xs)] = 0 # map Suc [0..<length xs]" by (simp add: map_Suc_upt upt_conv_Cons del: upt_Suc)
  have q: "(\<forall>j < Suc i. fst ((x # xs) ! j) \<noteq> d) \<longleftrightarrow> d \<noteq> fst x \<and> (\<forall>j < i. fst (xs ! j) \<noteq> d)" for i d
    by (auto simp: less_Suc_eq_0_disj)
  have r: "map ((!) (x # xs)) (filter (\<lambda>i. fst ((x # xs) ! i) \<in> set ys \<and> (\<forall>j < i. fst ((x # xs) ! j) \<noteq> fst ((x # xs) ! i))) [0..<length (x # xs)]) =
    (if fst x \<in> set ys then [x] else []) @ map ((!) xs) (filter (\<lambda>i. fst (xs ! i) \<in> set ys \<and> fst (xs ! i) \<noteq> fst x \<and> ?Q i) [0..<length xs])"
    unfolding u by (simp add: filter_map comp_def q)
  show ?case
  proof (cases "fst x \<in> set ys")
    case True
    with Cons.IH[of "remove1 (fst x) ys"] Cons.prems show ?thesis unfolding r by (simp add: conj_assoc)
  next
    case False
    then have "fst (xs ! i) \<in> set ys \<and> fst (xs ! i) \<noteq> fst x \<and> ?Q i \<longleftrightarrow> fst (xs ! i) \<in> set ys \<and> ?Q i" for i by metis
    with Cons.IH[OF Cons.prems] False show ?thesis unfolding r by simp
  qed
qed simp

text \<open>A target and a killer.\<close>

locale intersection = t: docid_reader R1 fst pend1 + k: docid_reader R2 "\<lambda>d. d" pend2
  for R1 :: "('r1, DocID_t \<times> RowID_t) reader_ops" and pend1 :: "'r1 \<Rightarrow> (DocID_t \<times> RowID_t) list \<Rightarrow> bool"
    and R2 :: "('r2, DocID_t) reader_ops" and pend2 :: "'r2 \<Rightarrow> DocID_t list \<Rightarrow> bool"
begin

lemma loop_spec:
  assumes "t.at hr1 xs" "k.at hr2 ys"
  shows "intersect_loop R1 R2 (\<lambda>w d _. F w d) (hr1, hr2, s) = run_functor F (common xs ys) s"
  using assms
proof (induction "length xs + length ys" arbitrary: xs ys hr1 hr2 s rule: less_induct)
  case less
  obtain h1 r1 h2 r2 where hr: "hr1 = (h1, r1)" "hr2 = (h2, r2)" by fastforce
  show ?case
  proof (cases "xs = [] \<or> ys = []")
    case True
    then show ?thesis using less.prems hr
      by (auto simp: t.at_def k.at_def intersect_loop.simps split: option.splits)
  next
    case False
    then obtain d w xs' y ys' where xs: "xs = (d, w) # xs'" and ys: "ys = y # ys'"
      by (metis neq_Nil_conv surj_pair)
    have a: "h1 = Some (d, w)" "pend1 r1 xs'" "sorted (map fst xs)" and b: "h2 = Some y" "pend2 r2 ys'" "sorted ys"
      using less.prems hr xs ys by (auto simp: t.at_def k.at_def)
    note step = intersect_loop.simps[of R1 R2 _ "((Some (d, w), r1), (Some y, r2), s)"]
    consider "d < y" | "y < d" | "d = y" by (rule linorder_cases)
    then show ?thesis
    proof cases
      case 1
      obtain r' x1 n where n: "op_HintDocID R1 y r1 = Some r'" "op_Read R1 r' = Some x1" "t.at x1 (drop n xs')"
        "\<forall>x \<in> set (take n xs'). fst x < y" using t.hint_read[OF a(2)] by blast
      have "intersect_loop R1 R2 (\<lambda>w d _. F w d) (x1, hr2, s) = run_functor F (common (drop n xs') ys) s"
        using n(3) less.prems xs by (intro less.hyps) auto
      moreover have "common (drop n xs') ys = common xs ys"
        using common_skip_target[of "Suc n" xs y ys'] n(4) 1 b(3) by (simp add: xs ys)
      ultimately show ?thesis using a(1) b(1) 1 n(1,2) by (simp add: hr step)
    next
      case 2
      obtain r' x2 n where n: "op_HintDocID R2 d r2 = Some r'" "op_Read R2 r' = Some x2" "k.at x2 (drop n ys')"
        "\<forall>z \<in> set (take n ys'). z < d" using k.hint_read[OF b(2)] by blast
      have "intersect_loop R1 R2 (\<lambda>w d _. F w d) (hr1, x2, s) = run_functor F (common xs (drop n ys')) s"
        using n(3) less.prems ys by (intro less.hyps) auto
      moreover have "common xs (drop n ys') = common xs ys"
        using common_skip_killer[of "Suc n" ys d w xs'] n(4) 2 a(3) by (simp add: xs ys)
      ultimately show ?thesis using a(1) b(1) 2 order_less_not_sym[OF 2] n(1,2) by (simp add: hr step)
    next
      case 3
      obtain x1 x2 where n: "op_Read R1 r1 = Some x1" "t.at x1 xs'" "op_Read R2 r2 = Some x2" "k.at x2 ys'"
        using t.read_at[OF a(2)] k.read_at[OF b(2)] by blast
      have "intersect_loop R1 R2 (\<lambda>w d _. F w d) (x1, x2, s') = run_functor F (common xs' ys') s'" for s'
        using n less.prems xs ys by (intro less.hyps) auto
      moreover have "common xs ys = (d, w) # common xs' ys'"
        using 3 by (simp add: xs ys)
      ultimately show ?thesis using a(1) b(1) 3 n by (simp add: hr step[unfolded 3])
    qed
  qed
qed

lemma Intersect_spec:
  assumes "pend1 r1 xs" "pend2 r2 ys"
  shows "Intersect R1 R2 (\<lambda>w d _. F w d) r1 r2 s = run_functor F (common xs ys) s"
proof -
  obtain x1 x2 where "op_Read R1 r1 = Some x1" "t.at x1 xs" "op_Read R2 r2 = Some x2" "k.at x2 ys"
    using t.read_at[OF assms(1)] k.read_at[OF assms(2)] by blast
  then show ?thesis using loop_spec[of x1 xs x2 ys F s] by (simp add: Intersect_def)
qed

end

section \<open>The readers of the program\<close>

definition lookup_pending :: "LookupReaderIterator_c \<Rightarrow> (DocID_t \<times> RowID_t) list \<Rightarrow> bool" where
  "lookup_pending it xs \<longleftrightarrow> (\<exists>D ps i. iter_at it D ps i \<and> docid_blocks D ps \<and>
    xs = map (\<lambda>p. (m_tDocID p, m_tRowID p)) (drop i ps))"

definition lookup_docids_pending :: "LookupReaderIterator_c \<Rightarrow> DocID_t list \<Rightarrow> bool" where
  "lookup_docids_pending it ds \<longleftrightarrow> (\<exists>xs. lookup_pending it xs \<and> ds = map fst xs)"

definition list_pending :: "DocidListReader_c \<Rightarrow> DocID_t list \<Rightarrow> bool" where
  "list_pending r ds \<longleftrightarrow> sorted ds \<and> ds = drop (m_pIterator r) (m_dKlist r)"

lemma docids_of_pairs: "map fst (map (\<lambda>p. (m_tDocID p, m_tRowID p)) ps) = map m_tDocID ps"
  by (simp add: comp_def)

lemma lookup_pending_sorted:
  assumes "lookup_pending it xs"
  shows "sorted (map fst xs)"
proof -
  obtain ps i where "docid_asc ps" "xs = map (\<lambda>p. (m_tDocID p, m_tRowID p)) (drop i ps)"
    using assms by (auto simp: lookup_pending_def docid_blocks_def)
  then show ?thesis by (simp add: docids_of_pairs sorted_map docid_asc_def sorted_wrt_drop)
qed

lemma lookup_read:
  assumes "lookup_pending it xs"
  shows "\<exists>it'. LookupReaderIterator_Read it = Some (case xs of [] \<Rightarrow> None | x # _ \<Rightarrow> Some x, it') \<and> lookup_pending it' (tl xs)"
proof -
  obtain D ps i where at: "iter_at it D ps i" and ps: "docid_blocks D ps"
    and xs: "xs = map (\<lambda>p. (m_tDocID p, m_tRowID p)) (drop i ps)"
    using assms by (auto simp: lookup_pending_def)
  show ?thesis
  proof (cases "i < length ps")
    case True
    with Read_at[OF at] ps xs show ?thesis
      by (auto simp: lookup_pending_def Cons_nth_drop_Suc[symmetric])
  next
    case False
    then have "iter_at it' D ps i \<longrightarrow> lookup_pending it' []" for it'
      using ps unfolding lookup_pending_def by (intro impI exI[of _ D] exI[of _ ps] exI[of _ i]) simp
    with False Read_at[OF at] xs show ?thesis by auto
  qed
qed

lemma lookup_hint:
  assumes "lookup_pending it xs"
  shows "\<exists>it' n. LookupReaderIterator_HintDocID d it = Some it' \<and> lookup_pending it' (drop n xs) \<and>
    (\<forall>x \<in> set (take n xs). fst x < d)"
proof -
  obtain D ps i where at: "iter_at it D ps i" and ps: "docid_blocks D ps"
    and xs: "xs = map (\<lambda>p. (m_tDocID p, m_tRowID p)) (drop i ps)"
    using assms by (auto simp: lookup_pending_def)
  obtain it' j where j: "LookupReaderIterator_HintDocID d it = Some it'" "iter_at it' D ps j" "i \<le> j"
    "\<forall>l. i \<le> l \<longrightarrow> l < j \<longrightarrow> doc ps l < d"
    using HintDocID_at[OF at ps, of d] by blast
  have "lookup_pending it' (drop (j - i) xs)"
    unfolding lookup_pending_def using j(2,3) ps xs
    by (intro exI[of _ D] exI[of _ ps] exI[of _ j]) (simp add: drop_map)
  moreover have "fst x < d" if "x \<in> set (take (j - i) xs)" for x
  proof -
    obtain l where l: "l < j - i" "l < length xs" "x = xs ! l" using \<open>x \<in> _\<close> by (auto simp: in_set_conv_nth)
    then have "fst x = doc ps (i + l)" by (simp add: xs)
    then show ?thesis using j(4) l(1) by simp
  qed
  ultimately show ?thesis using j(1) by blast
qed

interpretation lookup_t: docid_reader lookup_target fst lookup_pending
proof unfold_locales
  fix r :: LookupReaderIterator_c and x and xs :: "(DocID_t \<times> RowID_t) list"
  show "lookup_pending r xs \<Longrightarrow> sorted (map fst xs)" by (simp add: lookup_pending_sorted)
  show "lookup_pending r [] \<Longrightarrow> \<exists>r'. op_Read lookup_target r = Some (None, r') \<and> lookup_pending r' []"
    using lookup_read[of r "[]"] by (simp add: lookup_target_def)
  show "lookup_pending r (x # xs) \<Longrightarrow> \<exists>r'. op_Read lookup_target r = Some (Some x, r') \<and> lookup_pending r' xs"
    using lookup_read[of r "x # xs"] by (simp add: lookup_target_def)
next
  fix r d and xs :: "(DocID_t \<times> RowID_t) list"
  assume "lookup_pending r xs"
  then show "\<exists>r' n. op_HintDocID lookup_target d r = Some r' \<and> lookup_pending r' (drop n xs) \<and> (\<forall>x \<in> set (take n xs). fst x < d)"
    using lookup_hint by (simp add: lookup_target_def)
qed

interpretation lookup_k: docid_reader lookup_killer "\<lambda>d. d" lookup_docids_pending
proof unfold_locales
  fix r :: LookupReaderIterator_c and x and xs :: "DocID_t list"
  show "lookup_docids_pending r xs \<Longrightarrow> sorted (map (\<lambda>d. d) xs)"
    using lookup_pending_sorted by (auto simp: lookup_docids_pending_def)
  show "lookup_docids_pending r [] \<Longrightarrow> \<exists>r'. op_Read lookup_killer r = Some (None, r') \<and> lookup_docids_pending r' []"
    using lookup_read[of r "[]"] by (auto simp: lookup_docids_pending_def lookup_killer_def LookupReaderIterator_ReadDocID_def)
  show "lookup_docids_pending r (x # xs) \<Longrightarrow> \<exists>r'. op_Read lookup_killer r = Some (Some x, r') \<and> lookup_docids_pending r' xs"
    using lookup_read[of r] by (fastforce simp: lookup_docids_pending_def lookup_killer_def LookupReaderIterator_ReadDocID_def)
next
  fix r d and ds :: "DocID_t list"
  assume "lookup_docids_pending r ds"
  then obtain xs where xs: "lookup_pending r xs" "ds = map fst xs" by (auto simp: lookup_docids_pending_def)
  obtain r' n where n: "LookupReaderIterator_HintDocID d r = Some r'" "lookup_pending r' (drop n xs)"
    "\<forall>x \<in> set (take n xs). fst x < d" using lookup_hint[OF xs(1)] by blast
  then show "\<exists>r' n. op_HintDocID lookup_killer d r = Some r' \<and> lookup_docids_pending r' (drop n ds) \<and> (\<forall>x \<in> set (take n ds). x < d)"
    unfolding lookup_docids_pending_def lookup_killer_def xs(2)
    by (intro exI[of _ r'] exI[of _ n]) (auto simp: drop_map take_map)
qed

interpretation list_k: docid_reader list_killer "\<lambda>d. d" list_pending
proof unfold_locales
  fix r :: DocidListReader_c and x and xs :: "DocID_t list"
  show "list_pending r xs \<Longrightarrow> sorted (map (\<lambda>d. d) xs)" by (auto simp: list_pending_def)
  show "list_pending r [] \<Longrightarrow> \<exists>r'. op_Read list_killer r = Some (None, r') \<and> list_pending r' []"
    by (simp add: list_pending_def list_killer_def DocidListReader_ReadDocID_def)
  show "list_pending r (x # xs) \<Longrightarrow> \<exists>r'. op_Read list_killer r = Some (Some x, r') \<and> list_pending r' xs"
  proof -
    assume p: "list_pending r (x # xs)"
    then have l: "m_pIterator r < length (m_dKlist r)"
      by (metis drop_all leI list.distinct(1) list_pending_def)
    with p show ?thesis
      by (auto simp: list_pending_def list_killer_def DocidListReader_ReadDocID_def Cons_nth_drop_Suc[symmetric])
  qed
next
  fix r d and ds :: "DocID_t list"
  assume "list_pending r ds"
  then show "\<exists>r' n. op_HintDocID list_killer d r = Some r' \<and> list_pending r' (drop n ds) \<and> (\<forall>x \<in> set (take n ds). x < d)"
    by (intro exI[of _ r] exI[of _ 0]) (simp add: list_killer_def DocidListReader_HintDocID_def)
qed

interpretation by_lookup: intersection lookup_target lookup_pending lookup_killer lookup_docids_pending
  by unfold_locales

interpretation by_list: intersection lookup_target lookup_pending list_killer list_pending
  by unfold_locales

section \<open>Killing rows\<close>

definition rows_of :: "(DocID_t \<times> RowID_t) list \<Rightarrow> nat set" where
  "rows_of xs = (\<lambda>x. unat (snd x)) ` set xs"

lemma dead_rows_finite: "finite (dead_rows m)"
  by (rule dead_rows_bound(1))

lemma run_kill:
  assumes "dead_inv m" "\<forall>x \<in> set xs. snd x < m_uRows m"
  shows "\<exists>m'. run_functor (\<lambda>w d (i, m). Option.bind (DeadRowMap_Set w m) (\<lambda>(b, m). Some (if b then i + 1 else i, m))) xs (i :: int, m)
      = Some (i + int (card (rows_of xs - dead_rows m)), m') \<and> dead_inv m' \<and> dead_rows m' = dead_rows m \<union> rows_of xs \<and>
        m_uRows m' = m_uRows m"
  using assms
proof (induction xs arbitrary: i m)
  case (Cons x xs)
  obtain d w where x: "x = (d, w)" by fastforce
  obtain m1 where m1: "DeadRowMap_Set w m = Some (unat w \<notin> dead_rows m, m1)" "dead_inv m1"
    "dead_rows m1 = insert (unat w) (dead_rows m)" "m_uRows m1 = m_uRows m"
    using Set_dead[of m w] Cons.prems x by auto
  have fin: "finite (rows_of xs)" by (simp add: rows_of_def)
  have c: "card (rows_of (x # xs) - dead_rows m) =
    (if unat w \<notin> dead_rows m then 1 else 0) + card (rows_of xs - dead_rows m1)"
  proof (cases "unat w \<in> dead_rows m")
    case True
    then have "rows_of (x # xs) - dead_rows m = rows_of xs - dead_rows m1" by (auto simp: rows_of_def x m1(3))
    with True show ?thesis by simp
  next
    case False
    then have "rows_of (x # xs) - dead_rows m = insert (unat w) (rows_of xs - dead_rows m1)"
      by (auto simp: rows_of_def x m1(3))
    with False fin show ?thesis by (simp add: m1(3))
  qed
  obtain m' where "run_functor (\<lambda>w d (i, m). Option.bind (DeadRowMap_Set w m) (\<lambda>(b, m). Some (if b then i + 1 else i, m))) xs
      (if unat w \<notin> dead_rows m then i + 1 else i, m1) =
      Some ((if unat w \<notin> dead_rows m then i + 1 else i) + int (card (rows_of xs - dead_rows m1)), m')"
    and m': "dead_inv m'" "dead_rows m' = dead_rows m1 \<union> rows_of xs" "m_uRows m' = m_uRows m1"
    using Cons.IH[of m1 "if unat w \<notin> dead_rows m then i + 1 else i"] m1 Cons.prems by auto
  then have "run_functor (\<lambda>w d (i, m). Option.bind (DeadRowMap_Set w m) (\<lambda>(b, m). Some (if b then i + 1 else i, m))) (x # xs) (i, m) =
      Some (i + int (card (rows_of (x # xs) - dead_rows m)), m')"
    unfolding c by (cases "unat w \<in> dead_rows m") (simp_all add: x m1(1) add_ac)
  moreover have "dead_rows m' = dead_rows m \<union> rows_of (x # xs)" by (auto simp: m' m1(3) rows_of_def x)
  ultimately show ?case using m'(1,3) m1(4) by auto
qed (simp add: rows_of_def)

text \<open>With the hook: the docids it is called for are those of the rows that were alive.\<close>

lemma run_hooked:
  assumes "dead_inv (k_tDeadRowMap k)" "\<forall>x \<in> set xs. snd x < m_uRows (k_tDeadRowMap k)" "distinct (map snd xs)"
  shows "\<exists>m'. run_functor (\<lambda>w d (i, s). Option.bind (kill_hook_action w d s) (\<lambda>(b, s). Some (if b then i + 1 else i, s))) xs (i :: int, k)
      = Some (i + int (card (rows_of xs - dead_rows (k_tDeadRowMap k))), k\<lparr>k_tDeadRowMap := m',
          k_dHooked := k_dHooked k @ map fst (filter (\<lambda>x. unat (snd x) \<notin> dead_rows (k_tDeadRowMap k)) xs)\<rparr>) \<and>
        dead_inv m' \<and> dead_rows m' = dead_rows (k_tDeadRowMap k) \<union> rows_of xs"
  using assms
proof (induction xs arbitrary: i k)
  case (Cons x xs)
  let ?m = "k_tDeadRowMap k"
  obtain d w where x: "x = (d, w)" by fastforce
  obtain m1 where m1: "DeadRowMap_Set w ?m = Some (unat w \<notin> dead_rows ?m, m1)" "dead_inv m1"
    "dead_rows m1 = insert (unat w) (dead_rows ?m)" "m_uRows m1 = m_uRows ?m"
    using Set_dead[of ?m w] Cons.prems x by auto
  have w: "unat w \<notin> rows_of xs" using Cons.prems(3) by (auto simp: x rows_of_def word_unat_eq_iff image_iff)
  then have f: "filter (\<lambda>x. unat (snd x) \<notin> dead_rows m1) xs = filter (\<lambda>x. unat (snd x) \<notin> dead_rows ?m) xs"
    by (intro filter_cong) (auto simp: m1(3) rows_of_def image_iff)
  have r: "rows_of xs - dead_rows m1 = rows_of xs - dead_rows ?m" using w by (auto simp: m1(3))
  have c: "card (rows_of (x # xs) - dead_rows ?m) = (if unat w \<notin> dead_rows ?m then 1 else 0) + card (rows_of xs - dead_rows ?m)"
  proof -
    have "rows_of (x # xs) - dead_rows ?m =
      (if unat w \<notin> dead_rows ?m then insert (unat w) (rows_of xs - dead_rows ?m) else rows_of xs - dead_rows ?m)"
      by (auto simp: rows_of_def x)
    moreover have "finite (rows_of xs)" by (simp add: rows_of_def)
    ultimately show ?thesis using w by simp
  qed
  have d: "dead_rows m1 \<union> rows_of xs = dead_rows ?m \<union> rows_of (x # xs)" by (auto simp: m1(3) rows_of_def x)
  have prems: "\<forall>x \<in> set xs. snd x < m_uRows m1" "distinct (map snd xs)" using Cons.prems m1(4) by auto
  define k1 where "k1 = (if unat w \<in> dead_rows ?m then k\<lparr>k_tDeadRowMap := m1\<rparr>
    else k\<lparr>k_tDeadRowMap := m1, k_dHooked := k_dHooked k @ [d]\<rparr>)"
  have k1: "k_tDeadRowMap k1 = m1" by (simp add: k1_def)
  note ih = Cons.IH[of k1 "if unat w \<notin> dead_rows ?m then i + 1 else i", unfolded k1, OF m1(2) prems]
  show ?case
  proof (cases "unat w \<in> dead_rows ?m")
    case True
    with ih show ?thesis unfolding f r d by (simp add: x m1(1) c[unfolded x] k1_def kill_hook_action_def Let_def)
  next
    case False
    with ih show ?thesis unfolding f r d by (simp add: x m1(1) c[unfolded x] k1_def kill_hook_action_def Let_def add_ac)
  qed
next
  case (Nil i k)
  then show ?case by (intro exI[of _ "k_tDeadRowMap k"]) (simp add: rows_of_def)
qed

text \<open>Checking and then killing is killing with a hook, when the watcher always agrees: \<^verbatim>\<open>Set\<close> of a dead row
  changes nothing.\<close>

lemma or_bit_same:
  fixes w :: dword
  assumes "w AND 2 ^ n \<noteq> 0"
  shows "w OR 2 ^ n = w"
proof -
  have "bit w n" using assms by (simp add: bit_iff_and_push_bit_not_eq_0)
  then show ?thesis by (intro bit_eqI) (auto simp: bit_or_iff bit_exp_iff)
qed

lemma Set_again:
  assumes "dead_inv m" "tRow < m_uRows m" "unat tRow \<in> dead_rows m"
  shows "DeadRowMap_Set tRow m = Some (False, m)"
proof -
  obtain m' where "DeadRowMap_Set tRow m = Some (False, m')" using Set_dead[OF assms(1,2)] assms(3) by auto
  then have "m' = m" by (auto simp: DeadRowMap_Set_def Let_def or_bit_same split: if_splits)
  with \<open>DeadRowMap_Set tRow m = Some (False, m')\<close> show ?thesis by simp
qed

lemma check_kill_eq:
  assumes "dead_inv (k_tDeadRowMap k)" "tRow < m_uRows (k_tDeadRowMap k)" "\<forall>w. fst (fnWatcher w)"
  obtains b k' w' where "check_kill_action fnWatcher tRow tDoc (w, k) = Some (b, w', k')"
    "kill_hook_action tRow tDoc k = Some (b, k')" "dead_inv (k_tDeadRowMap k')" "m_uRows (k_tDeadRowMap k') = m_uRows (k_tDeadRowMap k)"
proof (cases "unat tRow \<in> dead_rows (k_tDeadRowMap k)")
  case True
  with IsSet_dead[OF assms(1,2)] Set_again[OF assms(1,2) True] show ?thesis
    using assms(1) that[of False w k] by (simp add: check_kill_action_def kill_hook_action_def Let_def)
next
  case False
  obtain m1 where m1: "DeadRowMap_Set tRow (k_tDeadRowMap k) = Some (True, m1)" "dead_inv m1" "m_uRows m1 = m_uRows (k_tDeadRowMap k)"
    using Set_dead[OF assms(1,2)] False by auto
  obtain w' where "fnWatcher w = (True, w')" using assms(3)[rule_format, of w] by (cases "fnWatcher w") auto
  with IsSet_dead[OF assms(1,2)] False m1 show ?thesis
    using that[of True w' "k\<lparr>k_tDeadRowMap := m1, k_dHooked := k_dHooked k @ [tDoc]\<rparr>"]
    by (simp add: check_kill_action_def kill_hook_action_def Let_def)
qed

lemma run_check_eq:
  assumes "dead_inv (k_tDeadRowMap k)" "\<forall>x \<in> set xs. snd x < m_uRows (k_tDeadRowMap k)" "\<forall>w. fst (fnWatcher w)"
  shows "Option.bind (run_functor (\<lambda>w d (i, s). Option.bind (check_kill_action fnWatcher w d s)
      (\<lambda>(b, s). Some (if b then i + 1 else i, s))) xs (i :: int, w, k)) (\<lambda>(i, _, k). Some (i, k)) =
    run_functor (\<lambda>w d (i, s). Option.bind (kill_hook_action w d s) (\<lambda>(b, s). Some (if b then i + 1 else i, s))) xs (i, k)"
  using assms(1,2)
proof (induction xs arbitrary: i w k)
  case (Cons x xs)
  obtain d r where x: "x = (d, r)" by fastforce
  have r: "r < m_uRows (k_tDeadRowMap k)" using Cons.prems(2) x by simp
  obtain b k' w' where a: "check_kill_action fnWatcher r d (w, k) = Some (b, w', k')" "kill_hook_action r d k = Some (b, k')"
    "dead_inv (k_tDeadRowMap k')" "m_uRows (k_tDeadRowMap k') = m_uRows (k_tDeadRowMap k)"
    using check_kill_eq[OF Cons.prems(1) r assms(3)] .
  then show ?case using Cons.IH[of k'] Cons.prems(2) by (simp add: x)
qed simp

text \<open>The duplicates of an ascending list of entries: those whose docid the previous entry has.\<close>

fun dupes :: "DocID_t \<Rightarrow> (DocID_t \<times> RowID_t) list \<Rightarrow> (DocID_t \<times> RowID_t) list" where
  "dupes l [] = []"
| "dupes l ((d, w) # xs) = (if d = l then (d, w) # dupes l xs else dupes d xs)"

lemma kill_dupes_spec:
  assumes "iter_at it D ps i" "dead_inv m" "\<forall>p \<in> set ps. m_tRowID p < m_uRows m"
  shows "\<exists>m'. kill_dupes_loop it l n m = Some (n + int (length (dupes l (map (\<lambda>p. (m_tDocID p, m_tRowID p)) (drop i ps)))), m') \<and>
    dead_inv m' \<and> dead_rows m' = dead_rows m \<union> rows_of (dupes l (map (\<lambda>p. (m_tDocID p, m_tRowID p)) (drop i ps))) \<and> m_uRows m' = m_uRows m"
  using assms
proof (induction "length ps - i" arbitrary: it i l n m)
  case 0
  then show ?case using Read_at[OF 0(2)] iter_at_le[OF 0(2)]
    by (auto simp: kill_dupes_loop.simps rows_of_def)
next
  case (Suc j)
  then have i: "i < length ps" by simp
  obtain it' where it': "LookupReaderIterator_Read it = Some (Some (doc ps i, row ps i), it')" "iter_at it' D ps (Suc i)"
    using Read_at[OF Suc.prems(1)] i by auto
  have d: "drop i ps = ps ! i # drop (Suc i) ps" using i by (simp add: Cons_nth_drop_Suc)
  have j: "j = length ps - Suc i" using Suc.hyps(2) by simp
  show ?case
  proof (cases "doc ps i = l")
    case True
    obtain b m1 where m1: "DeadRowMap_Set (row ps i) m = Some (b, m1)" "dead_inv m1"
      "dead_rows m1 = insert (unat (row ps i)) (dead_rows m)" "m_uRows m1 = m_uRows m"
      using Set_dead[OF Suc.prems(2), of "row ps i"] Suc.prems(3) i by auto
    with Suc.hyps(1)[OF j it'(2) m1(2), of l "n + 1"] Suc.prems(3) True it'(1) show ?thesis
      by (auto simp: kill_dupes_loop.simps[of it] d rows_of_def)
  next
    case False
    with Suc.hyps(1)[OF j it'(2) Suc.prems(2,3), of "doc ps i" n] it'(1) show ?thesis
      by (auto simp: kill_dupes_loop.simps[of it] d)
  qed
qed

section \<open>Properties\<close>

definition entries_of :: "DocidRowidPair_t list \<Rightarrow> (DocID_t \<times> RowID_t) list" where
  "entries_of ps = map (\<lambda>p. (m_tDocID p, m_tRowID p)) ps"

text \<open>The rows of a lookup whose docid is in \<open>ds\<close>.\<close>

definition rows_with :: "DocidRowidPair_t list \<Rightarrow> DocID_t set \<Rightarrow> nat set" where
  "rows_with ps ds = {unat (m_tRowID p) |p. p \<in> set ps \<and> m_tDocID p \<in> ds}"

lemma rows_with_simps [simp]:
  "rows_with [] ds = {}"
  "rows_with (p # ps) ds = (if m_tDocID p \<in> ds then insert (unat (m_tRowID p)) (rows_with ps ds) else rows_with ps ds)"
  by (auto simp: rows_with_def)

lemma lookup_open_iter:
  assumes "lookup_fits ver D ps" "ps \<noteq> []"
  shows "\<exists>it. LookupReaderIterator_new (Some (lookup_image ver D u ps @ tail)) ver = Some it \<and> iter_at it D ps 0"
proof -
  obtain r a b where r: "LookupReader_SetData (Some (lookup_image ver D u ps @ tail)) ver LookupReader_new = Some (r, a, b)" "serves r D ps"
    using image_serves[OF assms(1,2)] by blast
  have c: "m_pCheckpoints r \<noteq> None" "0 < blocks D ps" using r(2) blocks_pos by (auto simp: serves_def)
  let ?it = "\<lparr>m_tReader = r, m_pCurCheckpoint = None, m_pCur = [], m_tCurDocID = 0, m_iProcessedDocs = 0, m_iCheckpointDocs = 0\<rparr>"
  obtain it where it: "SetCheckpoint (Some 0) ?it = Some it" "iter_at it D ps (D * 0)"
    using SetCheckpoint_at[of ?it D ps 0] r(2) c(2) by auto
  then show ?thesis using r(1) c(1) by (auto simp: LookupReaderIterator_new_def)
qed

lemma lookup_open:
  assumes "lookup_fits ver D ps" "ps \<noteq> []" "docid_blocks D ps"
  shows "\<exists>it. LookupReaderIterator_new (Some (lookup_image ver D u ps @ tail)) ver = Some it \<and> lookup_pending it (entries_of ps)"
proof -
  obtain it where it: "LookupReaderIterator_new (Some (lookup_image ver D u ps @ tail)) ver = Some it" "iter_at it D ps 0"
    using lookup_open_iter[OF assms(1,2)] by blast
  moreover have "lookup_pending it (entries_of ps)" using assms(3) it(2) unfolding lookup_pending_def
    by (intro exI[of _ D] exI[of _ ps] exI[of _ 0]) (simp add: entries_of_def)
  ultimately show ?thesis by blast
qed

lemma list_open: "sorted ds \<Longrightarrow> list_pending (DocidListReader_new ds) ds"
  by (simp add: list_pending_def DocidListReader_new_def)

text \<open>The rows the loop kills for the docids \<open>ds\<close>.\<close>

definition hit_rows :: "DocidRowidPair_t list \<Rightarrow> DocID_t list \<Rightarrow> nat set" where
  "hit_rows ps ds = rows_of (common (entries_of ps) ds)"

text \<open>The rows of a lookup that are the first of their docid, for the docids in \<open>ds\<close>.\<close>

definition first_rows_with :: "DocidRowidPair_t list \<Rightarrow> DocID_t set \<Rightarrow> nat set" where
  "first_rows_with ps ds = {unat (row ps i) |i. i < length ps \<and> doc ps i \<in> ds \<and> (\<forall>j < i. doc ps j \<noteq> doc ps i)}"

lemma rows_with_entries: "rows_with ps ds = rows_of (filter (\<lambda>x. fst x \<in> ds) (entries_of ps))"
  by (force simp: rows_of_def entries_of_def rows_with_def image_iff)

lemma hit_rows_listed: "hit_rows ps ds \<subseteq> rows_with ps (set ds)"
  using common_set[of "entries_of ps" ds] by (auto simp: hit_rows_def rows_with_entries rows_of_def)

lemma hit_rows_unique: "distinct (map m_tDocID ps) \<Longrightarrow> hit_rows ps ds = rows_with ps (set ds)"
  by (simp add: hit_rows_def rows_with_entries common_unique entries_of_def comp_def)

lemma hit_rows_first:
  assumes "distinct ds"
  shows "hit_rows ps ds = first_rows_with ps (set ds)"
proof -
  have l: "length (entries_of ps) = length ps" by (simp add: entries_of_def)
  have e: "fst (entries_of ps ! i) = doc ps i" "snd (entries_of ps ! i) = row ps i" if "i < length ps" for i
    using that by (simp_all add: entries_of_def)
  have "hit_rows ps ds = {unat (snd (entries_of ps ! i)) |i. i < length ps \<and> fst (entries_of ps ! i) \<in> set ds \<and>
      (\<forall>j < i. fst (entries_of ps ! j) \<noteq> fst (entries_of ps ! i))}"
    unfolding hit_rows_def common_first[OF assms] rows_of_def l by auto
  also have "\<dots> = first_rows_with ps (set ds)"
    unfolding first_rows_with_def using e by (intro Collect_cong ex_cong1) (auto dest: less_trans)
  finally show ?thesis .
qed

lemma common_bounded: "\<forall>p \<in> set ps. m_tRowID p < n \<Longrightarrow> \<forall>x \<in> set (common (entries_of ps) ds). snd x < n"
  using common_set[of "entries_of ps" ds] by (auto simp: entries_of_def)

text \<open>An entry that was hit is known by its row.\<close>

lemma common_alive:
  assumes "distinct (map snd xs)"
  shows "filter (\<lambda>x. Q (unat (snd x))) (common xs ys) = filter (\<lambda>x. unat (snd x) \<in> rows_of (common xs ys) \<and> Q (unat (snd x))) xs"
  using assms
proof (induction xs arbitrary: ys)
  case (Cons x xs)
  have "unat (snd x) \<notin> rows_of (common xs zs)" for zs
    using Cons.prems common_set[of xs zs] by (auto simp: rows_of_def word_unat_eq_iff[symmetric] image_iff subset_iff)
  moreover have "unat (snd z) \<noteq> unat (snd x)" if "z \<in> set xs" for z
    using Cons.prems that by (auto simp: word_unat_eq_iff[symmetric] image_iff)
  ultimately show ?case using Cons by (auto simp: rows_of_def cong: filter_cong)
qed simp

text \<open>\<^verbatim>\<open>KillByLookup\<close> with either kind of killer.\<close>

lemma kill_by_list:
  assumes "lookup_pending t (entries_of ps)" "list_pending k ds" "dead_inv m" "\<forall>p \<in> set ps. m_tRowID p < m_uRows m"
  shows "\<exists>m'. KillByLookup lookup_target list_killer t k m = Some (int (card (hit_rows ps ds - dead_rows m)), m') \<and>
    dead_inv m' \<and> dead_rows m' = dead_rows m \<union> hit_rows ps ds \<and> m_uRows m' = m_uRows m"
  using run_kill[OF assms(3) common_bounded[OF assms(4)], of ds 0]
  by (simp add: KillByLookup_def ProcessIntersected_def by_list.Intersect_spec[OF assms(1,2)] hit_rows_def)

lemma kill_by_docids:
  assumes "lookup_pending t (entries_of ps)" "lookup_docids_pending k ds" "dead_inv m" "\<forall>p \<in> set ps. m_tRowID p < m_uRows m"
  shows "\<exists>m'. KillByLookup lookup_target lookup_killer t k m = Some (int (card (hit_rows ps ds - dead_rows m)), m') \<and>
    dead_inv m' \<and> dead_rows m' = dead_rows m \<union> hit_rows ps ds \<and> m_uRows m' = m_uRows m"
  using run_kill[OF assms(3) common_bounded[OF assms(4)], of ds 0]
  by (simp add: KillByLookup_def ProcessIntersected_def by_lookup.Intersect_spec[OF assms(1,2)] hit_rows_def)

text \<open>The lookup file as the indexer writes it.\<close>

lemma written_file:
  assumes "0 < n" "docid_asc ps" "lookup_fits 71 64 ps" "WriteDocidLookup n ps = Some (ok, pLookup)"
  shows "ok" "pLookup = lookup_image 71 64 0 ps @ []"
proof -
  have "length ps + 64 \<le> 2 ^ 32" using assms(3) by (simp add: lookup_fits_def)
  then show "ok" "pLookup = lookup_image 71 64 0 ps @ []" using WriteDocidLookup_image[OF assms(1) _ assms(2)] assms(4) by auto
qed

lemma KillMulti_spec:
  assumes "0 < n" "ps \<noteq> []" "docid_blocks 64 ps" "lookup_fits 71 64 ps" "WriteDocidLookup n ps = Some (ok, pLookup)"
    and "sorted dKlist" "dead_inv (k_tDeadRowMap k)" "\<forall>p \<in> set ps. m_tRowID p < m_uRows (k_tDeadRowMap k)"
    and "distinct (map m_tRowID ps)" and "new = hit_rows ps dKlist - dead_rows (k_tDeadRowMap k)"
  shows "\<exists>m'. KillMulti bHook pLookup 71 dKlist k =
      Some (int (card new),
        \<lparr>k_tDeadRowMap = m', k_uAttrsStatus = (if new = {} then k_uAttrsStatus k else k_uAttrsStatus k OR ATTRS_ROWMAP_UPDATED),
         k_dHooked = k_dHooked k @ (if bHook then map m_tDocID (filter (\<lambda>p. unat (m_tRowID p) \<in> new) ps) else [])\<rparr>) \<and>
    dead_inv m' \<and> dead_rows m' = dead_rows (k_tDeadRowMap k) \<union> new"
proof -
  let ?m = "k_tDeadRowMap k"
  note f = written_file[OF assms(1) docid_blocks_asc[OF assms(3)] assms(4,5)]
  obtain t where t: "LookupReaderIterator_new (Some pLookup) 71 = Some t" "lookup_pending t (entries_of ps)"
    using lookup_open[OF assms(4,2,3), of 0 "[]"] unfolding f(2) by blast
  note o = list_open[OF assms(6)]
  have "finite (hit_rows ps dKlist)" by (simp add: hit_rows_def rows_of_def)
  then have new: "card new = 0 \<longleftrightarrow> new = {}" "dead_rows ?m \<union> hit_rows ps dKlist = dead_rows ?m \<union> new"
    by (auto simp: assms(10))
  show ?thesis
  proof (cases bHook)
    case False
    obtain m' where "KillByLookup lookup_target list_killer t (DocidListReader_new dKlist) ?m = Some (int (card new), m')"
      "dead_inv m'" "dead_rows m' = dead_rows ?m \<union> new"
      using kill_by_list[OF t(2) o assms(7,8)] unfolding assms(10)[symmetric] new(2) by blast
    with False t(1) show ?thesis
      by (intro exI[of _ m']) (cases k; simp add: KillMulti_def mark_killed_def new(1))
  next
    case True
    note d = common_distinct_snd[of "entries_of ps" dKlist]
    have s: "distinct (map snd (entries_of ps))" using assms(9) by (simp add: entries_of_def comp_def)
    have h: "map fst (filter (\<lambda>x. unat (snd x) \<notin> dead_rows ?m) (common (entries_of ps) dKlist)) =
      map m_tDocID (filter (\<lambda>p. unat (m_tRowID p) \<in> new) ps)"
      unfolding common_alive[OF s, of "\<lambda>r. r \<notin> dead_rows ?m" dKlist] by (simp add: entries_of_def filter_map comp_def assms(10) hit_rows_def)
    obtain m' where "ProcessIntersected lookup_target list_killer kill_hook_action t (DocidListReader_new dKlist) k =
        Some (int (card new), k\<lparr>k_tDeadRowMap := m', k_dHooked := k_dHooked k @
          map m_tDocID (filter (\<lambda>p. unat (m_tRowID p) \<in> new) ps)\<rparr>)"
      "dead_inv m'" "dead_rows m' = dead_rows ?m \<union> new"
      using run_hooked[OF assms(7) common_bounded[OF assms(8)] d[OF s], of 0]
      unfolding h hit_rows_def[symmetric] assms(10)[symmetric] new(2)
      by (auto simp: ProcessIntersected_def by_list.Intersect_spec[OF t(2) o])
    with True t(1) show ?thesis
      by (intro exI[of _ m']) (cases k; simp add: KillMulti_def mark_killed_def new(1))
  qed
qed

text \<open>C1: \<^verbatim>\<open>KillMulti\<close> with an ascending kill list, on the lookup file the indexer wrote for ascending docids of which none
  continues across a checkpoint (a multiple of 64 entries), ends and kills the rows that the list hits, each listed docid hitting
  one row of that docid, in the order of the file. These are only rows of listed docids; they are all of them
  when no docid has two rows, and they are the first row of every listed docid when the list does not repeat docids. The
  dead rows grow by exactly the rows hit, the returned number counts those that were alive before, the
  row map is marked as updated exactly when there was one, and a kill hook is called for exactly the
  docids of those, in the order of the file.\<close>

theorem kill_multi_exact:
  assumes "0 < n" "ps \<noteq> []" "docid_blocks 64 ps" "lookup_fits 71 64 ps" "WriteDocidLookup n ps = Some (ok, pLookup)"
    and "sorted dKlist" "dead_inv (k_tDeadRowMap k)" "\<forall>p \<in> set ps. m_tRowID p < m_uRows (k_tDeadRowMap k)"
    and "distinct (map m_tRowID ps)" and "new = hit_rows ps dKlist - dead_rows (k_tDeadRowMap k)"
  shows "ok \<and> (\<exists>m'. KillMulti bHook pLookup 71 dKlist k =
      Some (int (card new),
        \<lparr>k_tDeadRowMap = m', k_uAttrsStatus = (if new = {} then k_uAttrsStatus k else k_uAttrsStatus k OR ATTRS_ROWMAP_UPDATED),
         k_dHooked = k_dHooked k @ (if bHook then map m_tDocID (filter (\<lambda>p. unat (m_tRowID p) \<in> new) ps) else [])\<rparr>) \<and>
    dead_inv m' \<and> dead_rows m' = dead_rows (k_tDeadRowMap k) \<union> new) \<and>
    hit_rows ps dKlist \<subseteq> rows_with ps (set dKlist) \<and>
    (distinct (map m_tDocID ps) \<longrightarrow> hit_rows ps dKlist = rows_with ps (set dKlist)) \<and>
    (distinct dKlist \<longrightarrow> hit_rows ps dKlist = first_rows_with ps (set dKlist))"
  using written_file(1)[OF assms(1) docid_blocks_asc[OF assms(3)] assms(4,5)] KillMulti_spec[OF assms, of bHook]
    hit_rows_listed[of ps dKlist] hit_rows_unique[of ps dKlist] hit_rows_first[of dKlist ps] by blast

definition killable :: kill_state where
  "killable = \<lparr>k_tDeadRowMap = DeadRowMap_Ram_new 3, k_uAttrsStatus = 0, k_dHooked = []\<rparr>"

lemma killable_facts:
  "dead_rows (k_tDeadRowMap killable) = {}" "dead_inv (k_tDeadRowMap killable)" "m_uRows (k_tDeadRowMap killable) = 3"
  "k_uAttrsStatus killable = 0" "k_dHooked killable = []"
  by (auto simp: killable_def dead_inv_def dead_rows_def DeadRowMap_Ram_new_def DeadRowMap_Ram_Reset_def dead_count_def dbit_def
      popcount_zero sum_list_replicate)

abbreviation two_docs :: "DocidRowidPair_t list" where
  "two_docs \<equiv> [\<lparr>m_tDocID = 3, m_tRowID = 1\<rparr>, \<lparr>m_tDocID = 9, m_tRowID = 0\<rparr>]"

lemma two_docs_facts: "docid_sorted two_docs" "lookup_fits 71 64 two_docs" "lookup_fits 70 2 two_docs"
  "\<exists>ok f. WriteDocidLookup 16 two_docs = Some (ok, f)"
proof -
  show s: "docid_sorted two_docs" by (simp add: docid_sorted_def)
  show "lookup_fits 71 64 two_docs" "lookup_fits 70 2 two_docs"
    by (simp_all add: lookup_fits_def length_image header_size_def blocks_def entries_def entry_bytes_def ZipValueBE_def
        zip_be_loop.simps sphCalcZippedLen_def zipped_len_loop.simps)
  show "\<exists>ok f. WriteDocidLookup 16 two_docs = Some (ok, f)"
    using WriteDocidLookup_image[of 16 two_docs, OF _ _ sorted_asc[OF s]] by auto
qed

abbreviation dup_docs :: "DocidRowidPair_t list" where
  "dup_docs \<equiv> [\<lparr>m_tDocID = 3, m_tRowID = 1\<rparr>, \<lparr>m_tDocID = 9, m_tRowID = 0\<rparr>, \<lparr>m_tDocID = 9, m_tRowID = 2\<rparr>]"

lemma dup_docs_facts: "docid_blocks 64 dup_docs" "lookup_fits 71 64 dup_docs" "\<exists>ok f. WriteDocidLookup 16 dup_docs = Some (ok, f)"
proof -
  show s: "docid_blocks 64 dup_docs" by (simp add: docid_blocks_def docid_asc_def less_Suc_eq)
  show "lookup_fits 71 64 dup_docs"
    by (simp add: lookup_fits_def length_image header_size_def blocks_def entries_def entry_bytes_def ZipValueBE_def
        zip_be_loop.simps sphCalcZippedLen_def zipped_len_loop.simps)
  show "\<exists>ok f. WriteDocidLookup 16 dup_docs = Some (ok, f)"
    using WriteDocidLookup_image[of 16 dup_docs, OF _ _ docid_blocks_asc[OF s]] by auto
qed

text \<open>Of the two rows of docid 9 the first is killed.\<close>

theorem kill_multi_exact_witness:
  "\<exists>pLookup m'. WriteDocidLookup 16 dup_docs = Some (True, pLookup) \<and>
    KillMulti True pLookup 71 [4, 9] killable = Some (1, \<lparr>k_tDeadRowMap = m', k_uAttrsStatus = ATTRS_ROWMAP_UPDATED, k_dHooked = [9]\<rparr>) \<and>
    dead_rows m' = {0} \<and> hit_rows dup_docs [4, 9] = first_rows_with dup_docs {4, 9}"
proof -
  obtain ok f where w: "WriteDocidLookup 16 dup_docs = Some (ok, f)" using dup_docs_facts(3) by blast
  have "hit_rows dup_docs [4, 9] = {0}" by (simp add: hit_rows_def rows_of_def entries_of_def)
  then show ?thesis
    using kill_multi_exact[OF _ _ dup_docs_facts(1,2) w, of "[4, 9]" killable "{0}" True] w by (auto simp: killable_facts)
qed

text \<open>C5: \<^verbatim>\<open>CheckThenKillMulti\<close> with a watcher that never objects does exactly what \<^verbatim>\<open>KillMulti\<close> with a kill hook does,
  and its \<^verbatim>\<open>Verify\<close> never fails.\<close>

theorem check_then_kill_equals:
  assumes "ps \<noteq> []" "docid_sorted ps" "lookup_fits ver D ps" "sorted dKlist"
    and "dead_inv (k_tDeadRowMap k)" "\<forall>p \<in> set ps. m_tRowID p < m_uRows (k_tDeadRowMap k)" "\<forall>w. fst (fnWatcher w)"
  shows "CheckThenKillMulti fnWatcher (lookup_image ver D u ps) ver dKlist (w, k) = KillMulti True (lookup_image ver D u ps) ver dKlist k"
proof -
  obtain t where t: "LookupReaderIterator_new (Some (lookup_image ver D u ps)) ver = Some t" "lookup_pending t (entries_of ps)"
    using lookup_open[OF assms(3,1) sorted_blocks[OF assms(2)], of u "[]"] by auto
  note o = list_open[OF assms(4)]
  have mark: "Option.bind X (\<lambda>(i, _, k). Some (mark_killed i k)) =
      Option.bind (Option.bind X (\<lambda>(i, _, k). Some (i, k))) (\<lambda>(i, k). Some (mark_killed i k))"
    for X :: "(int \<times> 'a \<times> kill_state) option" by (cases X) auto
  show ?thesis
    by (simp add: CheckThenKillMulti_def KillMulti_def t(1) ProcessIntersected_def by_list.Intersect_spec[OF t(2) o])
      (simp only: mark run_check_eq[OF assms(5) common_bounded[OF assms(6), of dKlist] assms(7)])
qed

theorem check_then_kill_equals_witness:
  "CheckThenKillMulti (\<lambda>n. (True, n + 1)) (lookup_image 71 64 0 two_docs) 71 [4, 9] (0 :: nat, killable) =
    KillMulti True (lookup_image 71 64 0 two_docs) 71 [4, 9] killable"
  by (rule check_then_kill_equals[OF _ two_docs_facts(1,2)]) (simp_all add: killable_facts)

text \<open>C4: \<^verbatim>\<open>ApplyKilllist\<close>, for lookup files of either format version with ascending docids of which none continues across a
  checkpoint and an ascending kill list, kills the target rows that the docids of the killer index hit (if the
  target asks for docids) and those its kill list hits (if the target asks for the kill list), and no others; each docid
  of the killer hits one row of that docid. When no docid of the target has two rows these are exactly the rows
  whose docid the killer index holds or its kill list names.\<close>

theorem apply_killlist_exact:
  assumes "ps \<noteq> []" "docid_blocks D ps" "lookup_fits ver D ps" "qs \<noteq> []" "docid_blocks E qs" "lookup_fits kver E qs"
    and "sorted dKilllist" "dead_inv m" "\<forall>p \<in> set ps. m_tRowID p < m_uRows m"
  shows "\<exists>m'. ApplyKilllist bDocids bKlist (lookup_image ver D u ps @ tail) ver (lookup_image kver E v qs @ ktail) kver dKilllist m = Some m' \<and>
    dead_inv m' \<and> dead_rows m' = dead_rows m \<union> (if bDocids then hit_rows ps (map m_tDocID qs) else {}) \<union>
      (if bKlist then hit_rows ps dKilllist else {}) \<and>
    (distinct (map m_tDocID ps) \<longrightarrow> dead_rows m' = dead_rows m \<union> (if bDocids then rows_with ps (m_tDocID ` set qs) else {}) \<union>
      (if bKlist then rows_with ps (set dKilllist) else {}))"
proof -
  obtain t where t: "LookupReaderIterator_new (Some (lookup_image ver D u ps @ tail)) ver = Some t" "lookup_pending t (entries_of ps)"
    using lookup_open[OF assms(3,1,2)] by blast
  obtain k where k: "LookupReaderIterator_new (Some (lookup_image kver E v qs @ ktail)) kver = Some k" "lookup_pending k (entries_of qs)"
    using lookup_open[OF assms(6,4,5)] by blast
  have kd: "lookup_docids_pending k (map m_tDocID qs)"
    unfolding lookup_docids_pending_def using k(2) by (intro exI[of _ "entries_of qs"]) (simp add: entries_of_def comp_def)
  obtain m1 n1 where m1: "KillByLookup lookup_target lookup_killer t k m = Some (n1, m1)" "dead_inv m1"
    "dead_rows m1 = dead_rows m \<union> hit_rows ps (map m_tDocID qs)" "m_uRows m1 = m_uRows m"
    using kill_by_docids[OF t(2) kd assms(8,9)] by auto
  define m2 where "m2 = (if bDocids then m1 else m)"
  have m2: "dead_inv m2" "\<forall>p \<in> set ps. m_tRowID p < m_uRows m2" using m1 assms(8,9) by (auto simp: m2_def)
  obtain n3 m3 where m3: "KillByLookup lookup_target list_killer t (DocidListReader_new dKilllist) m2 = Some (n3, m3)" "dead_inv m3"
    "dead_rows m3 = dead_rows m2 \<union> hit_rows ps dKilllist"
    using kill_by_list[OF t(2) list_open[OF assms(7)] m2] by blast
  define m' where "m' = (if bKlist then m3 else m2)"
  have "ApplyKilllist bDocids bKlist (lookup_image ver D u ps @ tail) ver (lookup_image kver E v qs @ ktail) kver dKilllist m = Some m'"
    using m1(1) m3(1) t(1) k(1) by (cases bDocids; cases bKlist) (auto simp: ApplyKilllist_def m2_def m'_def)
  moreover have "dead_inv m'" using m2(1) m3(2) by (simp add: m'_def)
  moreover have "dead_rows m' = dead_rows m \<union> (if bDocids then hit_rows ps (map m_tDocID qs) else {}) \<union> (if bKlist then hit_rows ps dKilllist else {})"
    using m1(3) m3(3) by (auto simp: m2_def m'_def)
  ultimately show ?thesis using hit_rows_unique[of ps "map m_tDocID qs"] hit_rows_unique[of ps dKilllist] by (auto cong: if_cong)
qed

theorem apply_killlist_exact_witness:
  "\<exists>m'. ApplyKilllist True True (lookup_image 70 2 0 two_docs) 70 (lookup_image 71 64 0 dup_docs) 71 [9] (k_tDeadRowMap killable) = Some m' \<and>
    dead_rows m' = {0, 1}"
proof -
  have h: "hit_rows two_docs (map m_tDocID dup_docs) = {0, 1}" "hit_rows two_docs [9] = {0}"
    by (auto simp: hit_rows_def rows_of_def entries_of_def)
  show ?thesis
    using apply_killlist_exact[OF _ sorted_blocks[OF two_docs_facts(1)] two_docs_facts(3) _ dup_docs_facts(1,2),
        of "[9]" "k_tDeadRowMap killable" True True 0 "[]" 0 "[]"]
    unfolding h by (auto simp: killable_facts)
qed

text \<open>Entry \<open>j\<close> is a duplicate when the entry before it (\<open>l\<close> before the first) has its docid.\<close>

lemma dupes_index:
  "dupes l xs = map (\<lambda>j. xs ! j) (filter (\<lambda>j. fst (xs ! j) = (if j = 0 then l else fst (xs ! (j - 1)))) [0..<length xs])"
proof (induction xs arbitrary: l)
  case (Cons x xs)
  obtain d w where x: "x = (d, w)" by fastforce
  have u: "[0..<length (x # xs)] = 0 # map Suc [0..<length xs]" by (simp add: map_Suc_upt upt_conv_Cons del: upt_Suc)
  have "(\<lambda>j. fst ((x # xs) ! Suc j) = (if Suc j = 0 then l else fst ((x # xs) ! (Suc j - 1)))) =
    (\<lambda>j. fst (xs ! j) = (if j = 0 then d else fst (xs ! (j - 1))))"
    by (intro ext) (auto simp: x nth_Cons')
  then show ?case unfolding u using Cons.IH[of d] by (auto simp: x filter_map comp_def)
qed simp

lemma dupes_positions:
  assumes "docid_asc ps" "\<forall>p \<in> set ps. m_tDocID p \<noteq> 0"
  shows "dupes 0 (entries_of ps) = map (\<lambda>j. (doc ps j, row ps j)) (filter (\<lambda>j. \<exists>i < j. doc ps i = doc ps j) [0..<length ps])"
proof -
  have "(doc ps j = (if j = 0 then 0 else doc ps (j - 1))) = (\<exists>i < j. doc ps i = doc ps j)" if j: "j < length ps" for j
  proof (cases "j = 0")
    case True
    with assms(2) j show ?thesis by (metis not_less0 nth_mem)
  next
    case False
    have asc: "doc ps a \<le> doc ps b" if "a \<le> b" "b < length ps" for a b
      using assms(1) that by (cases "a = b") (auto simp: docid_asc_def sorted_wrt_iff_nth_less)
    have "doc ps j = doc ps (j - 1)" if "i < j" "doc ps i = doc ps j" for i
      using asc[of i "j - 1"] asc[of "j - 1" j] that j by (intro antisym) auto
    moreover have "j - 1 < j" using False by simp
    ultimately show ?thesis using False by (metis)
  qed
  note k = this
  have e: "(fst (entries_of ps ! j) = (if j = 0 then 0 else fst (entries_of ps ! (j - 1)))) = (\<exists>i < j. doc ps i = doc ps j)"
    if "j \<in> set [0..<length (entries_of ps)]" for j
  proof -
    have l: "j < length ps" using that by (simp add: entries_of_def)
    show ?thesis using k[OF l] l by (cases "j = 0") (simp_all add: entries_of_def)
  qed
  have "dupes 0 (entries_of ps) = map (\<lambda>j. entries_of ps ! j) (filter (\<lambda>j. \<exists>i < j. doc ps i = doc ps j) [0..<length (entries_of ps)])"
    unfolding dupes_index by (simp only: e cong: filter_cong)
  then show ?thesis by (simp add: entries_of_def)
qed

lemma KillDupes_spec:
  assumes "0 < n" "ps \<noteq> []" "docid_asc ps" "lookup_fits 71 64 ps" "WriteDocidLookup n ps = Some (ok, pLookup)"
    and "dead_inv (k_tDeadRowMap k)" "\<forall>p \<in> set ps. m_tRowID p < m_uRows (k_tDeadRowMap k)" "\<forall>p \<in> set ps. m_tDocID p \<noteq> 0"
    and "dups = {j. j < length ps \<and> (\<exists>i < j. doc ps i = doc ps j)}"
  shows "\<exists>k'. KillDupes pLookup 71 k = Some (int (card dups), k') \<and> dead_inv (k_tDeadRowMap k') \<and>
    dead_rows (k_tDeadRowMap k') = dead_rows (k_tDeadRowMap k) \<union> (\<lambda>j. unat (row ps j)) ` dups \<and>
    m_uRows (k_tDeadRowMap k') = m_uRows (k_tDeadRowMap k)"
proof -
  note f = written_file[OF assms(1,3,4,5)]
  obtain t where t: "LookupReaderIterator_new (Some pLookup) 71 = Some t" "iter_at t 64 ps 0"
    using lookup_open_iter[OF assms(4,2), of 0 "[]"] unfolding f(2) by blast
  have s: "set (filter (\<lambda>j. \<exists>i < j. doc ps i = doc ps j) [0..<length ps]) = dups" by (auto simp: assms(9))
  have c: "length (dupes 0 (entries_of ps)) = card dups" "rows_of (dupes 0 (entries_of ps)) = (\<lambda>j. unat (row ps j)) ` dups"
    unfolding dupes_positions[OF assms(3,8)] s[symmetric] rows_of_def
    by (simp only: length_map distinct_card[OF distinct_filter[OF distinct_upt]]) (simp only: set_map image_image snd_conv)
  obtain m' where m': "kill_dupes_loop t 0 0 (k_tDeadRowMap k) = Some (int (card dups), m')" "dead_inv m'"
    "dead_rows m' = dead_rows (k_tDeadRowMap k) \<union> (\<lambda>j. unat (row ps j)) ` dups" "m_uRows m' = m_uRows (k_tDeadRowMap k)"
    using kill_dupes_spec[OF t(2) assms(6,7), of 0 0] c by (auto simp: entries_of_def)
  then show ?thesis using t(1) by (auto simp: KillDupes_def mark_killed_def)
qed

text \<open>C3: on a lookup file that has several rows for a docid (and no docid 0) \<^verbatim>\<open>KillDupes\<close> ends and kills exactly the rows that come
  after another row of the same docid, so that the rows it leaves alive have different docids, and it
  returns how many duplicates there were.\<close>

theorem kill_dupes_exact:
  assumes "0 < n" "ps \<noteq> []" "docid_asc ps" "lookup_fits 71 64 ps" "WriteDocidLookup n ps = Some (ok, pLookup)"
    and "dead_inv (k_tDeadRowMap k)" "\<forall>p \<in> set ps. m_tRowID p < m_uRows (k_tDeadRowMap k)" "\<forall>p \<in> set ps. m_tDocID p \<noteq> 0"
    and "dups = {j. j < length ps \<and> (\<exists>i < j. doc ps i = doc ps j)}"
  shows "\<exists>k'. KillDupes pLookup 71 k = Some (int (card dups), k') \<and> dead_inv (k_tDeadRowMap k') \<and>
    dead_rows (k_tDeadRowMap k') = dead_rows (k_tDeadRowMap k) \<union> (\<lambda>j. unat (row ps j)) ` dups \<and>
    inj_on (doc ps) {j. j < length ps \<and> unat (row ps j) \<notin> dead_rows (k_tDeadRowMap k')}"
proof -
  obtain k' where k': "KillDupes pLookup 71 k = Some (int (card dups), k')" "dead_inv (k_tDeadRowMap k')"
    "dead_rows (k_tDeadRowMap k') = dead_rows (k_tDeadRowMap k) \<union> (\<lambda>j. unat (row ps j)) ` dups"
    using KillDupes_spec[OF assms] by blast
  have "a = b" if "a < length ps" "b < length ps" "a \<notin> dups" "b \<notin> dups" "doc ps a = doc ps b" for a b
    using that by (cases a b rule: linorder_cases) (auto simp: assms(9))
  then have "inj_on (doc ps) {j. j < length ps \<and> unat (row ps j) \<notin> dead_rows (k_tDeadRowMap k')}"
    by (auto simp: inj_on_def k'(3))
  with k' show ?thesis by blast
qed

theorem kill_dupes_exact_witness:
  "\<exists>f k'. WriteDocidLookup 16 [\<lparr>m_tDocID = 3, m_tRowID = 1\<rparr>, \<lparr>m_tDocID = 3, m_tRowID = 0\<rparr>] = Some (True, f) \<and>
    KillDupes f 71 killable = Some (1, k') \<and> dead_rows (k_tDeadRowMap k') = {0}"
proof -
  let ?ps = "[\<lparr>m_tDocID = 3, m_tRowID = 1\<rparr>, \<lparr>m_tDocID = 3, m_tRowID = 0\<rparr>]"
  have asc: "docid_asc ?ps" by (simp add: docid_asc_def)
  have fit: "lookup_fits 71 64 ?ps"
    by (simp add: lookup_fits_def length_image header_size_def blocks_def entries_def entry_bytes_def ZipValueBE_def
        zip_be_loop.simps sphCalcZippedLen_def zipped_len_loop.simps)
  have w: "WriteDocidLookup 16 ?ps = Some (True, lookup_image 71 64 0 ?ps)"
    by (rule WriteDocidLookup_image[OF _ _ asc]) simp_all
  have d: "{1} = {j. j < length ?ps \<and> (\<exists>i < j. doc ?ps i = doc ?ps j)}" by (auto simp: less_Suc_eq)
  show ?thesis using kill_dupes_exact[OF _ _ asc fit w _ _ _ d, of killable] w by (auto simp: killable_facts)
qed

section \<open>Docids that continue across a checkpoint\<close>

text \<open>From the first block, a hint for the docid that the second block starts with leads to the second block.\<close>

lemma hint_second_block:
  assumes "iter_at it D ps 1" "m_pCurCheckpoint it = Some 0" "docid_asc ps" "D < length ps"
  shows "\<exists>it'. LookupReaderIterator_HintDocID (doc ps D) it = Some it' \<and> iter_at it' D ps D"
proof -
  let ?r = "m_tReader it" and ?n = "blocks D ps" and ?f = "\<lambda>i. the (chk_base (m_tReader it) (nat i))"
  have s: "serves ?r D ps" and D: "0 < D" "m_nCheckpoints ?r = ?n" "m_tMaxDocID ?r = doc ps (length ps - 1)"
    using assms(1) by (auto simp: iter_at_def serves_def)
  have n: "1 < ?n" using block_of[OF D(1) assms(4)] D(1) by simp
  note base = serves_base[OF s]
  have "doc ps (D * l) \<le> doc ps (D * m)" if "l \<le> m" "m < ?n" for l m
    using that block_bounds[OF D(1) that(2)] by (intro docid_asc_le[OF assms(3)]) auto
  then have ks: "key_sorted ?f (int 1) (int ?n - 1)" by (auto simp: key_sorted_def base nat_less_iff)
  obtain i where i: "BinarySearchFirst ?f (int 1) (int ?n - 1) (doc ps D) = Some i" using n by (simp add: BinarySearchFirst_def)
  note b = BinarySearchFirst_spec[OF i ks]
  have "\<not> 1 < i" using b(3)[of 1] base[OF n] n by auto
  then have "i = 1" using b(1) n by auto
  moreover have "doc ps D \<le> doc ps (length ps - 1)" by (rule docid_le_last[OF assms(3,4)])
  ultimately have "FindCheckpoint ?r (doc ps D) 1 = Some (Some 1)"
    using i base[OF n] base[of "?n - 1"] n D by (simp add: FindCheckpoint_def not_less)
  then show ?thesis using SetCheckpoint_at[OF s n] assms(2) base[OF n] n D
    by (auto simp: LookupReaderIterator_HintDocID_def IsLastCheckpoint_def)
qed

lemma reads: "op_Read lookup_target = LookupReaderIterator_Read" "op_Read list_killer = DocidListReader_ReadDocID"
  "op_HintDocID lookup_target = LookupReaderIterator_HintDocID"
  by (simp_all add: lookup_target_def list_killer_def)

lemma loop_ends: "intersect_loop R1 R2 F (x1, (None, r2), s) = Some s"
  by (auto simp: intersect_loop.simps split: prod.splits option.splits)

text \<open>C27: when a docid fills the end of the first block of a lookup file and the start of the second one, and a smaller
  docid comes first, \<^verbatim>\<open>KillMulti\<close> of that docid kills its row at the start of the second block only: the hint leaps over the
  rows at the end of the first block, the one among them that \<^verbatim>\<open>KillDupes\<close> leaves alive included. If the row it hits was dead
  before, nothing is killed and 0 is returned.\<close>

theorem kill_multi_misses_straddling:
  assumes "lookup_fits ver D ps" "docid_asc ps" "D < length ps" "doc ps 0 < d" "doc ps (D - 1) = d" "doc ps D = d"
    and "dead_inv (k_tDeadRowMap k)" "\<forall>p \<in> set ps. m_tRowID p < m_uRows (k_tDeadRowMap k)"
  shows "\<exists>k'. KillMulti False (lookup_image ver D u ps @ tail) ver [d] k =
      Some (if unat (row ps D) \<in> dead_rows (k_tDeadRowMap k) then 0 else 1, k') \<and>
    dead_rows (k_tDeadRowMap k') = insert (unat (row ps D)) (dead_rows (k_tDeadRowMap k))"
proof -
  let ?K = "DocidListReader_new [d]" and ?m = "k_tDeadRowMap k"
  have ne: "ps \<noteq> []" "0 < length ps" using assms(3) by auto
  obtain t where t: "LookupReaderIterator_new (Some (lookup_image ver D u ps @ tail)) ver = Some t" "iter_at t D ps 0"
    using lookup_open_iter[OF assms(1) ne(1)] by blast
  obtain t1 where t1: "LookupReaderIterator_Read t = Some (Some (doc ps 0, row ps 0), t1)" "iter_at t1 D ps 1"
    using Read_at[OF t(2)] ne by auto
  have D: "1 < D" using assms(4,5) by (cases "D \<le> 1") auto
  have "m_pCurCheckpoint t1 = Some 0"
  proof (cases "m_pCurCheckpoint t1")
    case None
    then show ?thesis using t1(2) D assms(3) by (simp add: iter_at_def)
  next
    case (Some j)
    then have "1 = D * j + m_iProcessedDocs t1" using t1(2) by (simp add: iter_at_def)
    then show ?thesis using Some D by (cases j) auto
  qed
  from hint_second_block[OF t1(2) this assms(2,3)] obtain t2 where
    t2: "LookupReaderIterator_HintDocID d t1 = Some t2" "iter_at t2 D ps D" unfolding assms(6) by blast
  obtain t3 where t3: "LookupReaderIterator_Read t2 = Some (Some (d, row ps D), t3)" "iter_at t3 D ps (Suc D)"
    using Read_at[OF t2(2)] assms(3,6) by auto
  obtain h t4 where t4: "LookupReaderIterator_Read t3 = Some (h, t4)" using Read_at[OF t3(2)] by blast
  obtain m1 where m1: "DeadRowMap_Set (row ps D) ?m = Some (unat (row ps D) \<notin> dead_rows ?m, m1)"
    "dead_rows m1 = insert (unat (row ps D)) (dead_rows ?m)"
    using Set_dead[OF assms(7), of "row ps D"] assms(3,8) by auto
  have k: "DocidListReader_ReadDocID ?K = Some (Some d, ?K\<lparr>m_pIterator := Suc 0\<rparr>)"
    "DocidListReader_ReadDocID (?K\<lparr>m_pIterator := Suc 0\<rparr>) = Some (None, ?K\<lparr>m_pIterator := Suc 0\<rparr>)"
    by (simp_all add: DocidListReader_new_def DocidListReader_ReadDocID_def)
  note step = intersect_loop.simps[of lookup_target list_killer _ "((Some (_, _), _), (Some _, _), _)"]
  have "KillByLookup lookup_target list_killer t ?K ?m = Some (if unat (row ps D) \<in> dead_rows ?m then 0 else 1, m1)"
    by (simp add: KillByLookup_def ProcessIntersected_def Intersect_def reads t1(1) k assms(4) t2(1) t3(1) t4 m1(1) step loop_ends)
  then show ?thesis using t(1) m1(2) by (simp add: KillMulti_def mark_killed_def)
qed

theorem kill_multi_misses_straddling_witness:
  "\<exists>k'. KillMulti False (lookup_image 70 2 0 dup_docs) 70 [9] killable = Some (1, k') \<and> dead_rows (k_tDeadRowMap k') = {2}"
proof -
  have "lookup_fits 70 2 dup_docs"
    by (simp add: lookup_fits_def length_image header_size_def blocks_def entries_def entry_bytes_def ZipValueBE_def
        zip_be_loop.simps sphCalcZippedLen_def zipped_len_loop.simps)
  from kill_multi_misses_straddling[OF this, of 9 killable 0 "[]"] show ?thesis
    by (simp add: killable_facts docid_asc_def)
qed

end
