(* ===== verification/Cached_Iterator.thy ===== *)
theory Cached_Iterator
  imports Bit_Vec Binary_Search "HOL-Library.Monad_Syntax"
begin

text \<open>
  \<^verbatim>\<open>CachedIterator_T\<close> of \<^verbatim>\<open>src/src/docidlookup.cpp\<close>: the set of matching rows that a docid filter collects, kept either in a
  bitmap (\<^verbatim>\<open>BITMAP\<close>) or in a vector that is sorted at the end, and handed out in ascending blocks of at
  most 512. Shown: both storages hand out the same rows in the same order, and a hint skips only smaller rows.
  The bitmap of the code has 64-bit words and is only read and written bit by bit; the model uses the
  32-bit instance of \<open>Bit_Vec\<close>.
\<close>

section \<open>Model\<close>

record CachedIterator_T =
  c_dRowIDs :: "RowID_t list"
  c_iId :: nat
  c_tBitmap :: BitVec_T
  c_tRowID :: RowID_t
  c_tMinRowID :: RowID_t
  c_tMaxRowID :: RowID_t
  c_bFirstTime :: bool

definition MAX_COLLECTED :: nat where
  "MAX_COLLECTED = 512"

text \<open>The constructors: the bitmap is cleared for all rows; reserving space in the vector has no visible effect.\<close>

definition CachedIterator_new :: "bool \<Rightarrow> dword \<Rightarrow> dword \<Rightarrow> CachedIterator_T" where
  "CachedIterator_new BITMAP g uTotalDocs =
    \<lparr>c_dRowIDs = [], c_iId = 0, c_tBitmap = (if BITMAP then BitVec_Init g uTotalDocs BitVec_default else BitVec_default),
     c_tRowID = 0, c_tMinRowID = INVALID_ROWID, c_tMaxRowID = INVALID_ROWID, c_bFirstTime = True\<rparr>"

text \<open>The loop of \<^verbatim>\<open>HintRowID\<close>: the flag it returns and where it stops.\<close>

partial_function (option) bitmap_seek :: "BitVec_T \<Rightarrow> RowID_t \<Rightarrow> RowID_t \<Rightarrow> (bool \<times> RowID_t) option" where
  "bitmap_seek bm r mx =
    (if r \<le> mx then do { b \<leftarrow> BitGet bm r; if b then Some (True, r) else bitmap_seek bm (r + 1) mx }
     else Some (False, r))"

text \<open>The loop of \<^verbatim>\<open>ReturnRowIdChunk\<close>: the rows it collects and where it stops.\<close>

partial_function (option) bitmap_collect :: "BitVec_T \<Rightarrow> RowID_t \<Rightarrow> RowID_t \<Rightarrow> nat \<Rightarrow> (RowID_t list \<times> RowID_t) option" where
  "bitmap_collect bm r mx n =
    (if r \<le> mx \<and> 0 < n then do {
       b \<leftarrow> BitGet bm r;
       (xs, r') \<leftarrow> bitmap_collect bm (r + 1) mx (if b then n - 1 else n);
       Some (if b then r # xs else xs, r')
     } else Some ([], r))"

fun linear_seek :: "RowID_t \<Rightarrow> RowID_t list \<Rightarrow> nat" where
  "linear_seek tRowID [] = 0"
| "linear_seek tRowID (x # xs) = (if x < tRowID then Suc (linear_seek tRowID xs) else 0)"

definition CachedIterator_HintRowID :: "bool \<Rightarrow> RowID_t \<Rightarrow> CachedIterator_T \<Rightarrow> (bool \<times> CachedIterator_T) option" where
  "CachedIterator_HintRowID BITMAP tRowID c =
    (if BITMAP then
       if tRowID < c_tRowID c then Some (True, c)
       else do {
         (b, r) \<leftarrow> bitmap_seek (c_tBitmap c) tRowID (c_tMaxRowID c);
         Some (b, c\<lparr>c_tRowID := r\<rparr>)
       }
     else
       if c_dRowIDs c = [] \<or> c_iId c \<ge> length (c_dRowIDs c) then Some (False, c)
       else if unat (tRowID - c_dRowIDs c ! c_iId c) < 256 then
         let i = c_iId c + linear_seek tRowID (drop (c_iId c) (c_dRowIDs c))
         in Some (i < length (c_dRowIDs c), c\<lparr>c_iId := i\<rparr>)
       else
         case BinarySearchFirst (\<lambda>i. c_dRowIDs c ! nat i) (int (c_iId c)) (int (length (c_dRowIDs c)) - 1) tRowID of
           None \<Rightarrow> None
         | Some i \<Rightarrow> if c_dRowIDs c ! nat i < tRowID then Some (False, c) else Some (True, c\<lparr>c_iId := nat i\<rparr>))"

definition CachedIterator_Add :: "bool \<Rightarrow> RowID_t \<Rightarrow> CachedIterator_T \<Rightarrow> CachedIterator_T option" where
  "CachedIterator_Add BITMAP tRowID c =
    (if BITMAP then do {
       let c = (if c_tMinRowID c = INVALID_ROWID then c\<lparr>c_tMinRowID := tRowID, c_tMaxRowID := tRowID\<rparr>
                else c\<lparr>c_tMinRowID := min (c_tMinRowID c) tRowID, c_tMaxRowID := max (c_tMaxRowID c) tRowID\<rparr>);
       bm \<leftarrow> BitSet tRowID (c_tBitmap c);
       Some (c\<lparr>c_tBitmap := bm\<rparr>)
     } else Some (c\<lparr>c_dRowIDs := c_dRowIDs c @ [tRowID]\<rparr>))"

definition CachedIterator_Finalize :: "bool \<Rightarrow> CachedIterator_T \<Rightarrow> bool \<times> CachedIterator_T" where
  "CachedIterator_Finalize BITMAP c =
    (if BITMAP then (c_tMinRowID c \<noteq> INVALID_ROWID, c\<lparr>c_tRowID := c_tMinRowID c\<rparr>)
     else let d = sort (c_dRowIDs c) in (d \<noteq> [], c\<lparr>c_dRowIDs := d\<rparr>))"

text \<open>A block of rows; None when the method returns false.\<close>

definition ReturnIteratorResult :: "RowID_t list \<Rightarrow> RowID_t list option" where
  "ReturnIteratorResult dRows = (if dRows = [] then None else Some dRows)"

definition CachedIterator_ReturnRowIdChunk :: "bool \<Rightarrow> CachedIterator_T \<Rightarrow> (RowID_t list option \<times> CachedIterator_T) option" where
  "CachedIterator_ReturnRowIdChunk BITMAP c =
    (if BITMAP then do {
       (xs, r) \<leftarrow> bitmap_collect (c_tBitmap c) (c_tRowID c) (c_tMaxRowID c) MAX_COLLECTED;
       Some (ReturnIteratorResult xs, c\<lparr>c_tRowID := r\<rparr>)
     } else
       let e = min (c_iId c + MAX_COLLECTED) (length (c_dRowIDs c));
           xs = take (e - c_iId c) (drop (c_iId c) (c_dRowIDs c))
       in Some (ReturnIteratorResult xs, c\<lparr>c_iId := c_iId c + (e - c_iId c)\<rparr>))"

section \<open>Rows of a bitmap\<close>

definition bits_from :: "BitVec_T \<Rightarrow> RowID_t \<Rightarrow> RowID_t list" where
  "bits_from bm r = map of_nat (sorted_list_of_set {i \<in> bv_bits bm. unat r \<le> i})"

lemma bits_finite: "finite (bv_bits bm)"
  by (rule finite_subset[of _ "{..<unat (m_uElements bm)}"]) (auto simp: bv_bits_def)

lemma bits_less: "i \<in> bv_bits bm \<Longrightarrow> i < 2 ^ 32"
proof -
  assume "i \<in> bv_bits bm"
  moreover have "unat (m_uElements bm) < 2 ^ 32" by (rule order_less_le_trans[OF unsigned_less]) simp
  ultimately show "i < 2 ^ 32" by (simp add: bv_bits_def)
qed

lemma unat_of_bit: "i \<in> bv_bits bm \<Longrightarrow> unat (of_nat i :: RowID_t) = i"
  using bits_less[of i bm] by (simp add: unat_of_nat)

lemma unat_Suc_row:
  assumes "bv_wf bm" "r < m_uElements bm"
  shows "unat (r + 1) = Suc (unat r)"
proof -
  have "unat r < unat (m_uElements bm)" "unat (m_uElements bm) \<le> 2 ^ 32 - 32" using assms by (auto simp: word_less_nat_alt bv_wf_def)
  then show ?thesis by (subst unat_word_ariths(1)) simp
qed

lemma bits_from_step:
  assumes "bv_wf bm" "r < m_uElements bm"
  shows "bits_from bm r = (if unat r \<in> bv_bits bm then r # bits_from bm (r + 1) else bits_from bm (r + 1))"
proof -
  note s = unat_Suc_row[OF assms]
  let ?S = "{i \<in> bv_bits bm. Suc (unat r) \<le> i}"
  show ?thesis
  proof (cases "unat r \<in> bv_bits bm")
    case True
    then have "{i \<in> bv_bits bm. unat r \<le> i} = insert (unat r) ?S" by (auto simp: le_Suc_eq Suc_le_eq)
    moreover have "sorted_list_of_set (insert (unat r) ?S) = unat r # sorted_list_of_set ?S"
      using bits_finite[of bm] by (subst sorted_list_of_set_insert_remove) (auto intro!: insort_is_Cons)
    ultimately show ?thesis using True by (simp add: bits_from_def s)
  next
    case False
    then have "{i \<in> bv_bits bm. unat r \<le> i} = ?S" by (auto simp: Suc_le_eq) (metis le_neq_implies_less)
    then show ?thesis using False by (simp add: bits_from_def s)
  qed
qed

lemma bits_from_rows: "x \<in> set (bits_from bm r) \<longleftrightarrow> unat x \<in> bv_bits bm \<and> r \<le> x"
proof -
  have "x = of_nat i" if "unat x = i" for i using that by auto
  then show ?thesis using bits_finite[of bm] unat_of_bit[of _ bm]
    by (auto simp: bits_from_def word_le_nat_alt image_iff)
qed

lemma bits_from_sorted: "sorted_wrt (<) (bits_from bm r)"
proof -
  have "(of_nat i :: RowID_t) < of_nat j" if "i < j" "i \<in> bv_bits bm" "j \<in> bv_bits bm" for i j
    using that by (simp add: word_less_nat_alt unat_of_bit)
  then show ?thesis unfolding bits_from_def sorted_wrt_map
    by (intro sorted_wrt_mono_rel[OF _ strict_sorted_list_of_set]) (auto simp: bits_finite)
qed

section \<open>The loops over the bitmap\<close>

text \<open>The bounds of the loops: no row past \<open>mx\<close> is in the bitmap, and \<open>mx\<close> is inside it.\<close>

definition bitmap_bound :: "BitVec_T \<Rightarrow> RowID_t \<Rightarrow> bool" where
  "bitmap_bound bm mx \<longleftrightarrow> bv_wf bm \<and> mx < m_uElements bm \<and> (\<forall>i \<in> bv_bits bm. i \<le> unat mx)"

lemma bits_from_past:
  assumes "bitmap_bound bm mx" "\<not> r \<le> mx"
  shows "bits_from bm r = []"
proof -
  have "{i \<in> bv_bits bm. unat r \<le> i} = {}" using assms by (auto simp: bitmap_bound_def word_le_nat_alt)
  then show ?thesis unfolding bits_from_def by (simp only: sorted_list_of_set_empty list.map)
qed

lemma bitmap_seek_spec:
  assumes "bitmap_bound bm mx"
  shows "\<exists>b r'. bitmap_seek bm r mx = Some (b, r') \<and> bits_from bm r' = bits_from bm r \<and> (b \<longleftrightarrow> bits_from bm r \<noteq> []) \<and> r \<le> r'"
proof (induction "unat mx + 1 - unat r" arbitrary: r)
  case 0
  then have "\<not> r \<le> mx" by (simp add: word_le_nat_alt)
  then show ?case using bits_from_past[OF assms] by (auto simp: bitmap_seek.simps)
next
  case (Suc n)
  then have le: "r \<le> mx" by (simp add: word_le_nat_alt)
  have r: "r < m_uElements bm" "bv_wf bm" using le assms by (auto simp: bitmap_bound_def)
  note s = unat_Suc_row[OF r(2,1)] and st = bits_from_step[OF r(2,1)]
  show ?case
  proof (cases "unat r \<in> bv_bits bm")
    case True
    then show ?thesis using le BitGet_bits[OF r(2,1)] st by (auto simp: bitmap_seek.simps[of bm r])
  next
    case False
    have "n = unat mx + 1 - unat (r + 1)" using Suc.hyps(2) s by simp
    from Suc.hyps(1)[OF this] obtain b r' where "bitmap_seek bm (r + 1) mx = Some (b, r')" "bits_from bm r' = bits_from bm (r + 1)"
      "b \<longleftrightarrow> bits_from bm (r + 1) \<noteq> []" "r + 1 \<le> r'" by blast
    moreover have "r \<le> r + 1" using s by (simp add: word_le_nat_alt)
    ultimately show ?thesis using le BitGet_bits[OF r(2,1)] st False by (auto simp: bitmap_seek.simps[of bm r])
  qed
qed

lemma bitmap_collect_spec:
  assumes "bitmap_bound bm mx"
  shows "\<exists>r'. bitmap_collect bm r mx n = Some (take n (bits_from bm r), r') \<and> bits_from bm r' = drop n (bits_from bm r)"
proof (induction "unat mx + 1 - unat r" arbitrary: r n)
  case 0
  then have "\<not> r \<le> mx" by (simp add: word_le_nat_alt)
  then show ?case using bits_from_past[OF assms] by (simp add: bitmap_collect.simps)
next
  case (Suc k)
  then have le: "r \<le> mx" by (simp add: word_le_nat_alt)
  have r: "r < m_uElements bm" "bv_wf bm" using le assms by (auto simp: bitmap_bound_def)
  note s = unat_Suc_row[OF r(2,1)] and st = bits_from_step[OF r(2,1)]
  show ?case
  proof (cases "n = 0")
    case True
    then show ?thesis by (simp add: bitmap_collect.simps)
  next
    case False
    then obtain j where n: "n = Suc j" by (cases n) auto
    have k: "k = unat mx + 1 - unat (r + 1)" using Suc.hyps(2) s by simp
    show ?thesis
    proof (cases "unat r \<in> bv_bits bm")
      case True
      then show ?thesis using Suc.hyps(1)[OF k, of j] le BitGet_bits[OF r(2,1)] st n by (auto simp: bitmap_collect.simps[of bm r])
    next
      case False
      then show ?thesis using Suc.hyps(1)[OF k, of n] le BitGet_bits[OF r(2,1)] st n by (auto simp: bitmap_collect.simps[of bm r])
    qed
  qed
qed

section \<open>Rows of the iterator\<close>

text \<open>After \<^verbatim>\<open>Finalize\<close>: the rows that are still to be handed out.\<close>

definition cached_rows :: "bool \<Rightarrow> CachedIterator_T \<Rightarrow> RowID_t list \<Rightarrow> bool" where
  "cached_rows B c xs \<longleftrightarrow>
    (if B then bitmap_bound (c_tBitmap c) (c_tMaxRowID c) \<and> xs = bits_from (c_tBitmap c) (c_tRowID c)
     else sorted_wrt (<) (c_dRowIDs c) \<and> c_iId c \<le> length (c_dRowIDs c) \<and> xs = drop (c_iId c) (c_dRowIDs c))"

lemma cached_rows_sorted: "cached_rows B c xs \<Longrightarrow> sorted_wrt (<) xs"
  by (auto simp: cached_rows_def bits_from_sorted sorted_wrt_drop split: if_splits)

lemma cached_chunk:
  assumes "cached_rows B c xs"
  shows "\<exists>c'. CachedIterator_ReturnRowIdChunk B c = Some (ReturnIteratorResult (take 512 xs), c') \<and>
    cached_rows B c' (drop 512 xs) \<and> c_bFirstTime c' = c_bFirstTime c"
proof (cases B)
  case True
  with assms have b: "bitmap_bound (c_tBitmap c) (c_tMaxRowID c)" "xs = bits_from (c_tBitmap c) (c_tRowID c)"
    by (simp_all add: cached_rows_def)
  from bitmap_collect_spec[OF b(1), of "c_tRowID c" 512] b True show ?thesis
    by (auto simp: CachedIterator_ReturnRowIdChunk_def MAX_COLLECTED_def cached_rows_def)
next
  case False
  let ?d = "c_dRowIDs c" and ?i = "c_iId c"
  have r: "sorted_wrt (<) ?d" "?i \<le> length ?d" "xs = drop ?i ?d" using assms False by (simp_all add: cached_rows_def)
  define e where "e = min (?i + 512) (length ?d) - ?i"
  have e: "e = min 512 (length xs)" using r by (auto simp: e_def min_def)
  then have t: "take e xs = take 512 xs" "drop e xs = drop 512 xs" by (simp_all add: min_def)
  have "CachedIterator_ReturnRowIdChunk B c = Some (ReturnIteratorResult (take 512 xs), c\<lparr>c_iId := ?i + e\<rparr>)"
    using False t(1) by (simp add: CachedIterator_ReturnRowIdChunk_def MAX_COLLECTED_def Let_def e_def[symmetric] r(3)[symmetric])
  moreover have "cached_rows B (c\<lparr>c_iId := ?i + e\<rparr>) (drop 512 xs)"
    using False r e t(2)[symmetric] by (simp add: cached_rows_def add.commute)
  ultimately show ?thesis by auto
qed

lemma linear_seek_spec:
  "linear_seek t xs \<le> length xs" "\<forall>x \<in> set (take (linear_seek t xs) xs). x < t"
  "linear_seek t xs < length xs \<Longrightarrow> t \<le> xs ! linear_seek t xs"
  by (induction xs) auto

lemma dropWhile_less_sorted:
  fixes xs :: "'a::linorder list"
  shows "sorted_wrt (<) xs \<Longrightarrow> dropWhile (\<lambda>x. x < r) xs = filter (\<lambda>x. \<not> x < r) xs"
proof (induction xs)
  case (Cons a xs)
  show ?case
  proof (cases "a < r")
    case False
    then have "\<forall>x \<in> set (a # xs). \<not> x < r" using Cons.prems by auto
    then have "filter (\<lambda>x. \<not> x < r) (a # xs) = a # xs" by (simp only: filter_True)
    then show ?thesis using False by simp
  qed (use Cons in simp)
qed simp

lemma key_sorted_list:
  fixes d :: "'a::linorder list"
  assumes "sorted_wrt (<) d" "0 \<le> s"
  shows "key_sorted (\<lambda>i. d ! nat i) s (int (length d) - 1)"
  unfolding key_sorted_def
proof (intro allI impI)
  fix i j assume "s \<le> i" "i \<le> j" "j \<le> int (length d) - 1"
  then have "nat i = nat j \<or> nat i < nat j \<and> nat j < length d" using assms(2) by linarith
  then show "d ! nat i \<le> d ! nat j" using sorted_wrt_nth_less[OF assms(1)] by (auto intro: less_imp_le)
qed

lemma cached_hint:
  assumes "cached_rows B c xs"
  shows "\<exists>b c' n. CachedIterator_HintRowID B r c = Some (b, c') \<and> c_bFirstTime c' = c_bFirstTime c \<and>
    cached_rows B c' (drop n xs) \<and> (\<forall>x \<in> set (take n xs). x < r) \<and> (\<not> b \<longrightarrow> (\<forall>x \<in> set xs. x < r))"
proof (cases B)
  case True
  with assms have b: "bitmap_bound (c_tBitmap c) (c_tMaxRowID c)" "xs = bits_from (c_tBitmap c) (c_tRowID c)"
    by (simp_all add: cached_rows_def)
  show ?thesis
  proof (cases "r < c_tRowID c")
    case r: True
    then show ?thesis using True assms by (intro exI[of _ True] exI[of _ c] exI[of _ 0]) (simp add: CachedIterator_HintRowID_def)
  next
    case r: False
    obtain f r' where f: "bitmap_seek (c_tBitmap c) r (c_tMaxRowID c) = Some (f, r')"
      "bits_from (c_tBitmap c) r' = bits_from (c_tBitmap c) r" "f \<longleftrightarrow> bits_from (c_tBitmap c) r \<noteq> []"
      using bitmap_seek_spec[OF b(1)] by blast
    let ?S = "\<lambda>r. {i \<in> bv_bits (c_tBitmap c). unat r \<le> i}"
    define n where "n = length (takeWhile (\<lambda>x. x < r) xs)"
    have tk: "take n xs = takeWhile (\<lambda>x. x < r) xs" "drop n xs = dropWhile (\<lambda>x. x < r) xs"
      by (simp_all add: n_def takeWhile_eq_take[symmetric] dropWhile_eq_drop[symmetric])
    have "dropWhile (\<lambda>x. x < r) xs = filter (\<lambda>x. \<not> x < r) xs"
      unfolding b(2) by (rule dropWhile_less_sorted[OF bits_from_sorted])
    also have "\<dots> = bits_from (c_tBitmap c) r"
    proof (rule sorted_distinct_set_unique)
      have "sorted_wrt (<) (filter (\<lambda>x. \<not> x < r) xs)" unfolding b(2) by (rule sorted_wrt_filter[OF bits_from_sorted])
      then show "sorted (filter (\<lambda>x. \<not> x < r) xs)" "distinct (filter (\<lambda>x. \<not> x < r) xs)" by (simp_all only: strict_sorted_iff)
      show "sorted (bits_from (c_tBitmap c) r)" "distinct (bits_from (c_tBitmap c) r)"
        using bits_from_sorted[of "c_tBitmap c" r] by (simp_all only: strict_sorted_iff)
      show "set (filter (\<lambda>x. \<not> x < r) xs) = set (bits_from (c_tBitmap c) r)"
        using r by (auto simp: b(2) bits_from_rows not_less)
    qed
    finally have d: "drop n xs = bits_from (c_tBitmap c) r" by (simp add: tk)
    have "\<forall>x \<in> set (take n xs). x < r" unfolding tk by (auto dest: set_takeWhileD)
    moreover have "\<forall>x \<in> set xs. x < r" if "\<not> f"
    proof -
      have "drop n xs = []" using that f(3) d by simp
      then have "take n xs = xs" by (metis append_Nil2 append_take_drop_id)
      then show ?thesis using \<open>\<forall>x \<in> set (take n xs). x < r\<close> by simp
    qed
    ultimately show ?thesis using True r f d b
      by (intro exI[of _ f] exI[of _ "c\<lparr>c_tRowID := r'\<rparr>"] exI[of _ n]) (simp add: CachedIterator_HintRowID_def cached_rows_def)
  qed
next
  case False
  let ?d = "c_dRowIDs c" and ?i = "c_iId c"
  have s: "sorted_wrt (<) ?d" "?i \<le> length ?d" "xs = drop ?i ?d" using assms False by (simp_all add: cached_rows_def)
  show ?thesis
  proof (cases "?d = [] \<or> ?i \<ge> length ?d")
    case True
    then show ?thesis using False assms s by (intro exI[of _ False] exI[of _ c] exI[of _ 0]) (auto simp: CachedIterator_HintRowID_def)
  next
    case ne: False
    show ?thesis
    proof (cases "unat (r - ?d ! ?i) < 256")
      case True
      let ?n = "linear_seek r xs"
      note ls = linear_seek_spec[of r xs]
      have "take ?n xs = xs" if "\<not> ?i + ?n < length ?d" using that s by simp
      then show ?thesis using False True ne s ls(1,2)
        by (intro exI[of _ "?i + ?n < length ?d"] exI[of _ "c\<lparr>c_iId := ?i + ?n\<rparr>"] exI[of _ ?n])
          (auto simp: CachedIterator_HintRowID_def Let_def cached_rows_def add.commute)
    next
      case big: False
      have ks: "key_sorted (\<lambda>i. ?d ! nat i) (int ?i) (int (length ?d) - 1)" by (rule key_sorted_list[OF s(1)]) simp
      obtain m where m: "BinarySearchFirst (\<lambda>i. ?d ! nat i) (int ?i) (int (length ?d) - 1) r = Some m"
        using ne by (auto simp: BinarySearchFirst_def)
      note sp = BinarySearchFirst_spec[OF m ks]
      define k where "k = nat m"
      have k: "m = int k" "?i \<le> k" "k < length ?d" using sp(1,2) by (auto simp: k_def)
      have low: "?d ! j < r" if "?i \<le> j" "j < k" for j using sp(3)[of "int j"] that k(1) by simp
      have pre: "\<forall>x \<in> set (take (k - ?i) xs). x < r"
        using low s(3) k by (auto simp: in_set_conv_nth)
      show ?thesis
      proof (cases "?d ! k < r")
        case True
        then have "\<not> m < int (length ?d) - 1" using sp(4) k(1) by (auto simp: leD)
        then have kl: "k = length ?d - 1" using k by linarith
        have "\<forall>x \<in> set xs. x < r"
        proof
          fix x assume "x \<in> set xs"
          then obtain l where l: "l < length ?d - ?i" "x = ?d ! (?i + l)"
            unfolding s(3) by (auto simp: in_set_conv_nth)
          define j where "j = ?i + l"
          have j: "?i \<le> j" "j < length ?d" "x = ?d ! j" using l by (auto simp: j_def)
          then have "j < k \<or> j = k" using kl by linarith
          then show "x < r" using low[OF j(1)] True j(3) by auto
        qed
        then show ?thesis using True False big ne m k(1) assms
          by (intro exI[of _ False] exI[of _ c] exI[of _ 0]) (simp add: CachedIterator_HintRowID_def)
      next
        case ge: False
        then show ?thesis using False big ne m k s pre
          by (intro exI[of _ True] exI[of _ "c\<lparr>c_iId := k\<rparr>"] exI[of _ "k - ?i"])
            (simp add: CachedIterator_HintRowID_def cached_rows_def)
      qed
    qed
  qed
qed

section \<open>Collecting rows\<close>

text \<open>\<^verbatim>\<open>Add\<close> for a list of rows, in the order they are found.\<close>

fun cached_add_all :: "bool \<Rightarrow> RowID_t list \<Rightarrow> CachedIterator_T \<Rightarrow> CachedIterator_T option" where
  "cached_add_all B [] c = Some c"
| "cached_add_all B (r # rs) c = Option.bind (CachedIterator_Add B r c) (cached_add_all B rs)"

text \<open>The rows collected so far.\<close>

definition collecting :: "bool \<Rightarrow> dword \<Rightarrow> CachedIterator_T \<Rightarrow> RowID_t list \<Rightarrow> bool" where
  "collecting B n c rs \<longleftrightarrow> c_iId c = 0 \<and>
    (if B then bv_wf (c_tBitmap c) \<and> m_uElements (c_tBitmap c) = n \<and> bv_bits (c_tBitmap c) = unat ` set rs \<and>
       (if rs = [] then c_tMinRowID c = INVALID_ROWID
        else c_tMinRowID c = Min (set rs) \<and> c_tMaxRowID c = Max (set rs))
     else c_dRowIDs c = rs)"

lemma collecting_new: "unat n \<le> 2 ^ 32 - 32 \<Longrightarrow> collecting B n (CachedIterator_new B g n) []"
  using init_bits[of n BitVec_default g] by (simp add: collecting_def CachedIterator_new_def BitVec_default_def)

lemma row_not_invalid: "bv_wf bm \<Longrightarrow> r < m_uElements bm \<Longrightarrow> r \<noteq> INVALID_ROWID"
  by (auto simp: bv_wf_def word_less_nat_alt INVALID_ROWID_def)

lemma collecting_add:
  assumes "collecting B n c rs" "r < n" "\<forall>x \<in> set rs. x < n"
  shows "\<exists>c'. CachedIterator_Add B r c = Some c' \<and> collecting B n c' (rs @ [r]) \<and> c_bFirstTime c' = c_bFirstTime c"
proof (cases B)
  case True
  then have c: "bv_wf (c_tBitmap c)" "m_uElements (c_tBitmap c) = n" "bv_bits (c_tBitmap c) = unat ` set rs" "c_iId c = 0"
    "rs = [] \<Longrightarrow> c_tMinRowID c = INVALID_ROWID" "rs \<noteq> [] \<Longrightarrow> c_tMinRowID c = Min (set rs) \<and> c_tMaxRowID c = Max (set rs)"
    using assms(1) by (auto simp: collecting_def split: if_splits)
  obtain bm where bm: "BitSet r (c_tBitmap c) = Some bm" "bv_wf bm" "bv_bits bm = insert (unat r) (bv_bits (c_tBitmap c))"
    "m_uElements bm = m_uElements (c_tBitmap c)" using BitSet_bits[OF c(1)] assms(2) c(2) by blast
  have mi: "Min (set rs) \<noteq> INVALID_ROWID" if "rs \<noteq> []"
    using row_not_invalid[OF c(1), of "Min (set rs)"] assms(3) that c(2) Min_in[of "set rs"] by auto
  show ?thesis
  proof (cases "rs = []")
    case e: True
    then show ?thesis using True c bm by (auto simp: CachedIterator_Add_def collecting_def Let_def)
  next
    case ne: False
    have "Min (set (rs @ [r])) = min (Min (set rs)) r" "Max (set (rs @ [r])) = max (Max (set rs)) r"
      using ne by (simp_all add: min.commute max.commute)
    then show ?thesis using True ne c bm mi by (auto simp: CachedIterator_Add_def collecting_def Let_def)
  qed
next
  case False
  then show ?thesis using assms(1) by (simp add: CachedIterator_Add_def collecting_def)
qed

lemma collecting_add_all:
  "collecting B n c rs \<Longrightarrow> \<forall>x \<in> set rs. x < n \<Longrightarrow> \<forall>x \<in> set ss. x < n \<Longrightarrow>
    \<exists>c'. cached_add_all B ss c = Some c' \<and> collecting B n c' (rs @ ss) \<and> c_bFirstTime c' = c_bFirstTime c"
proof (induction ss arbitrary: rs c)
  case (Cons s ss)
  obtain c1 where c1: "CachedIterator_Add B s c = Some c1" "collecting B n c1 (rs @ [s])" "c_bFirstTime c1 = c_bFirstTime c"
    using collecting_add[OF Cons.prems(1) _ Cons.prems(2)] Cons.prems(3) by auto
  from Cons.IH[OF c1(2)] Cons.prems(2,3) c1(1,3) show ?case by auto
qed simp

lemma sort_Nil_iff [simp]: "sort xs = [] \<longleftrightarrow> xs = []"
  by (metis set_empty set_sort)

text \<open>Both storages end with the collected rows in ascending order.\<close>

lemma collecting_finalize:
  assumes "collecting B n c rs" "\<forall>x \<in> set rs. x < n" "distinct rs" "CachedIterator_Finalize B c = (b, c')"
  shows "b \<longleftrightarrow> rs \<noteq> []" "rs \<noteq> [] \<Longrightarrow> cached_rows B c' (sort rs)" "c_bFirstTime c' = c_bFirstTime c"
proof -
  show "c_bFirstTime c' = c_bFirstTime c" using assms(4) by (auto simp: CachedIterator_Finalize_def Let_def split: if_splits)
  have st: "sorted_wrt (<) (sort rs)" using assms(3) by (simp add: strict_sorted_iff)
  show "b \<longleftrightarrow> rs \<noteq> []"
  proof (cases B)
    case True
    then have c: "bv_wf (c_tBitmap c)" "m_uElements (c_tBitmap c) = n" using assms(1) by (auto simp: collecting_def)
    have "Min (set rs) \<noteq> INVALID_ROWID" if "rs \<noteq> []"
      using row_not_invalid[OF c(1), of "Min (set rs)"] assms(2) that c(2) Min_in[of "set rs"] by auto
    then show ?thesis using True assms(1,4) by (auto simp: CachedIterator_Finalize_def collecting_def split: if_splits)
  next
    case False
    then show ?thesis using assms(1,4) by (auto simp: CachedIterator_Finalize_def collecting_def Let_def)
  qed
  assume ne: "rs \<noteq> []"
  show "cached_rows B c' (sort rs)"
  proof (cases B)
    case True
    then have c: "bv_wf (c_tBitmap c)" "m_uElements (c_tBitmap c) = n" "bv_bits (c_tBitmap c) = unat ` set rs"
      "c_tMinRowID c = Min (set rs)" "c_tMaxRowID c = Max (set rs)" "c' = c\<lparr>c_tRowID := c_tMinRowID c\<rparr>"
      using assms(1,4) ne by (auto simp: collecting_def CachedIterator_Finalize_def)
    have "bitmap_bound (c_tBitmap c) (c_tMaxRowID c)"
      using c assms(2) ne Max_in[of "set rs"] by (auto simp: bitmap_bound_def word_le_nat_alt[symmetric])
    moreover have "sort rs = bits_from (c_tBitmap c) (c_tMinRowID c)"
    proof (rule sorted_distinct_set_unique)
      show "sorted (bits_from (c_tBitmap c) (c_tMinRowID c))" "distinct (bits_from (c_tBitmap c) (c_tMinRowID c))"
        using bits_from_sorted[of "c_tBitmap c" "c_tMinRowID c"] by (simp_all only: strict_sorted_iff)
      have "unat x \<in> unat ` set rs \<longleftrightarrow> x \<in> set rs" for x by (auto simp: image_iff word_unat_eq_iff[symmetric])
      then show "set (sort rs) = set (bits_from (c_tBitmap c) (c_tMinRowID c))"
        using ne by (auto simp: bits_from_rows c(3,4))
    qed (simp_all add: assms(3))
    ultimately show ?thesis using True c(6) by (simp add: cached_rows_def)
  next
    case False
    then show ?thesis using assms(1,4) st by (auto simp: collecting_def CachedIterator_Finalize_def Let_def cached_rows_def)
  qed
qed

end
