(* ===== verification/Rowid_Iterators.thy ===== *)
theory Rowid_Iterators
  imports Cached_Iterator
begin

text \<open>
  Row iterators of \<^verbatim>\<open>src/src/secondaryindex.cpp\<close>: \<^verbatim>\<open>IteratorState_T\<close>, the position of a client in the blocks of one
  iterator, and \<^verbatim>\<open>RowidIterator_Intersect_T\<close>, which walks several iterators at once. The iterators below are
  any implementation of \<^verbatim>\<open>RowidIterator_i\<close>; its methods are the record \<open>RowidIterator_i\<close>, and the locale
  \<open>rowid_iterator\<close> is the contract of the interface. Shown in it: an intersection hands out exactly the rows
  that all its iterators have, keeps the contract itself, and a cutoff takes a prefix.
\<close>

section \<open>Model\<close>

text \<open>The methods of the interface. The outer None is a failed assertion or a read out of range; a block is None when the method
  returns false.\<close>

record 'i RowidIterator_i =
  v_GetNextRowIdBlock :: "'i \<Rightarrow> (RowID_t list option \<times> 'i) option"
  v_HintRowID :: "RowID_t \<Rightarrow> 'i \<Rightarrow> (bool \<times> 'i) option"

text \<open>The block between \<^verbatim>\<open>m_pRowID\<close> and \<^verbatim>\<open>m_pRowIDMax\<close> is kept whole, with the index of \<^verbatim>\<open>m_pRowID\<close> in it; None stands for the null
  pointers.\<close>

record 'i IteratorState_T =
  s_pIterator :: 'i
  s_dBlock :: "RowID_t list option"
  s_iRow :: nat
  s_bStopped :: bool

definition IteratorState_new :: "'i \<Rightarrow> 'i IteratorState_T" where
  "IteratorState_new i = \<lparr>s_pIterator = i, s_dBlock = None, s_iRow = 0, s_bStopped = False\<rparr>"

definition IteratorState_Stop :: "'i IteratorState_T \<Rightarrow> 'i IteratorState_T" where
  "IteratorState_Stop s = s\<lparr>s_dBlock := None, s_iRow := 0, s_bStopped := True\<rparr>"

text \<open>\<^verbatim>\<open>*m_pRowID\<close>\<close>

definition s_pRowID :: "'i IteratorState_T \<Rightarrow> RowID_t option" where
  "s_pRowID s = do { b \<leftarrow> s_dBlock s; if s_iRow s < length b then Some (b ! s_iRow s) else None }"

definition WarmupDocs :: "'i RowidIterator_i \<Rightarrow> 'i IteratorState_T \<Rightarrow> (bool \<times> 'i IteratorState_T) option" where
  "WarmupDocs V s = do {
     (x, i) \<leftarrow> v_GetNextRowIdBlock V (s_pIterator s);
     let s = s\<lparr>s_pIterator := i\<rparr>;
     case x of None \<Rightarrow> Some (False, IteratorState_Stop s)
     | Some b \<Rightarrow> Some (True, s\<lparr>s_dBlock := Some b, s_iRow := 0\<rparr>)
   }"

definition WarmupDocs_row :: "'i RowidIterator_i \<Rightarrow> RowID_t \<Rightarrow> 'i IteratorState_T \<Rightarrow> (bool \<times> 'i IteratorState_T) option" where
  "WarmupDocs_row V tRowID s = do {
     (ok, i) \<leftarrow> v_HintRowID V tRowID (s_pIterator s);
     let s = s\<lparr>s_pIterator := i\<rparr>;
     if \<not> ok then Some (False, IteratorState_Stop s) else WarmupDocs V s
   }"

partial_function (option) rewind_blocks :: "'i RowidIterator_i \<Rightarrow> RowID_t \<Rightarrow> 'i IteratorState_T \<Rightarrow> (bool \<times> 'i IteratorState_T) option" where
  "rewind_blocks V tRowID s = do {
     b \<leftarrow> s_dBlock s;
     if b = [] then None
     else if tRowID > last b then do {
       (ok, s) \<leftarrow> WarmupDocs_row V tRowID s;
       if \<not> ok then Some (False, s) else rewind_blocks V tRowID s
     } else Some (True, s)
   }"

partial_function (option) rewind_scan :: "'i RowidIterator_i \<Rightarrow> RowID_t \<Rightarrow> 'i IteratorState_T \<Rightarrow> (bool \<times> 'i IteratorState_T) option" where
  "rewind_scan V tRowID s = do {
     b \<leftarrow> s_dBlock s;
     let p = s_iRow s + linear_seek tRowID (drop (s_iRow s) b);
     if p < length b then Some (True, s\<lparr>s_iRow := p\<rparr>)
     else do {
       (ok, s) \<leftarrow> WarmupDocs V s;
       if \<not> ok then Some (False, s) else rewind_scan V tRowID s
     }
   }"

definition RewindTo :: "'i RowidIterator_i \<Rightarrow> RowID_t \<Rightarrow> 'i IteratorState_T \<Rightarrow> (bool \<times> 'i IteratorState_T) option" where
  "RewindTo V tRowID s =
    (if s_bStopped s then None
     else do {
       (ok, s) \<leftarrow> rewind_blocks V tRowID s;
       if \<not> ok then Some (False, s) else rewind_scan V tRowID s
     })"

subsection \<open>Intersection\<close>

text \<open>\<^verbatim>\<open>m_dIterators[0]\<close> and the rest of \<^verbatim>\<open>m_dIterators\<close>\<close>

record 'i RowidIterator_Intersect_T =
  x_tFirst :: "'i IteratorState_T"
  x_dRest :: "'i IteratorState_T list"
  x_iRowsLeft :: int

definition INT_MAX :: int where
  "INT_MAX = 2147483647"

definition SI_MAX_COLLECTED :: int where
  "SI_MAX_COLLECTED = 1024"

definition Intersect_new :: "'i RowidIterator_i \<Rightarrow> 'i list \<Rightarrow> 'i RowidIterator_Intersect_T option" where
  "Intersect_new V its =
    (case map IteratorState_new its of [] \<Rightarrow> None
     | f # rest \<Rightarrow> do {
         (ok, f) \<leftarrow> WarmupDocs V f;
         Some \<lparr>x_tFirst = f, x_dRest = rest, x_iRowsLeft = INT_MAX\<rparr>
       })"

definition Intersect_HintRowID :: "'i RowidIterator_i \<Rightarrow> RowID_t \<Rightarrow> 'i RowidIterator_Intersect_T \<Rightarrow>
   (bool \<times> 'i RowidIterator_Intersect_T) option" where
  "Intersect_HintRowID V tRowID x =
    (if s_bStopped (x_tFirst x) then Some (False, x)
     else do { (ok, f) \<leftarrow> RewindTo V tRowID (x_tFirst x); Some (ok, x\<lparr>x_tFirst := f\<rparr>) })"

text \<open>The loop of \<^verbatim>\<open>AdvanceIterators\<close>; \<open>i\<close> counts in the rest, so that the restart at \<^verbatim>\<open>i = 0\<close> followed by \<^verbatim>\<open>i++\<close> is index 0.\<close>

partial_function (option) advance_loop ::
  "'i RowidIterator_i \<Rightarrow> 'i IteratorState_T \<times> 'i IteratorState_T list \<times> nat \<times> RowID_t \<Rightarrow>
   (bool \<times> 'i IteratorState_T \<times> 'i IteratorState_T list) option" where
  "advance_loop V st =
    (case st of (tFirst, dRest, i, tMaxRowID) \<Rightarrow>
     if i \<ge> length dRest then Some (True, tFirst, dRest)
     else do {
       (ok, s) \<leftarrow> (if s_dBlock (dRest ! i) = None then WarmupDocs_row V tMaxRowID (dRest ! i) else Some (True, dRest ! i));
       if \<not> ok then Some (False, tFirst, dRest[i := s])
       else do {
         c \<leftarrow> s_pRowID s;
         if c = tMaxRowID then advance_loop V (tFirst, dRest[i := s], i + 1, tMaxRowID)
         else do {
           (ok, s) \<leftarrow> RewindTo V tMaxRowID s;
           if \<not> ok then Some (False, tFirst, dRest[i := s])
           else do {
             c \<leftarrow> s_pRowID s;
             if c > tMaxRowID then do {
               (ok, f) \<leftarrow> RewindTo V c tFirst;
               if \<not> ok then Some (False, f, dRest[i := s])
               else do { m \<leftarrow> s_pRowID f; advance_loop V (f, dRest[i := s], 0, m) }
             } else advance_loop V (tFirst, dRest[i := s], i + 1, tMaxRowID)
           }
         }
       }
     })"

definition AdvanceIterators :: "'i RowidIterator_i \<Rightarrow> 'i IteratorState_T \<Rightarrow> 'i IteratorState_T list \<Rightarrow>
   (bool \<times> 'i IteratorState_T \<times> 'i IteratorState_T list) option" where
  "AdvanceIterators V tFirst dRest = do { m \<leftarrow> s_pRowID tFirst; advance_loop V (tFirst, dRest, 0, m) }"

text \<open>The collecting loop; \<open>n\<close> is the space left, \<^verbatim>\<open>pRowIdMax-pRowID\<close>.\<close>

fun collect_loop :: "'i RowidIterator_i \<Rightarrow> nat \<Rightarrow> 'i IteratorState_T \<Rightarrow> 'i IteratorState_T list \<Rightarrow>
   (RowID_t list \<times> 'i IteratorState_T \<times> 'i IteratorState_T list) option" where
  "collect_loop V 0 tFirst dRest = Some ([], tFirst, dRest)"
| "collect_loop V (Suc n) tFirst dRest =
    (if s_dBlock tFirst = None then Some ([], tFirst, dRest)
     else do {
       (ok, f, r) \<leftarrow> AdvanceIterators V tFirst dRest;
       if \<not> ok then Some ([], IteratorState_Stop f, r)
       else do {
         c \<leftarrow> s_pRowID f;
         b \<leftarrow> s_dBlock f;
         let f = f\<lparr>s_iRow := s_iRow f + 1\<rparr>;
         (ok, f) \<leftarrow> (if s_iRow f \<ge> length b then WarmupDocs V f else Some (True, f));
         if \<not> ok then Some ([c], f, r)
         else do { (xs, f, r) \<leftarrow> collect_loop V n f r; Some (c # xs, f, r) }
       }
     })"

definition Intersect_GetNextRowIdBlock :: "'i RowidIterator_i \<Rightarrow> 'i RowidIterator_Intersect_T \<Rightarrow>
   (RowID_t list option \<times> 'i RowidIterator_Intersect_T) option" where
  "Intersect_GetNextRowIdBlock V x = do {
     (xs, f, r) \<leftarrow> collect_loop V (nat (min (SI_MAX_COLLECTED - 1) (x_iRowsLeft x))) (x_tFirst x) (x_dRest x);
     let left = (if x_iRowsLeft x \<noteq> INT_MAX then x_iRowsLeft x - int (length xs) else x_iRowsLeft x);
     if left < 0 then None
     else Some (ReturnIteratorResult xs, \<lparr>x_tFirst = f, x_dRest = r, x_iRowsLeft = left\<rparr>)
   }"

definition Intersect_SetCutoff :: "int \<Rightarrow> 'i RowidIterator_Intersect_T \<Rightarrow> 'i RowidIterator_Intersect_T" where
  "Intersect_SetCutoff iCutoff x = x\<lparr>x_iRowsLeft := iCutoff\<rparr>"

definition Intersect_WasCutoffHit :: "'i RowidIterator_Intersect_T \<Rightarrow> bool" where
  "Intersect_WasCutoffHit x = (x_iRowsLeft x = 0)"

definition Intersect_i :: "'i RowidIterator_i \<Rightarrow> ('i RowidIterator_Intersect_T) RowidIterator_i" where
  "Intersect_i V = \<lparr>v_GetNextRowIdBlock = Intersect_GetNextRowIdBlock V, v_HintRowID = Intersect_HintRowID V\<rparr>"

text \<open>How the clients use an iterator: blocks are read until the method returns false. None when \<open>n\<close> calls are not enough.\<close>

fun read_all :: "'i RowidIterator_i \<Rightarrow> nat \<Rightarrow> 'i \<Rightarrow> (RowID_t list \<times> 'i) option" where
  "read_all V 0 i = None"
| "read_all V (Suc n) i = do {
     (x, i) \<leftarrow> v_GetNextRowIdBlock V i;
     case x of None \<Rightarrow> Some ([], i) | Some b \<Rightarrow> do { (xs, i) \<leftarrow> read_all V n i; Some (b @ xs, i) }
   }"

section \<open>The contract of a row iterator\<close>

text \<open>\<open>rows i xs\<close>: the iterator has still to hand out the rows \<open>xs\<close>. Nothing is promised of an iterator that returned false.\<close>

locale rowid_iterator =
  fixes V :: "'i RowidIterator_i" and rows :: "'i \<Rightarrow> RowID_t list \<Rightarrow> bool"
  assumes rows_sorted: "rows i xs \<Longrightarrow> sorted_wrt (<) xs"
    and next_none: "rows i [] \<Longrightarrow> \<exists>i'. v_GetNextRowIdBlock V i = Some (None, i')"
    and next_some: "rows i xs \<Longrightarrow> xs \<noteq> [] \<Longrightarrow>
      \<exists>n i'. 0 < n \<and> v_GetNextRowIdBlock V i = Some (Some (take n xs), i') \<and> rows i' (drop n xs)"
    and hint_rows: "rows i xs \<Longrightarrow> \<exists>b i' n. v_HintRowID V r i = Some (b, i') \<and> (\<forall>x \<in> set (take n xs). x < r) \<and>
      (b \<longrightarrow> rows i' (drop n xs)) \<and> (\<not> b \<longrightarrow> (\<forall>x \<in> set xs. x < r))"
begin

lemma read_all_rows:
  assumes "rows i xs" "length xs < n"
  shows "\<exists>i'. read_all V n i = Some (xs, i')"
  using assms
proof (induction n arbitrary: i xs)
  case (Suc n)
  show ?case
  proof (cases "xs = []")
    case True
    then show ?thesis using next_none[of i] Suc.prems(1) by auto
  next
    case False
    obtain k i' where k: "0 < k" "v_GetNextRowIdBlock V i = Some (Some (take k xs), i')" "rows i' (drop k xs)"
      using next_some[OF Suc.prems(1) False] by blast
    have "length (drop k xs) < n" using k(1) Suc.prems(2) False by (cases xs) auto
    from Suc.IH[OF k(3) this] k(2) show ?thesis by auto
  qed
qed simp

end

section \<open>Positions\<close>

text \<open>What a position leaves to read, before the first block and after it.\<close>

definition position :: "('i \<Rightarrow> RowID_t list \<Rightarrow> bool) \<Rightarrow> 'i IteratorState_T \<Rightarrow> RowID_t list \<Rightarrow> bool" where
  "position rows s xs \<longleftrightarrow> \<not> s_bStopped s \<and>
    (case s_dBlock s of None \<Rightarrow> rows (s_pIterator s) xs
     | Some b \<Rightarrow> s_iRow s < length b \<and> sorted_wrt (<) xs \<and> (\<exists>ys. rows (s_pIterator s) ys \<and> xs = drop (s_iRow s) b @ ys))"

definition started :: "'i IteratorState_T \<Rightarrow> bool" where
  "started s \<longleftrightarrow> s_dBlock s \<noteq> None"

definition halted :: "'i IteratorState_T \<Rightarrow> bool" where
  "halted s \<longleftrightarrow> s_dBlock s = None \<and> s_bStopped s"

lemma sorted_le_last: "sorted_wrt (<) xs \<Longrightarrow> x \<in> set xs \<Longrightarrow> x \<le> last xs" for x :: "'a::linorder"
  by (induction xs) (auto intro: less_imp_le)

lemma filter_split_sorted:
  fixes xs :: "'a::linorder list"
  assumes "sorted_wrt (<) xs" "\<forall>x \<in> set (take k xs). x < r" "k < length xs" "\<not> xs ! k < r"
  shows "filter (\<lambda>x. \<not> x < r) xs = drop k xs"
proof -
  have d: "drop k xs = xs ! k # drop (Suc k) xs" using assms(3) by (simp add: Cons_nth_drop_Suc)
  have "sorted_wrt (<) (xs ! k # drop (Suc k) xs)" using sorted_wrt_drop[OF assms(1), of k] d by simp
  then have "\<forall>x \<in> set (drop k xs). \<not> x < r" using assms(4) unfolding d by (auto dest: less_trans)
  then have "filter (\<lambda>x. \<not> x < r) (take k xs @ drop k xs) = drop k xs" using assms(2) by (simp del: append_take_drop_id)
  then show ?thesis by simp
qed

lemma filter_less_append:
  fixes xs :: "'a::linorder list"
  shows "sorted_wrt (<) xs \<Longrightarrow> filter (\<lambda>y. y < r) xs @ filter (\<lambda>y. \<not> y < r) xs = xs"
proof (induction xs)
  case (Cons a xs)
  have "filter (\<lambda>y. y < r) (a # xs) = []" if "\<not> a < r" using that Cons.prems by (auto simp: filter_empty_conv dest: less_trans)
  then show ?case using Cons by (cases "a < r") auto
qed simp

lemma halted_Stop [simp]: "halted (IteratorState_Stop s)"
  by (simp add: halted_def IteratorState_Stop_def)

lemma position_current:
  assumes "position rows s xs" "started s"
  shows "\<exists>c ys. xs = c # ys \<and> s_pRowID s = Some c"
proof -
  obtain b zs where b: "s_dBlock s = Some b" "s_iRow s < length b" "xs = drop (s_iRow s) b @ zs"
    using assms by (auto simp: position_def started_def)
  then show ?thesis by (simp add: s_pRowID_def Cons_nth_drop_Suc[symmetric])
qed

context rowid_iterator
begin

lemma position_sorted: "position rows s xs \<Longrightarrow> sorted_wrt (<) xs"
  by (auto simp: position_def intro: rows_sorted split: option.splits)

lemma warmup:
  assumes "rows (s_pIterator s) ys" "\<not> s_bStopped s"
  shows "\<exists>s'. WarmupDocs V s = Some (ys \<noteq> [], s') \<and> (if ys = [] then halted s' else position rows s' ys \<and> started s')"
proof (cases "ys = []")
  case True
  then obtain i' where "v_GetNextRowIdBlock V (s_pIterator s) = Some (None, i')" using next_none assms(1) by blast
  then show ?thesis using True by (simp add: WarmupDocs_def)
next
  case False
  obtain n i' where n: "0 < n" "v_GetNextRowIdBlock V (s_pIterator s) = Some (Some (take n ys), i')" "rows i' (drop n ys)"
    using next_some[OF assms(1) False] by blast
  then show ?thesis using False assms rows_sorted[OF assms(1)]
    by (auto simp: WarmupDocs_def position_def started_def)
qed

lemma warmup_row:
  assumes "rows (s_pIterator s) ys" "\<not> s_bStopped s"
  shows "\<exists>ok s' n. WarmupDocs_row V r s = Some (ok, s') \<and> (\<forall>x \<in> set (take n ys). x < r) \<and>
    (if ok then position rows s' (drop n ys) \<and> started s' else halted s' \<and> (\<forall>x \<in> set ys. x < r))"
proof -
  obtain b i' n where h: "v_HintRowID V r (s_pIterator s) = Some (b, i')" "\<forall>x \<in> set (take n ys). x < r"
    "b \<Longrightarrow> rows i' (drop n ys)" "\<not> b \<Longrightarrow> \<forall>x \<in> set ys. x < r"
    using hint_rows[OF assms(1), of r] by blast
  show ?thesis
  proof (cases b)
    case True
    obtain s' where s': "WarmupDocs V (s\<lparr>s_pIterator := i'\<rparr>) = Some (drop n ys \<noteq> [], s')"
      "if drop n ys = [] then halted s' else position rows s' (drop n ys) \<and> started s'"
      using warmup[of "s\<lparr>s_pIterator := i'\<rparr>" "drop n ys"] h(3)[OF True] assms(2) by auto
    then have "drop n ys = [] \<Longrightarrow> \<forall>x \<in> set ys. x < r" using h(2) by simp
    then show ?thesis using True h(1,2) s' by (intro exI[of _ "drop n ys \<noteq> []"] exI[of _ s'] exI[of _ n]) (auto simp: WarmupDocs_row_def)
  next
    case False
    then show ?thesis using h(1,2,4) by (intro exI[of _ False]) (auto simp: WarmupDocs_row_def)
  qed
qed

text \<open>Both loops of \<^verbatim>\<open>RewindTo\<close> skip smaller rows only.\<close>

lemma rewind_blocks_spec:
  assumes "position rows s xs" "started s"
  shows "\<exists>ok s' n. rewind_blocks V r s = Some (ok, s') \<and> (\<forall>x \<in> set (take n xs). x < r) \<and>
    (if ok then position rows s' (drop n xs) \<and> started s' else halted s' \<and> (\<forall>x \<in> set xs. x < r))"
  using assms
proof (induction "length xs" arbitrary: s xs rule: less_induct)
  case less
  obtain b ys where b: "s_dBlock s = Some b" "s_iRow s < length b" "xs = drop (s_iRow s) b @ ys" "rows (s_pIterator s) ys" "\<not> s_bStopped s"
    using less.prems by (auto simp: position_def started_def)
  have ne: "b \<noteq> []" using b(2) by auto
  show ?case
  proof (cases "r > last b")
    case False
    then show ?thesis using less.prems b(1) ne
      by (intro exI[of _ True] exI[of _ s] exI[of _ 0]) (simp add: rewind_blocks.simps[of V r s])
  next
    case True
    let ?d = "drop (s_iRow s) b"
    have lastd: "last ?d = last b" "?d \<noteq> []" using b(2) by simp_all
    have "sorted_wrt (<) ?d" using position_sorted[OF less.prems(1)] b(3) by (simp add: sorted_wrt_append)
    then have small: "\<forall>x \<in> set ?d. x < r" using sorted_le_last[of ?d] True lastd(1) by (auto intro: le_less_trans)
    obtain ok s1 n where w: "WarmupDocs_row V r s = Some (ok, s1)" "\<forall>x \<in> set (take n ys). x < r"
      "if ok then position rows s1 (drop n ys) \<and> started s1 else halted s1 \<and> (\<forall>x \<in> set ys. x < r)"
      using warmup_row[OF b(4,5), of r] by blast
    show ?thesis
    proof (cases ok)
      case False
      then show ?thesis using w b(1,3) ne True small by (intro exI[of _ False] exI[of _ s1] exI[of _ 0]) (simp add: rewind_blocks.simps[of V r s] ball_Un)
    next
      case ok: True
      have "length (drop n ys) < length xs" using b(2,3) by simp
      then obtain ok2 s2 m where s2: "rewind_blocks V r s1 = Some (ok2, s2)" "\<forall>x \<in> set (take m (drop n ys)). x < r"
        "if ok2 then position rows s2 (drop m (drop n ys)) \<and> started s2 else halted s2 \<and> (\<forall>x \<in> set (drop n ys). x < r)"
        using less.hyps[of "drop n ys" s1] ok w(3) by auto
      let ?k = "length ?d + (n + m)"
      have t: "take ?k xs = ?d @ take n ys @ take m (drop n ys)" "drop ?k xs = drop m (drop n ys)"
        unfolding b(3) take_append drop_append by (simp_all add: take_add add.commute[of m n])
      have "\<forall>x \<in> set ys. x < r" if "\<forall>x \<in> set (drop n ys). x < r"
        using that w(2) set_append[of "take n ys" "drop n ys"] by auto
      then have all: "\<forall>x \<in> set xs. x < r" if "\<not> ok2" using that s2(3) small by (auto simp: b(3))
      have "\<forall>x \<in> set (take ?k xs). x < r" unfolding t using small w(2) s2(2) by (simp add: ball_Un)
      moreover have "rewind_blocks V r s = Some (ok2, s2)" using s2(1) w(1) b(1) ne True ok by (simp add: rewind_blocks.simps[of V r s])
      moreover have "if ok2 then position rows s2 (drop ?k xs) \<and> started s2 else halted s2 \<and> (\<forall>x \<in> set xs. x < r)"
        using s2(3) all unfolding t by auto
      ultimately show ?thesis by blast
    qed
  qed
qed

lemma rewind_scan_spec:
  assumes "position rows s xs" "started s"
  shows "\<exists>s'. rewind_scan V r s = Some (filter (\<lambda>x. \<not> x < r) xs \<noteq> [], s') \<and>
    (if filter (\<lambda>x. \<not> x < r) xs \<noteq> [] then position rows s' (filter (\<lambda>x. \<not> x < r) xs) \<and> started s' else halted s')"
  using assms
proof (induction "length xs" arbitrary: s xs rule: less_induct)
  case less
  obtain b ys where b: "s_dBlock s = Some b" "s_iRow s < length b" "xs = drop (s_iRow s) b @ ys" "rows (s_pIterator s) ys" "\<not> s_bStopped s"
    using less.prems by (auto simp: position_def started_def)
  define d where "d = drop (s_iRow s) b"
  define k where "k = linear_seek r d"
  let ?F = "filter (\<lambda>x. \<not> x < r)"
  have xs: "xs = d @ ys" and len: "length d = length b - s_iRow s" using b(3) by (simp_all add: d_def)
  have srt: "sorted_wrt (<) xs" by (rule position_sorted[OF less.prems(1)])
  have small: "\<forall>x \<in> set (take k d). x < r" unfolding k_def by (rule linear_seek_spec)
  note step = rewind_scan.simps[of V r s, unfolded b(1) Option.bind.simps Let_def, folded d_def, folded k_def]
  show ?case
  proof (cases "s_iRow s + k < length b")
    case True
    then have k: "k < length d" using len by simp
    have "\<not> d ! k < r" using linear_seek_spec(3)[of r d] k by (simp add: k_def)
    then have F: "?F xs = drop k xs"
      using filter_split_sorted[OF srt, of k r] small k by (simp add: xs nth_append)
    have "position rows (s\<lparr>s_iRow := s_iRow s + k\<rparr>) (drop k xs)"
      using True b(1,4,5) sorted_wrt_drop[OF srt, of k] k by (auto simp: position_def xs d_def add.commute)
    moreover have "drop k xs \<noteq> []" using k by (simp add: xs)
    moreover have "started (s\<lparr>s_iRow := s_iRow s + k\<rparr>)" using b(1) by (simp add: started_def)
    moreover have "rewind_scan V r s = Some (True, s\<lparr>s_iRow := s_iRow s + k\<rparr>)" unfolding step using True by simp
    ultimately show ?thesis unfolding F by simp
  next
    case False
    then have "take k d = d" using len b(2) by simp
    then have F: "?F xs = ?F ys" using small by (simp add: xs)
    obtain s1 where s1: "WarmupDocs V s = Some (ys \<noteq> [], s1)" "if ys = [] then halted s1 else position rows s1 ys \<and> started s1"
      using warmup[OF b(4,5)] by blast
    show ?thesis
    proof (cases "ys = []")
      case True
      then show ?thesis using s1 False unfolding F step by simp
    next
      case ne: False
      have "length ys < length xs" using b(2) len by (simp add: xs)
      from less.hyps[OF this, of s1] ne s1 False show ?thesis unfolding F step by simp
    qed
  qed
qed

lemma RewindTo_spec:
  assumes "position rows s xs" "started s"
  shows "\<exists>s'. RewindTo V r s = Some (filter (\<lambda>x. \<not> x < r) xs \<noteq> [], s') \<and>
    (if filter (\<lambda>x. \<not> x < r) xs \<noteq> [] then position rows s' (filter (\<lambda>x. \<not> x < r) xs) \<and> started s' else halted s')"
proof -
  let ?F = "filter (\<lambda>x. \<not> x < r)"
  obtain ok s1 n where s1: "rewind_blocks V r s = Some (ok, s1)" "\<forall>x \<in> set (take n xs). x < r"
    "if ok then position rows s1 (drop n xs) \<and> started s1 else halted s1 \<and> (\<forall>x \<in> set xs. x < r)"
    using rewind_blocks_spec[OF assms, of r] by blast
  have st: "\<not> s_bStopped s" using assms(1) by (simp add: position_def)
  show ?thesis
  proof (cases ok)
    case True
    have "?F (take n xs) = []" using s1(2) by simp
    then have "?F (drop n xs) = ?F xs" by (metis append_Nil append_take_drop_id filter_append)
    then show ?thesis using rewind_scan_spec[of s1 "drop n xs" r] s1 True st by (auto simp: RewindTo_def)
  next
    case False
    then have "?F xs = []" using s1(3) by simp
    then show ?thesis using s1 False st by (simp add: RewindTo_def)
  qed
qed

end

section \<open>Intersection\<close>

definition common_rows :: "RowID_t list \<Rightarrow> RowID_t list list \<Rightarrow> RowID_t list" where
  "common_rows F Os = filter (\<lambda>x. \<forall>O' \<in> set Os. x \<in> set O') F"

lemma common_rows_update:
  assumes "i < length Os" "\<And>x. x \<in> set F \<Longrightarrow> x \<in> set P \<longleftrightarrow> x \<in> set (Os ! i)"
  shows "common_rows F (Os[i := P]) = common_rows F Os"
proof -
  have "(\<forall>O' \<in> set (Os[i := P]). x \<in> set O') \<longleftrightarrow> (\<forall>O' \<in> set Os. x \<in> set O')" if "x \<in> set F" for x
    using assms(1) assms(2)[OF that] unfolding all_set_conv_all_nth by (auto simp: nth_list_update)
  then show ?thesis unfolding common_rows_def by (intro filter_cong) auto
qed

lemma common_rows_first:
  assumes "i < length Os" "\<And>x. x \<in> set (Os ! i) \<Longrightarrow> Q x"
  shows "common_rows (filter Q F) Os = common_rows F Os"
  unfolding common_rows_def filter_filter using assms nth_mem[OF assms(1)] by (intro filter_cong) auto

lemma drop_same_members:
  fixes xs :: "'a::linorder list"
  assumes "\<forall>x \<in> set (take n xs). x < m" "\<not> y < m"
  shows "y \<in> set (drop n xs) \<longleftrightarrow> y \<in> set xs"
  using assms set_append[of "take n xs" "drop n xs"] by auto

text \<open>The positions of the rest.\<close>

definition positions :: "('i \<Rightarrow> RowID_t list \<Rightarrow> bool) \<Rightarrow> 'i IteratorState_T list \<Rightarrow> RowID_t list list \<Rightarrow> bool" where
  "positions rows ss Os \<longleftrightarrow> list_all2 (position rows) ss Os"

lemma positions_nth: "positions rows ss Os \<Longrightarrow> i < length ss \<Longrightarrow> position rows (ss ! i) (Os ! i)"
  by (simp add: positions_def list_all2_conv_all_nth)

lemma positions_length: "positions rows ss Os \<Longrightarrow> length Os = length ss"
  by (simp add: positions_def list_all2_lengthD)

lemma positions_update: "positions rows ss Os \<Longrightarrow> position rows s P \<Longrightarrow> positions rows (ss[i := s]) (Os[i := P])"
  by (simp add: positions_def list_all2_update_cong)

text \<open>What is known while \<^verbatim>\<open>AdvanceIterators\<close> runs: the iterators before \<open>i\<close> stand at the current row.\<close>

definition advancing :: "('i \<Rightarrow> RowID_t list \<Rightarrow> bool) \<Rightarrow> 'i IteratorState_T \<Rightarrow> RowID_t \<Rightarrow> RowID_t list \<Rightarrow>
   'i IteratorState_T list \<Rightarrow> RowID_t list list \<Rightarrow> nat \<Rightarrow> bool" where
  "advancing rows f m F ss Os i \<longleftrightarrow> position rows f (m # F) \<and> started f \<and> positions rows ss Os \<and>
    (\<forall>j < i. j < length Os \<longrightarrow> m \<in> set (Os ! j))"

text \<open>The other iterator is brought to the current row or past it.\<close>

definition catch_up :: "'i RowidIterator_i \<Rightarrow> RowID_t \<Rightarrow> 'i IteratorState_T \<Rightarrow> (bool \<times> 'i IteratorState_T) option" where
  "catch_up V m s = do {
     (ok, s) \<leftarrow> (if s_dBlock s = None then WarmupDocs_row V m s else Some (True, s));
     if \<not> ok then Some (False, s)
     else do { c \<leftarrow> s_pRowID s; if c = m then Some (True, s) else RewindTo V m s }
   }"

lemma advance_step:
  assumes "i < length ss" "catch_up V m (ss ! i) = Some (ok, s)" "ok \<longrightarrow> s_pRowID s = Some c"
  shows "advance_loop V (f, ss, i, m) =
    (if \<not> ok then Some (False, f, ss[i := s])
     else if c > m then do {
       (ok, f) \<leftarrow> RewindTo V c f;
       if \<not> ok then Some (False, f, ss[i := s])
       else do { m \<leftarrow> s_pRowID f; advance_loop V (f, ss[i := s], 0, m) }
     } else advance_loop V (f, ss[i := s], i + 1, m))"
proof -
  note st = advance_loop.simps[of V "(f, ss, i, m)"]
  obtain ok1 s1 where s1: "(if s_dBlock (ss ! i) = None then WarmupDocs_row V m (ss ! i) else Some (True, ss ! i)) = Some (ok1, s1)"
    using assms(2) by (auto simp: catch_up_def bind_eq_Some_conv)
  show ?thesis
  proof (cases ok1)
    case False
    then have "\<not> ok" "s = s1" using assms(2) s1 by (simp_all add: catch_up_def)
    then show ?thesis unfolding st using assms(1) s1 False by simp
  next
    case True
    then obtain c1 where c1: "s_pRowID s1 = Some c1" "(if c1 = m then Some (True, s1) else RewindTo V m s1) = Some (ok, s)"
      using assms(2) s1 by (auto simp: catch_up_def bind_eq_Some_conv)
    show ?thesis
    proof (cases "c1 = m")
      case eq: True
      then have "ok" "s = s1" "c = m" using c1 assms(3) by auto
      then show ?thesis unfolding st using assms(1) s1 True c1(1) eq by simp
    next
      case False
      then show ?thesis unfolding st using assms(1,3) s1 True c1 by simp
    qed
  qed
qed

context rowid_iterator
begin

lemma catch_up_spec:
  assumes "position rows s xs"
  shows "\<exists>ok s'. catch_up V m s = Some (ok, s') \<and>
    (if ok then \<exists>c ys. position rows s' (c # ys) \<and> started s' \<and> s_pRowID s' = Some c \<and> \<not> c < m \<and>
       (\<forall>x. \<not> x < m \<longrightarrow> x \<in> set (c # ys) \<longleftrightarrow> x \<in> set xs)
     else \<forall>x \<in> set xs. x < m)"
proof -
  obtain ok1 s1 n where s1: "(if s_dBlock s = None then WarmupDocs_row V m s else Some (True, s)) = Some (ok1, s1)"
    "\<forall>x \<in> set (take n xs). x < m" "if ok1 then position rows s1 (drop n xs) \<and> started s1 else \<forall>x \<in> set xs. x < m"
  proof (cases "s_dBlock s = None")
    case True
    then have "rows (s_pIterator s) xs" "\<not> s_bStopped s" using assms by (simp_all add: position_def)
    from warmup_row[OF this, of m] that True show ?thesis by (auto split: if_splits)
  next
    case False
    then show ?thesis using assms by (intro that[of True s 0]) (auto simp: started_def)
  qed
  show ?thesis
  proof (cases ok1)
    case False
    then show ?thesis using s1 by (auto simp: catch_up_def)
  next
    case True
    then have p: "position rows s1 (drop n xs)" "started s1" using s1(3) by auto
    obtain c ys where c: "drop n xs = c # ys" "s_pRowID s1 = Some c" using position_current[OF p] by blast
    have mem: "\<not> x < m \<Longrightarrow> x \<in> set (drop n xs) \<longleftrightarrow> x \<in> set xs" for x by (rule drop_same_members[OF s1(2)])
    show ?thesis
    proof (cases "c = m")
      case eq: True
      then show ?thesis using s1(1) True c p mem
        by (intro exI[of _ True] exI[of _ s1]) (auto simp: catch_up_def)
    next
      case ne: False
      let ?G = "filter (\<lambda>x. \<not> x < m) (drop n xs)"
      obtain s2 where s2: "RewindTo V m s1 = Some (?G \<noteq> [], s2)"
        "if ?G \<noteq> [] then position rows s2 ?G \<and> started s2 else halted s2"
        using RewindTo_spec[OF p, of m] by blast
      have cu: "catch_up V m s = Some (?G \<noteq> [], s2)" using s1(1) True c(2) ne s2(1) by (simp add: catch_up_def)
      have mem2: "\<not> x < m \<Longrightarrow> x \<in> set ?G \<longleftrightarrow> x \<in> set xs" for x using mem[of x] by simp
      show ?thesis
      proof (cases "?G = []")
        case True
        then have "\<forall>x \<in> set xs. x < m" using mem2 by auto
        then show ?thesis using cu True by auto
      next
        case False
        then have q: "position rows s2 ?G" "started s2" using s2(2) by auto
        obtain e zs where e: "?G = e # zs" "s_pRowID s2 = Some e" using position_current[OF q] by blast
        have "e \<in> set ?G" unfolding e(1) by simp
        then have "\<not> e < m" by simp
        then show ?thesis using cu False q e mem2 unfolding e(1) by auto
      qed
    qed
  qed
qed

lemma advance_spec:
  assumes "advancing rows f m F ss Os i"
  shows "\<exists>ok f' ss'. advance_loop V (f, ss, i, m) = Some (ok, f', ss') \<and>
    (if ok then \<exists>m' F' Os'. advancing rows f' m' F' ss' Os' (length Os') \<and> common_rows (m' # F') Os' = common_rows (m # F) Os
     else common_rows (m # F) Os = [])"
  using assms
proof (induction "length F * (length ss + 1) + (length ss - i)" arbitrary: f m F ss Os i rule: less_induct)
  case less
  have f: "position rows f (m # F)" "started f" and ss: "positions rows ss Os"
    and past: "\<forall>j < i. j < length Os \<longrightarrow> m \<in> set (Os ! j)" using less.prems by (auto simp: advancing_def)
  have L: "length Os = length ss" by (rule positions_length[OF ss])
  have srt: "sorted_wrt (<) (m # F)" by (rule position_sorted[OF f(1)])
  have ge: "\<not> x < m" if "x \<in> set (m # F)" for x using srt that by (auto dest: less_asym)
  show ?case
  proof (cases "i < length ss")
    case False
    then have "advance_loop V (f, ss, i, m) = Some (True, f, ss)" by (subst advance_loop.simps) simp
    moreover have "advancing rows f m F ss Os (length Os)" using f ss past False L by (simp add: advancing_def)
    ultimately show ?thesis by auto
  next
    case True
    obtain ok s where s: "catch_up V m (ss ! i) = Some (ok, s)"
      "if ok then \<exists>c ys. position rows s (c # ys) \<and> started s \<and> s_pRowID s = Some c \<and> \<not> c < m \<and>
         (\<forall>x. \<not> x < m \<longrightarrow> x \<in> set (c # ys) \<longleftrightarrow> x \<in> set (Os ! i))
       else \<forall>x \<in> set (Os ! i). x < m"
      using catch_up_spec[OF positions_nth[OF ss True], of m] by blast
    show ?thesis
    proof (cases ok)
      case False
      then have "\<forall>x \<in> set (Os ! i). x < m" using s(2) by simp
      then have "\<forall>x \<in> set (m # F). x \<notin> set (Os ! i)" using ge by blast
      then have "common_rows (m # F) Os = []" using True L nth_mem[of i Os]
        unfolding common_rows_def by (intro filter_False) metis
      moreover have "advance_loop V (f, ss, i, m) = Some (False, f, ss[i := s])" using advance_step[OF True s(1), of m f] False by simp
      ultimately show ?thesis by auto
    next
      case ok: True
      then obtain c ys where c: "position rows s (c # ys)" "started s" "s_pRowID s = Some c" "\<not> c < m"
        "\<forall>x. \<not> x < m \<longrightarrow> x \<in> set (c # ys) \<longleftrightarrow> x \<in> set (Os ! i)" using s(2) by auto
      let ?ss = "ss[i := s]" and ?Os = "Os[i := c # ys]"
      have pos: "positions rows ?ss ?Os" by (rule positions_update[OF ss c(1)])
      have same: "common_rows (m # F) ?Os = common_rows (m # F) Os"
        using True L ge c(5) by (intro common_rows_update) auto
      note st = advance_step[OF True s(1), of c f]
      show ?thesis
      proof (cases "c > m")
        case False
        then have cm: "c = m" using c(4) by (auto simp: not_less)
        have "m \<in> set (?Os ! j)" if "j < i + 1" "j < length ?Os" for j
          using that past cm by (cases "j = i") auto
        then have adv: "advancing rows f m F ?ss ?Os (i + 1)" using f pos by (simp add: advancing_def)
        have "length F * (length ?ss + 1) + (length ?ss - (i + 1)) < length F * (length ss + 1) + (length ss - i)" using True by simp
        moreover have "advance_loop V (f, ss, i, m) = advance_loop V (f, ?ss, i + 1, m)" using st ok c(3) False by simp
        ultimately show ?thesis using less.hyps[OF _ adv] unfolding same by presburger
      next
        case gt: True
        let ?G = "filter (\<lambda>x. \<not> x < c) (m # F)"
        obtain f' where f': "RewindTo V c f = Some (?G \<noteq> [], f')" "if ?G \<noteq> [] then position rows f' ?G \<and> started f' else halted f'"
          using RewindTo_spec[OF f, of c] by blast
        have "\<forall>x \<in> set (c # ys). \<not> x < c" using position_sorted[OF c(1)] by (auto dest: less_asym)
        then have G: "common_rows ?G ?Os = common_rows (m # F) Os" unfolding same[symmetric]
          using True L by (intro common_rows_first[of i]) auto
        show ?thesis
        proof (cases "?G = []")
          case True
          then have "common_rows (m # F) Os = []" using G by (simp add: common_rows_def)
          moreover have "advance_loop V (f, ss, i, m) = Some (False, f', ?ss)" using st ok c(3) gt f'(1) True by simp
          ultimately show ?thesis by auto
        next
          case False
          then have q: "position rows f' ?G" "started f'" using f'(2) by auto
          obtain e zs where e: "?G = e # zs" "s_pRowID f' = Some e" using position_current[OF q] by blast
          have adv: "advancing rows f' e zs ?ss ?Os 0" using q pos e(1) by (simp add: advancing_def)
          have "?G = filter (\<lambda>x. \<not> x < c) F" using gt by simp
          then have "length (e # zs) \<le> length F" using e(1) length_filter_le[of _ F] by metis
          then obtain k where "length F = Suc (length zs) + k" by (auto simp: le_iff_add)
          then have "length zs * (length ?ss + 1) + (length ?ss - 0) < length F * (length ss + 1) + (length ss - i)"
            using True by (simp add: algebra_simps)
          moreover have "advance_loop V (f, ss, i, m) = advance_loop V (f', ?ss, 0, e)" using st ok c(3) gt f'(1) False e(2) by simp
          ultimately show ?thesis using less.hyps[OF _ adv] unfolding G[unfolded e(1)] by presburger
        qed
      qed
    qed
  qed
qed

text \<open>The rows an intersection has still to hand out, without a cutoff.\<close>

definition intersect_at :: "'i IteratorState_T \<Rightarrow> 'i IteratorState_T list \<Rightarrow> RowID_t list \<Rightarrow> bool" where
  "intersect_at f ss L \<longleftrightarrow> halted f \<and> L = [] \<or>
    (\<exists>F Os. position rows f F \<and> started f \<and> positions rows ss Os \<and> L = common_rows F Os)"

lemma advance_row:
  assumes "position rows f (c # F)" "started f" "s_dBlock f = Some b"
  shows "\<exists>f'. (let f = f\<lparr>s_iRow := s_iRow f + 1\<rparr> in if s_iRow f \<ge> length b then WarmupDocs V f else Some (True, f)) = Some (F \<noteq> [], f') \<and>
    (if F = [] then halted f' else position rows f' F \<and> started f')"
proof -
  let ?f = "f\<lparr>s_iRow := s_iRow f + 1\<rparr>"
  obtain ys where ys: "s_iRow f < length b" "c # F = drop (s_iRow f) b @ ys" "rows (s_pIterator f) ys" "\<not> s_bStopped f"
    using assms by (auto simp: position_def)
  then have F: "F = drop (Suc (s_iRow f)) b @ ys" by (simp add: Cons_nth_drop_Suc[symmetric])
  have srt: "sorted_wrt (<) F" using position_sorted[OF assms(1)] by simp
  show ?thesis
  proof (cases "Suc (s_iRow f) \<ge> length b")
    case True
    then have "F = ys" using F by simp
    then show ?thesis using True warmup[of ?f ys] ys(3,4) by (cases "ys = []") (simp_all add: Let_def)
  next
    case False
    then have "position rows ?f F" "started ?f" "F \<noteq> []" using F srt ys(3,4) assms(3) by (auto simp: position_def started_def)
    then show ?thesis using False by (simp add: Let_def)
  qed
qed

lemma collect_spec:
  assumes "intersect_at f ss L"
  shows "\<exists>f' ss'. collect_loop V n f ss = Some (take n L, f', ss') \<and> intersect_at f' ss' (drop n L)"
  using assms
proof (induction n arbitrary: f ss L)
  case (Suc n)
  show ?case
  proof (cases "started f")
    case False
    then have "L = []" "s_dBlock f = None" using Suc.prems by (auto simp: intersect_at_def started_def)
    then show ?thesis using Suc.prems by simp
  next
    case True
    then obtain F Os where F: "position rows f F" "positions rows ss Os" "L = common_rows F Os"
      using Suc.prems by (auto simp: intersect_at_def halted_def started_def)
    obtain m G where m: "F = m # G" "s_pRowID f = Some m" using position_current[OF F(1) True] by blast
    have "advancing rows f m G ss Os 0" using F m True by (simp add: advancing_def)
    then obtain ok f1 ss1 where a: "advance_loop V (f, ss, 0, m) = Some (ok, f1, ss1)"
      "if ok then \<exists>m' F' Os'. advancing rows f1 m' F' ss1 Os' (length Os') \<and> common_rows (m' # F') Os' = L else L = []"
      using advance_spec F(3) m(1) by blast
    have adv: "AdvanceIterators V f ss = Some (ok, f1, ss1)" using a(1) m(2) by (simp add: AdvanceIterators_def)
    have nn: "s_dBlock f \<noteq> None" using True by (simp add: started_def)
    show ?thesis
    proof (cases ok)
      case False
      then show ?thesis using a(2) adv nn by (auto simp: intersect_at_def)
    next
      case ok: True
      then obtain c G Os1 where c: "advancing rows f1 c G ss1 Os1 (length Os1)" "common_rows (c # G) Os1 = L" using a(2) by auto
      then have p: "position rows f1 (c # G)" "started f1" "positions rows ss1 Os1" "\<forall>O' \<in> set Os1. c \<in> set O'"
        by (auto simp: advancing_def all_set_conv_all_nth)
      have L: "L = c # common_rows G Os1" using c(2) p(4) by (simp add: common_rows_def)
      obtain b where b: "s_dBlock f1 = Some b" using p(2) by (auto simp: started_def)
      have cur: "s_pRowID f1 = Some c" using position_current[OF p(1,2)] by auto
      obtain f2 where f2: "(let f = f1\<lparr>s_iRow := s_iRow f1 + 1\<rparr> in if s_iRow f \<ge> length b then WarmupDocs V f else Some (True, f)) = Some (G \<noteq> [], f2)"
        "if G = [] then halted f2 else position rows f2 G \<and> started f2" using advance_row[OF p(1,2) b] by blast
      have at: "intersect_at f2 ss1 (common_rows G Os1)" using f2(2) p(3) by (auto simp: intersect_at_def common_rows_def split: if_splits)
      have step: "collect_loop V (Suc n) f ss = (if G = [] then Some ([c], f2, ss1)
          else do { (xs, f, r) \<leftarrow> collect_loop V n f2 ss1; Some (c # xs, f, r) })"
        using nn adv ok cur b f2(1) by (auto simp: Let_def)
      show ?thesis
      proof (cases "G = []")
        case True
        then show ?thesis unfolding step L using at by (simp add: common_rows_def)
      next
        case False
        from Suc.IH[OF at] False show ?thesis unfolding step L by auto
      qed
    qed
  qed
qed simp

lemma intersect_sorted: "intersect_at f ss L \<Longrightarrow> sorted_wrt (<) L"
  by (auto simp: intersect_at_def common_rows_def intro: sorted_wrt_filter position_sorted)

lemma intersect_next:
  assumes "intersect_at (x_tFirst x) (x_dRest x) L" "0 \<le> x_iRowsLeft x"
  defines "k \<equiv> nat (min 1023 (x_iRowsLeft x))"
  shows "\<exists>x'. Intersect_GetNextRowIdBlock V x = Some (ReturnIteratorResult (take k L), x') \<and>
    intersect_at (x_tFirst x') (x_dRest x') (drop k L) \<and>
    x_iRowsLeft x' = (if x_iRowsLeft x = INT_MAX then INT_MAX else x_iRowsLeft x - int (length (take k L)))"
proof -
  obtain f ss where f: "collect_loop V k (x_tFirst x) (x_dRest x) = Some (take k L, f, ss)" "intersect_at f ss (drop k L)"
    using collect_spec[OF assms(1)] by blast
  have "int (length (take k L)) \<le> x_iRowsLeft x" using assms(2) by (simp add: k_def)
  then show ?thesis using f unfolding k_def by (auto simp: Intersect_GetNextRowIdBlock_def SI_MAX_COLLECTED_def Let_def INT_MAX_def)
qed

lemma intersect_hint:
  assumes "intersect_at (x_tFirst x) (x_dRest x) L"
  shows "\<exists>b x'. Intersect_HintRowID V r x = Some (b, x') \<and> x_iRowsLeft x' = x_iRowsLeft x \<and>
    intersect_at (x_tFirst x') (x_dRest x') (filter (\<lambda>y. \<not> y < r) L) \<and> (\<not> b \<longrightarrow> filter (\<lambda>y. \<not> y < r) L = [])"
proof (cases "s_bStopped (x_tFirst x)")
  case True
  then have "L = []" using assms by (auto simp: intersect_at_def position_def)
  then show ?thesis using True assms by (auto simp: Intersect_HintRowID_def)
next
  case False
  then obtain F Os where F: "position rows (x_tFirst x) F" "started (x_tFirst x)" "positions rows (x_dRest x) Os" "L = common_rows F Os"
    using assms by (auto simp: intersect_at_def halted_def)
  let ?G = "filter (\<lambda>y. \<not> y < r)"
  obtain f where f: "RewindTo V r (x_tFirst x) = Some (?G F \<noteq> [], f)" "if ?G F \<noteq> [] then position rows f (?G F) \<and> started f else halted f"
    using RewindTo_spec[OF F(1,2), of r] by blast
  have "?G L = common_rows (?G F) Os" by (auto simp: F(4) common_rows_def conj_commute)
  moreover have "common_rows [] Os = []" by (simp add: common_rows_def)
  moreover have "intersect_at f (x_dRest x) (common_rows (?G F) Os)"
    using f(2) F(3) \<open>common_rows [] Os = []\<close> unfolding intersect_at_def by (metis (no_types, lifting))
  ultimately show ?thesis using False f(1)
    by (intro exI[of _ "?G F \<noteq> []"] exI[of _ "x\<lparr>x_tFirst := f\<rparr>"]) (auto simp: Intersect_HintRowID_def)
qed

definition intersect_rows :: "'i RowidIterator_Intersect_T \<Rightarrow> RowID_t list \<Rightarrow> bool" where
  "intersect_rows x L \<longleftrightarrow> x_iRowsLeft x = INT_MAX \<and> intersect_at (x_tFirst x) (x_dRest x) L"

lemma intersect_contract: "rowid_iterator (Intersect_i V) intersect_rows"
proof
  fix x L assume a: "intersect_rows x L"
  then have at: "intersect_at (x_tFirst x) (x_dRest x) L" "x_iRowsLeft x = INT_MAX" by (simp_all add: intersect_rows_def)
  show s: "sorted_wrt (<) L" by (rule intersect_sorted[OF at(1)])
  obtain x' where x': "Intersect_GetNextRowIdBlock V x = Some (ReturnIteratorResult (take 1023 L), x')" "intersect_rows x' (drop 1023 L)"
    using intersect_next[OF at(1)] at(2) by (auto simp: INT_MAX_def intersect_rows_def)
  show "\<exists>n i'. 0 < n \<and> v_GetNextRowIdBlock (Intersect_i V) x = Some (Some (take n L), i') \<and> intersect_rows i' (drop n L)" if "L \<noteq> []"
    using x' that by (intro exI[of _ 1023] exI[of _ x']) (simp add: Intersect_i_def ReturnIteratorResult_def)
  fix r
  let ?n = "length (filter (\<lambda>y. y < r) L)"
  have t: "take ?n L = filter (\<lambda>y. y < r) L" "drop ?n L = filter (\<lambda>y. \<not> y < r) L"
    using append_eq_conv_conj[of "filter (\<lambda>y. y < r) L" "filter (\<lambda>y. \<not> y < r) L" L] filter_less_append[OF s, of r] by auto
  obtain b x'' where h: "Intersect_HintRowID V r x = Some (b, x'')" "intersect_rows x'' (drop ?n L)"
    "\<not> b \<longrightarrow> filter (\<lambda>y. \<not> y < r) L = []"
    using intersect_hint[OF at(1), of r] at(2) unfolding t(2) intersect_rows_def by auto
  then have "\<forall>y \<in> set L. y < r" if "\<not> b" using that by (auto simp: filter_empty_conv)
  then show "\<exists>b i' n. v_HintRowID (Intersect_i V) r x = Some (b, i') \<and> (\<forall>y \<in> set (take n L). y < r) \<and>
      (b \<longrightarrow> intersect_rows i' (drop n L)) \<and> (\<not> b \<longrightarrow> (\<forall>y \<in> set L. y < r))"
    using h(1,2) t(1) by (intro exI[of _ b] exI[of _ x''] exI[of _ ?n]) (simp add: Intersect_i_def)
next
  fix x assume "intersect_rows x []"
  then show "\<exists>i'. v_GetNextRowIdBlock (Intersect_i V) x = Some (None, i')"
    using intersect_next[of x "[]"] by (auto simp: intersect_rows_def INT_MAX_def Intersect_i_def ReturnIteratorResult_def)
qed

text \<open>A new intersection.\<close>

lemma intersect_new:
  assumes "list_all2 rows its Rs" "its \<noteq> []"
  shows "\<exists>x. Intersect_new V its = Some x \<and> intersect_rows x (filter (\<lambda>r. \<forall>R \<in> set Rs. r \<in> set R) (hd Rs))"
proof -
  obtain i js R Rs' where i: "its = i # js" "Rs = R # Rs'" "rows i R" "list_all2 rows js Rs'"
    using assms by (cases its; cases Rs) auto
  obtain f where f: "WarmupDocs V (IteratorState_new i) = Some (R \<noteq> [], f)" "if R = [] then halted f else position rows f R \<and> started f"
    using warmup[of "IteratorState_new i" R] i(3) by (auto simp: IteratorState_new_def)
  have ps: "positions rows (map IteratorState_new js) Rs'" using i(4)
    by (simp add: positions_def list_all2_map1 position_def IteratorState_new_def)
  have e: "filter (\<lambda>r. \<forall>R \<in> set Rs. r \<in> set R) (hd Rs) = common_rows R Rs'"
    unfolding i(2) common_rows_def by (intro filter_cong) auto
  have "intersect_at f (map IteratorState_new js) (common_rows R Rs')"
    using f(2) ps by (auto simp: intersect_at_def common_rows_def split: if_splits)
  then show ?thesis unfolding e using f(1) i(1) by (simp add: Intersect_new_def intersect_rows_def)
qed

text \<open>With a cutoff the rows end early.\<close>

lemma intersect_cutoff:
  assumes "intersect_at (x_tFirst x) (x_dRest x) L" "0 \<le> x_iRowsLeft x" "x_iRowsLeft x < INT_MAX" "length L < n"
  shows "\<exists>x'. read_all (Intersect_i V) n x = Some (take (nat (x_iRowsLeft x)) L, x') \<and>
    (Intersect_WasCutoffHit x' \<longleftrightarrow> x_iRowsLeft x \<le> int (length L))"
  using assms
proof (induction n arbitrary: x L)
  case (Suc n)
  let ?c = "x_iRowsLeft x"
  let ?k = "nat (min 1023 ?c)"
  obtain x1 where x1: "Intersect_GetNextRowIdBlock V x = Some (ReturnIteratorResult (take ?k L), x1)"
    "intersect_at (x_tFirst x1) (x_dRest x1) (drop ?k L)" "x_iRowsLeft x1 = ?c - int (length (take ?k L))"
    using intersect_next[OF Suc.prems(1,2)] Suc.prems(3) by auto
  have nx: "v_GetNextRowIdBlock (Intersect_i V) x = Some (ReturnIteratorResult (take ?k L), x1)" using x1(1) by (simp add: Intersect_i_def)
  show ?case
  proof (cases "take ?k L = []")
    case True
    then have "L = [] \<or> ?c = 0" using Suc.prems(2) by auto
    then show ?thesis using nx True x1(3) Suc.prems(2) by (auto simp: ReturnIteratorResult_def Intersect_WasCutoffHit_def)
  next
    case False
    let ?c1 = "x_iRowsLeft x1"
    have c1: "0 \<le> ?c1" "?c1 < INT_MAX" using x1(3) Suc.prems(2,3) by auto
    have "0 < ?k" "L \<noteq> []" using False by auto
    then have "length (drop ?k L) < n" using Suc.prems(4) by (cases L) auto
    from Suc.IH[OF x1(2) c1 this] obtain x2 where x2: "read_all (Intersect_i V) n x1 = Some (take (nat ?c1) (drop ?k L), x2)"
      "Intersect_WasCutoffHit x2 \<longleftrightarrow> ?c1 \<le> int (length (drop ?k L))" by blast
    have "take ?k L @ take (nat ?c1) (drop ?k L) = take (nat ?c) L"
    proof (cases "length L \<le> ?k")
      case True
      then show ?thesis by auto
    next
      case False
      then have "nat ?c = ?k + nat ?c1" using x1(3) Suc.prems(2) by auto
      then show ?thesis by (simp add: take_add)
    qed
    moreover have "?c1 \<le> int (length (drop ?k L)) \<longleftrightarrow> ?c \<le> int (length L)" using x1(3) by (auto simp: min_def)
    ultimately show ?thesis using nx False x2 by (simp add: ReturnIteratorResult_def)
  qed
qed simp

end

end
