(* ===== verification/Docid_Filter.thy ===== *)
theory Docid_Filter
  imports Kill_List Rowid_Iterators
begin

text \<open>
  Filters on the document id that are answered from the docid lookup, \<^verbatim>\<open>src/src/docidlookup.cpp\<close>: \<^verbatim>\<open>RowidIterator_LookupValues_T\<close>
  for lists of values, \<^verbatim>\<open>RowidIterator_LookupRange_T\<close> and \<^verbatim>\<open>RowidIterator_LookupRangeExclude_T\<close> for ranges, with the four
  checks that translate a signed range to the unsigned order of the lookup, and the factory
  \<^verbatim>\<open>CreateLookupIterator\<close>. Docids are stored and sorted as unsigned numbers while filters are signed. Shown: the
  iterators hand out, in ascending order of rows, exactly the rows whose docid satisfies the filter as a
  signed number, for either storage of the rows, whatever the hints skip. Docids of the lookup may repeat, as the
  comment in \<^verbatim>\<open>Fill\<close> expects, provided that none continues across a checkpoint: there \<^verbatim>\<open>HintDocID\<close> loses rows (\<open>Kill_List\<close>). The
  values of a filter ascend strictly.
\<close>

section \<open>Filter values in unsigned order\<close>

record DocidListReaderUnsigned_c =
  u_dValues :: "DocID_t list"
  u_iIndex :: nat
  u_iLeft :: nat

text \<open>\<^verbatim>\<open>std::lower_bound\<close> of 0 in the signed order is the number of negative values in front.\<close>

definition DocidListReaderUnsigned_new :: "DocID_t list \<Rightarrow> DocidListReaderUnsigned_c" where
  "DocidListReaderUnsigned_new dValues =
    \<lparr>u_dValues = dValues,
     u_iIndex = (if dValues \<noteq> [] \<and> 0 \<le> sint (last dValues) then length (takeWhile (\<lambda>d. sint d < 0) dValues) else 0),
     u_iLeft = length dValues\<rparr>"

definition DocidListReaderUnsigned_ReadDocID :: "DocidListReaderUnsigned_c \<Rightarrow> DocID_t option \<times> DocidListReaderUnsigned_c" where
  "DocidListReaderUnsigned_ReadDocID r =
    (if u_iLeft r = 0 then (None, r)
     else let i = u_iIndex r + 1
          in (Some (u_dValues r ! u_iIndex r),
              r\<lparr>u_iIndex := if i = length (u_dValues r) then 0 else i, u_iLeft := u_iLeft r - 1\<rparr>))"

section \<open>Checks\<close>

definition MIN_NEG :: qword where
  "MIN_NEG = 0x8000000000000000"

datatype check_kind = GtPos | LtPos | GtNeg | LtNeg

record DocIdCheck_c =
  k_eKind :: check_kind
  k_bEQ :: bool
  k_uValue :: qword
  k_bCanRewind :: bool
  k_bRewound :: bool

definition DocIdCheck_new :: "check_kind \<Rightarrow> bool \<Rightarrow> qword \<Rightarrow> DocIdCheck_c" where
  "DocIdCheck_new e EQ uValue = \<lparr>k_eKind = e, k_bEQ = EQ, k_uValue = uValue, k_bCanRewind = True, k_bRewound = False\<rparr>"

definition DisableRewinding :: "DocIdCheck_c \<Rightarrow> DocIdCheck_c" where
  "DisableRewinding c = c\<lparr>k_bCanRewind := False\<rparr>"

text \<open>The checks share the lookup reader and move it; it is passed and returned.\<close>

definition DocIdCheck_Init :: "DocIdCheck_c \<Rightarrow> LookupReaderIterator_c \<Rightarrow> LookupReaderIterator_c option" where
  "DocIdCheck_Init c it =
    (case k_eKind c of
       GtPos \<Rightarrow> if k_bCanRewind c then LookupReaderIterator_HintDocID (k_uValue c) it else Some it
     | LtNeg \<Rightarrow> if k_bCanRewind c then LookupReaderIterator_HintDocID MIN_NEG it else Some it
     | _ \<Rightarrow> Some it)"

definition check_rewind :: "qword \<Rightarrow> DocIdCheck_c \<Rightarrow> LookupReaderIterator_c \<Rightarrow> (DocIdCheck_c \<times> LookupReaderIterator_c) option" where
  "check_rewind tDocID c it =
    (if k_bCanRewind c \<and> \<not> k_bRewound c
     then do { it \<leftarrow> LookupReaderIterator_HintDocID tDocID it; Some (c\<lparr>k_bRewound := True\<rparr>, it) }
     else Some (c, it))"

text \<open>The first two components are \<^verbatim>\<open>bAccept\<close> and \<^verbatim>\<open>bBreak\<close>.\<close>

definition DocIdCheck_Check ::
  "DocIdCheck_c \<Rightarrow> qword \<Rightarrow> LookupReaderIterator_c \<Rightarrow> (bool \<times> bool \<times> DocIdCheck_c \<times> LookupReaderIterator_c) option" where
  "DocIdCheck_Check c uValue it =
    (case k_eKind c of
       GtPos \<Rightarrow>
         if uValue \<ge> MIN_NEG then Some (False, True, c, it)
         else if k_bEQ c then Some (uValue \<ge> k_uValue c, False, c, it)
         else Some (uValue > k_uValue c, False, c, it)
     | LtPos \<Rightarrow>
         if (if k_bEQ c then uValue \<le> k_uValue c else uValue < k_uValue c) then Some (True, False, c, it)
         else if uValue < MIN_NEG then do { (c, it) \<leftarrow> check_rewind MIN_NEG c it; Some (False, False, c, it) }
         else Some (True, False, c, it)
     | GtNeg \<Rightarrow>
         if uValue < MIN_NEG then Some (True, False, c, it)
         else do {
           (c, it) \<leftarrow> check_rewind (k_uValue c) c it;
           Some (if k_bEQ c then uValue \<ge> k_uValue c else uValue > k_uValue c, False, c, it)
         }
     | LtNeg \<Rightarrow>
         if uValue < MIN_NEG then Some (False, False, c, it)
         else if (if k_bEQ c then uValue \<le> k_uValue c else uValue < k_uValue c) then Some (True, False, c, it)
         else Some (False, True, c, it))"

definition CreateCheckGt :: "int \<Rightarrow> bool \<Rightarrow> DocIdCheck_c" where
  "CreateCheckGt iMinValue bHasEqualMin = DocIdCheck_new (if iMinValue \<ge> 0 then GtPos else GtNeg) bHasEqualMin (of_int iMinValue)"

definition CreateCheckLt :: "int \<Rightarrow> bool \<Rightarrow> DocIdCheck_c" where
  "CreateCheckLt iMaxValue bHasEqualMax = DocIdCheck_new (if iMaxValue \<ge> 0 then LtPos else LtNeg) bHasEqualMax (of_int iMaxValue)"

section \<open>Filling\<close>

record RowIdBoundaries_t =
  b_tMinRowID :: RowID_t
  b_tMaxRowID :: RowID_t

text \<open>\<^verbatim>\<open>ROWID_LIMITS\<close> is whether boundaries are given.\<close>

definition CheckAdd :: "bool \<Rightarrow> RowIdBoundaries_t option \<Rightarrow> RowID_t \<Rightarrow> CachedIterator_T \<Rightarrow> CachedIterator_T option" where
  "CheckAdd BITMAP bounds tLookupRowID c =
    (case bounds of None \<Rightarrow> CachedIterator_Add BITMAP tLookupRowID c
     | Some b \<Rightarrow> if tLookupRowID \<ge> b_tMinRowID b \<and> tLookupRowID \<le> b_tMaxRowID b
                then CachedIterator_Add BITMAP tLookupRowID c else Some c)"

text \<open>The state of a fill loop: the reader, the collected rows and the number of processed entries.\<close>

type_synonym fill_state = "LookupReaderIterator_c \<times> CachedIterator_T \<times> nat"

partial_function (option) values_loop ::
  "bool \<Rightarrow> RowIdBoundaries_t option \<Rightarrow>
   (DocID_t option \<times> DocidListReaderUnsigned_c) \<times> (DocID_t \<times> RowID_t) option \<times> fill_state \<Rightarrow> fill_state option" where
  "values_loop BITMAP bounds st =
    (case st of ((hF, rF), hL, it, c, n) \<Rightarrow>
     case hF of None \<Rightarrow> Some (it, c, n) | Some tFilterDocID \<Rightarrow>
     case hL of None \<Rightarrow> Some (it, c, n) | Some (tLookupDocID, tLookupRowID) \<Rightarrow>
       if tFilterDocID < tLookupDocID then
         values_loop BITMAP bounds (DocidListReaderUnsigned_ReadDocID rF, hL, it, c, n + 1)
       else if tFilterDocID > tLookupDocID then do {
         it \<leftarrow> LookupReaderIterator_HintDocID tFilterDocID it;
         x \<leftarrow> LookupReaderIterator_Read it;
         values_loop BITMAP bounds ((hF, rF), fst x, snd x, c, n + 1)
       } else do {
         c \<leftarrow> CheckAdd BITMAP bounds tLookupRowID c;
         x \<leftarrow> LookupReaderIterator_Read it;
         values_loop BITMAP bounds ((hF, rF), fst x, snd x, c, n + 1)
       })"

definition LookupValues_Fill :: "bool \<Rightarrow> RowIdBoundaries_t option \<Rightarrow> DocidListReaderUnsigned_c \<Rightarrow> fill_state \<Rightarrow> fill_state option" where
  "LookupValues_Fill BITMAP bounds tFilterReader st = do {
     let (it, c, n) = st;
     let (hF, rF) = DocidListReaderUnsigned_ReadDocID tFilterReader;
     (hL, it) \<leftarrow> LookupReaderIterator_Read it;
     let n = n + (if hF \<noteq> None then 1 else 0);
     let n = n + (if hL \<noteq> None then 1 else 0);
     values_loop BITMAP bounds ((hF, rF), hL, it, c, n)
   }"

text \<open>A check that may be absent: an absent check of a range accepts.\<close>

definition range_check :: "DocIdCheck_c option \<Rightarrow> qword \<Rightarrow> LookupReaderIterator_c \<Rightarrow>
   (bool \<times> bool \<times> DocIdCheck_c option \<times> LookupReaderIterator_c) option" where
  "range_check pCheck d it =
    (case pCheck of None \<Rightarrow> Some (True, False, None, it)
     | Some c \<Rightarrow> do { (a, b, c, it) \<leftarrow> DocIdCheck_Check c d it; Some (a, b, Some c, it) })"

partial_function (option) range_loop ::
  "bool \<Rightarrow> RowIdBoundaries_t option \<Rightarrow> (DocIdCheck_c option \<times> DocIdCheck_c option) \<times> fill_state \<Rightarrow> fill_state option" where
  "range_loop BITMAP bounds st =
    (case st of ((p1, p2), it, c, n) \<Rightarrow> do {
       (h, it) \<leftarrow> LookupReaderIterator_Read it;
       case h of None \<Rightarrow> Some (it, c, n)
       | Some (tLookupDocID, tLookupRowID) \<Rightarrow> do {
           (a1, b1, p1, it) \<leftarrow> range_check p1 tLookupDocID it;
           if b1 then Some (it, c, n + 1)
           else if \<not> a1 then range_loop BITMAP bounds ((p1, p2), it, c, n + 1)
           else do {
             (a2, b2, p2, it) \<leftarrow> range_check p2 tLookupDocID it;
             if b2 then Some (it, c, n + 1)
             else if \<not> a2 then range_loop BITMAP bounds ((p1, p2), it, c, n + 1)
             else do {
               c \<leftarrow> CheckAdd BITMAP bounds tLookupRowID c;
               range_loop BITMAP bounds ((p1, p2), it, c, n + 1)
             }
           }
         }
     })"

text \<open>An absent check of an excluded range rejects; a check that breaks is dropped.\<close>

definition exclude_check :: "DocIdCheck_c option \<Rightarrow> qword \<Rightarrow> LookupReaderIterator_c \<Rightarrow>
   (bool \<times> DocIdCheck_c option \<times> LookupReaderIterator_c) option" where
  "exclude_check pCheck d it =
    (case pCheck of None \<Rightarrow> Some (False, None, it)
     | Some c \<Rightarrow> do { (a, b, c, it) \<leftarrow> DocIdCheck_Check c d it; Some (a, if b then None else Some c, it) })"

text \<open>The comparison of \<^verbatim>\<open>pRowID\<close> with \<^verbatim>\<open>pRowIdMax\<close> in the loop condition is always true: neither changes.\<close>

partial_function (option) exclude_loop ::
  "bool \<Rightarrow> RowIdBoundaries_t option \<Rightarrow> (DocIdCheck_c option \<times> DocIdCheck_c option) \<times> fill_state \<Rightarrow> fill_state option" where
  "exclude_loop BITMAP bounds st =
    (case st of ((p1, p2), it, c, n) \<Rightarrow>
     if p1 = None \<and> p2 = None then Some (it, c, n)
     else do {
       (h, it) \<leftarrow> LookupReaderIterator_Read it;
       case h of None \<Rightarrow> Some (it, c, n)
       | Some (tLookupDocID, tLookupRowID) \<Rightarrow> do {
           (a1, p1, it) \<leftarrow> exclude_check p1 tLookupDocID it;
           if a1 then do {
             c \<leftarrow> CheckAdd BITMAP bounds tLookupRowID c;
             exclude_loop BITMAP bounds ((p1, p2), it, c, n + 1)
           } else do {
             (a2, p2, it) \<leftarrow> exclude_check p2 tLookupDocID it;
             c \<leftarrow> (if a2 then CheckAdd BITMAP bounds tLookupRowID c else Some c);
             exclude_loop BITMAP bounds ((p1, p2), it, c, n + 1)
           }
         }
     })"

section \<open>Iterators\<close>

datatype fill_source =
    LookupValues DocidListReaderUnsigned_c
  | LookupRange "DocIdCheck_c option" "DocIdCheck_c option"
  | LookupRangeExclude "DocIdCheck_c option" "DocIdCheck_c option"

record LookupIterator =
  i_bBitmap :: bool
  i_tBoundaries :: "RowIdBoundaries_t option"
  i_eSource :: fill_source
  i_tReader :: LookupReaderIterator_c
  i_tCache :: CachedIterator_T
  i_iProcessed :: nat

definition init_check :: "DocIdCheck_c option \<Rightarrow> LookupReaderIterator_c \<Rightarrow> LookupReaderIterator_c option" where
  "init_check pCheck it = (case pCheck of None \<Rightarrow> Some it | Some c \<Rightarrow> DocIdCheck_Init c it)"

definition iterator_Fill :: "LookupIterator \<Rightarrow> fill_state option" where
  "iterator_Fill i =
    (let B = i_bBitmap i; bounds = i_tBoundaries i; st = (i_tReader i, i_tCache i, i_iProcessed i) in
     case i_eSource i of
       LookupValues r \<Rightarrow> LookupValues_Fill B bounds r st
     | LookupRange p1 p2 \<Rightarrow> range_loop B bounds ((p1, p2), st)
     | LookupRangeExclude p1 p2 \<Rightarrow> exclude_loop B bounds ((p1, p2), st))"

definition FillIfFirstTime :: "LookupIterator \<Rightarrow> (bool \<times> LookupIterator) option" where
  "FillIfFirstTime i =
    (if \<not> c_bFirstTime (i_tCache i) then Some (True, i)
     else do {
       it \<leftarrow> (case i_eSource i of
                LookupValues _ \<Rightarrow> Some (i_tReader i)
              | LookupRange p1 p2 \<Rightarrow> do { it \<leftarrow> init_check p1 (i_tReader i); init_check p2 it }
              | LookupRangeExclude p1 p2 \<Rightarrow> do { it \<leftarrow> init_check p1 (i_tReader i); init_check p2 it });
       let i = i\<lparr>i_tReader := it, i_tCache := (i_tCache i)\<lparr>c_bFirstTime := False\<rparr>\<rparr>;
       (it, c, n) \<leftarrow> iterator_Fill i;
       let (b, c) = CachedIterator_Finalize (i_bBitmap i) c;
       Some (b, i\<lparr>i_tReader := it, i_tCache := c, i_iProcessed := n\<rparr>)
     })"

definition LookupIterator_GetNextRowIdBlock :: "LookupIterator \<Rightarrow> (RowID_t list option \<times> LookupIterator) option" where
  "LookupIterator_GetNextRowIdBlock i = do {
     (ok, i) \<leftarrow> FillIfFirstTime i;
     if \<not> ok then Some (None, i)
     else do {
       (x, c) \<leftarrow> CachedIterator_ReturnRowIdChunk (i_bBitmap i) (i_tCache i);
       Some (x, i\<lparr>i_tCache := c\<rparr>)
     }
   }"

definition LookupIterator_HintRowID :: "RowID_t \<Rightarrow> LookupIterator \<Rightarrow> (bool \<times> LookupIterator) option" where
  "LookupIterator_HintRowID tRowID i = do {
     (ok, i) \<leftarrow> FillIfFirstTime i;
     if \<not> ok then Some (False, i)
     else do {
       (b, c) \<leftarrow> CachedIterator_HintRowID (i_bBitmap i) tRowID (i_tCache i);
       Some (b, i\<lparr>i_tCache := c\<rparr>)
     }
   }"

datatype filter_type = SPH_FILTER_VALUES | SPH_FILTER_RANGE | SPH_FILTER_FLOATRANGE | SPH_FILTER_STRING | SPH_FILTER_NULL
  | SPH_FILTER_USERVAR | SPH_FILTER_STRING_LIST | SPH_FILTER_EXPRESSION

text \<open>The settings a docid filter reads; \<open>f_dValues\<close> is the result of \<^verbatim>\<open>GetValues\<close>.\<close>

record docid_filter =
  f_sAttrName :: string
  f_eType :: filter_type
  f_bExclude :: bool
  f_dValues :: "int list"
  f_iMinValue :: int
  f_iMaxValue :: int
  f_bHasEqualMin :: bool
  f_bHasEqualMax :: bool
  f_bOpenLeft :: bool
  f_bOpenRight :: bool

text \<open>The factory. \<open>bBitmap\<close> is the result of \<^verbatim>\<open>NeedBitmapStorage\<close>, a comparison of floats. The outer None is the failed
  assertion or a lookup that cannot be opened, the inner None the null pointer.\<close>

definition new_iterator :: "bool \<Rightarrow> dword \<Rightarrow> dword \<Rightarrow> RowIdBoundaries_t option \<Rightarrow> fill_source \<Rightarrow> LookupReaderIterator_c \<Rightarrow> LookupIterator" where
  "new_iterator bBitmap g uTotalDocs pBoundaries e it =
    \<lparr>i_bBitmap = bBitmap, i_tBoundaries = pBoundaries, i_eSource = e, i_tReader = it,
     i_tCache = CachedIterator_new bBitmap g uTotalDocs, i_iProcessed = 0\<rparr>"

definition CreateLookupIterator ::
  "bool \<Rightarrow> dword \<Rightarrow> docid_filter \<Rightarrow> dword \<Rightarrow> byte list \<Rightarrow> nat \<Rightarrow> RowIdBoundaries_t option \<Rightarrow> LookupIterator option option" where
  "CreateLookupIterator bBitmap g tFilter uTotalDocs pDocidLookup uIndexVersion pBoundaries =
    (if f_sAttrName tFilter \<noteq> ''id'' then Some None
     else if f_bExclude tFilter \<and> f_eType tFilter = SPH_FILTER_VALUES then None
     else case f_eType tFilter of
       SPH_FILTER_VALUES \<Rightarrow> do {
         it \<leftarrow> LookupReaderIterator_new (Some pDocidLookup) uIndexVersion;
         Some (Some (new_iterator bBitmap g uTotalDocs pBoundaries
           (LookupValues (DocidListReaderUnsigned_new (map of_int (f_dValues tFilter)))) it))
       }
     | SPH_FILTER_RANGE \<Rightarrow> do {
         it \<leftarrow> LookupReaderIterator_new (Some pDocidLookup) uIndexVersion;
         if f_bExclude tFilter then
           let p1 = (if f_bOpenLeft tFilter then None else Some (CreateCheckLt (f_iMinValue tFilter) (\<not> f_bHasEqualMin tFilter)));
               p2 = (if f_bOpenRight tFilter then None else Some (CreateCheckGt (f_iMaxValue tFilter) (\<not> f_bHasEqualMax tFilter)));
               (p1, p2) = (if p1 \<noteq> None \<and> p2 \<noteq> None then (map_option DisableRewinding p1, map_option DisableRewinding p2) else (p1, p2))
           in Some (Some (new_iterator bBitmap g uTotalDocs pBoundaries (LookupRangeExclude p1 p2) it))
         else
           let p1 = (if f_bOpenLeft tFilter then None else Some (CreateCheckGt (f_iMinValue tFilter) (f_bHasEqualMin tFilter)));
               p2 = (if f_bOpenRight tFilter then None else Some (CreateCheckLt (f_iMaxValue tFilter) (f_bHasEqualMax tFilter)))
           in Some (Some (new_iterator bBitmap g uTotalDocs pBoundaries (LookupRange p1 p2) it))
       }
     | _ \<Rightarrow> Some None)"

section \<open>Signed and unsigned order\<close>

lemma uint_qword: "0 \<le> uint x" "uint x < 18446744073709551616" for x :: qword
proof -
  have "uint x < 2 ^ LENGTH(64)" by (rule unsigned_less)
  then show "uint x < 18446744073709551616" by simp
qed simp

lemma below_min_neg: "x < MIN_NEG \<longleftrightarrow> uint x < 9223372036854775808"
  by (simp add: MIN_NEG_def word_less_def)

lemma sint_qword: "sint x = (if x < MIN_NEG then uint x else uint x - 18446744073709551616)" for x :: qword
proof -
  have "sint x = take_bit 64 (uint x + 9223372036854775808) - 9223372036854775808"
    unfolding sint_uint by (subst signed_take_bit_eq_take_bit_shift) simp
  also have "\<dots> = (uint x + 9223372036854775808) mod 18446744073709551616 - 9223372036854775808"
    by (simp add: take_bit_eq_mod)
  also have "\<dots> = (if x < MIN_NEG then uint x else uint x - 18446744073709551616)"
  proof (cases "x < MIN_NEG")
    case True
    have "(uint x + 9223372036854775808) mod 18446744073709551616 = uint x + 9223372036854775808"
      using True uint_qword[of x] unfolding below_min_neg by (intro mod_pos_pos_trivial) linarith+
    then show ?thesis using True by simp
  next
    case False
    let ?y = "uint x + 9223372036854775808 - 18446744073709551616"
    have "?y mod 18446744073709551616 = ?y"
      using False uint_qword[of x] unfolding below_min_neg by (intro mod_pos_pos_trivial) linarith+
    moreover have "(?y + 18446744073709551616) mod 18446744073709551616 = ?y mod 18446744073709551616" by (rule mod_add_self2)
    ultimately have "(uint x + 9223372036854775808) mod 18446744073709551616 = ?y" by (simp add: add.commute)
    then show ?thesis using False by simp
  qed
  finally show ?thesis .
qed

lemma signed_order:
  fixes a b :: qword
  shows "sint a \<le> sint b \<longleftrightarrow> (if (a < MIN_NEG) = (b < MIN_NEG) then a \<le> b else b < MIN_NEG)"
    "sint a < sint b \<longleftrightarrow> (if (a < MIN_NEG) = (b < MIN_NEG) then a < b else b < MIN_NEG)"
    "sint a < 0 \<longleftrightarrow> \<not> a < MIN_NEG"
  using uint_qword[of a] uint_qword[of b] unfolding sint_qword word_le_def word_less_def[of a b]
  by (cases "a < MIN_NEG"; cases "b < MIN_NEG"; simp only: if_True if_False simp_thms; (linarith | simp))+

section \<open>What a check accepts\<close>

text \<open>The sign of the value decides the kind of the check.\<close>

definition check_ok :: "DocIdCheck_c \<Rightarrow> bool" where
  "check_ok c \<longleftrightarrow> (k_eKind c \<in> {GtPos, LtPos} \<longleftrightarrow> 0 \<le> sint (k_uValue c))"

definition check_accepts :: "DocIdCheck_c \<Rightarrow> qword \<Rightarrow> bool" where
  "check_accepts c d =
    (if k_eKind c \<in> {GtPos, GtNeg}
     then if k_bEQ c then sint (k_uValue c) \<le> sint d else sint (k_uValue c) < sint d
     else if k_bEQ c then sint d \<le> sint (k_uValue c) else sint d < sint (k_uValue c))"

definition same_check :: "DocIdCheck_c \<Rightarrow> DocIdCheck_c \<Rightarrow> bool" where
  "same_check c c' \<longleftrightarrow> c' = c \<or> c' = c\<lparr>k_bRewound := True\<rparr>"

lemma same_checkD: "same_check c c' \<Longrightarrow> check_accepts c' = check_accepts c \<and> check_ok c' = check_ok c \<and> k_bCanRewind c' = k_bCanRewind c"
  by (auto simp: same_check_def check_accepts_def[abs_def] check_ok_def)

lemma check_rewind_spec:
  assumes "lookup_pending it xs" "\<And>x. fst x < h \<Longrightarrow> x \<in> set xs \<Longrightarrow> \<not> P (fst x)"
  shows "\<exists>c' it' n. check_rewind h c it = Some (c', it') \<and> same_check c c' \<and> lookup_pending it' (drop n xs) \<and>
    (\<forall>x \<in> set (take n xs). \<not> P (fst x)) \<and> (\<not> k_bCanRewind c \<longrightarrow> n = 0)"
proof (cases "k_bCanRewind c \<and> \<not> k_bRewound c")
  case True
  obtain it' n where n: "LookupReaderIterator_HintDocID h it = Some it'" "lookup_pending it' (drop n xs)"
    "\<forall>x \<in> set (take n xs). fst x < h" using lookup_hint[OF assms(1), of h] by blast
  then have "\<forall>x \<in> set (take n xs). \<not> P (fst x)" using assms(2) by (auto dest: in_set_takeD)
  then show ?thesis using True n by (auto simp: check_rewind_def same_check_def)
next
  case False
  then show ?thesis using assms(1)
    by (intro exI[of _ c] exI[of _ it] exI[of _ 0]) (auto simp: check_rewind_def same_check_def)
qed

text \<open>What every kind of check promises to the fill loops, given the entry read last and those that follow it: a rewind skips
  only rejected entries, and a break comes only when nothing that follows is accepted.\<close>

lemma Check_spec:
  assumes "lookup_pending it xs" "\<forall>x \<in> set xs. d \<le> fst x" "check_ok c"
  shows "\<exists>a b c' it' n. DocIdCheck_Check c d it = Some (a, b, c', it') \<and> same_check c c' \<and> lookup_pending it' (drop n xs) \<and>
    (\<forall>x \<in> set (take n xs). \<not> check_accepts c (fst x)) \<and> (\<not> k_bCanRewind c \<longrightarrow> n = 0) \<and> a = check_accepts c d \<and>
    (b \<longrightarrow> \<not> a \<and> (\<forall>x \<in> set xs. \<not> check_accepts c (fst x)))"
proof -
  note r = check_rewind_spec[OF assms(1), where c = c and P = "check_accepts c"]
  have stay: ?thesis if "DocIdCheck_Check c d it = Some (check_accepts c d, b, c, it)"
    "b \<Longrightarrow> \<not> check_accepts c d \<and> (\<forall>x \<in> set xs. \<not> check_accepts c (fst x))" for b
    using that assms(1) by (intro exI[of _ "check_accepts c d"] exI[of _ b] exI[of _ c] exI[of _ it] exI[of _ 0]) (auto simp: same_check_def)
  let ?v = "k_uValue c"
  show ?thesis
  proof (cases "k_eKind c")
    case GtPos
    then have v: "?v < MIN_NEG" using assms(3) by (simp add: check_ok_def signed_order(3) not_less[symmetric])
    show ?thesis
    proof (cases "d < MIN_NEG")
      case True
      then show ?thesis using GtPos v
        by (intro stay[of False]) (auto simp: DocIdCheck_Check_def check_accepts_def signed_order)
    next
      case False
      have "\<not> check_accepts c (fst x)" if "x \<in> set xs" for x
      proof -
        have "\<not> fst x < MIN_NEG" using assms(2) False that by (meson le_less_trans)
        then show ?thesis using GtPos v by (auto simp: check_accepts_def signed_order)
      qed
      moreover have "\<not> check_accepts c d" using GtPos v False by (auto simp: check_accepts_def signed_order)
      ultimately show ?thesis using GtPos False by (intro stay[of True]) (simp_all add: DocIdCheck_Check_def not_less)
    qed
  next
    case LtPos
    then have v: "?v < MIN_NEG" using assms(3) by (simp add: check_ok_def signed_order(3) not_less[symmetric])
    show ?thesis
    proof (cases "d < MIN_NEG \<and> \<not> (if k_bEQ c then d \<le> ?v else d < ?v)")
      case True
      have "\<not> check_accepts c (fst x)" if "fst x < MIN_NEG" "x \<in> set xs" for x
        using bspec[OF assms(2) that(2)] that(1) True v LtPos
        by (auto simp: check_accepts_def signed_order not_le not_less split: if_splits)
      from r[OF this] obtain c' it' n where "check_rewind MIN_NEG c it = Some (c', it')" "same_check c c'" "lookup_pending it' (drop n xs)"
        "\<forall>x \<in> set (take n xs). \<not> check_accepts c (fst x)" "\<not> k_bCanRewind c \<longrightarrow> n = 0" by blast
      then show ?thesis using True LtPos v
        by (intro exI[of _ False] exI[of _ False] exI[of _ c'] exI[of _ it'] exI[of _ n])
          (auto simp: DocIdCheck_Check_def check_accepts_def signed_order)
    next
      case False
      then show ?thesis using LtPos v
        by (intro stay[of False]) (auto simp: DocIdCheck_Check_def check_accepts_def signed_order)
    qed
  next
    case GtNeg
    then have v: "\<not> ?v < MIN_NEG" using assms(3) by (simp add: check_ok_def signed_order(3) not_less[symmetric])
    show ?thesis
    proof (cases "d < MIN_NEG")
      case True
      then show ?thesis using GtNeg v
        by (intro stay[of False]) (auto simp: DocIdCheck_Check_def check_accepts_def signed_order)
    next
      case False
      have "\<not> check_accepts c (fst x)" if "fst x < ?v" "x \<in> set xs" for x
      proof -
        have "\<not> fst x < MIN_NEG" using assms(2) False that(2) by (meson le_less_trans)
        then show ?thesis using that(1) v GtNeg by (auto simp: check_accepts_def signed_order)
      qed
      from r[OF this] obtain c' it' n where n: "check_rewind ?v c it = Some (c', it')" "same_check c c'" "lookup_pending it' (drop n xs)"
        "\<forall>x \<in> set (take n xs). \<not> check_accepts c (fst x)" "\<not> k_bCanRewind c \<longrightarrow> n = 0" by blast
      have "k_bEQ c' = k_bEQ c" "k_uValue c' = ?v" using n(2) by (auto simp: same_check_def)
      then show ?thesis using False GtNeg v n
        by (intro exI[of _ "check_accepts c d"] exI[of _ False] exI[of _ c'] exI[of _ it'] exI[of _ n])
          (auto simp: DocIdCheck_Check_def check_accepts_def signed_order)
    qed
  next
    case LtNeg
    then have v: "\<not> ?v < MIN_NEG" using assms(3) by (simp add: check_ok_def signed_order(3) not_less[symmetric])
    show ?thesis
    proof (cases "d < MIN_NEG \<or> (if k_bEQ c then d \<le> ?v else d < ?v)")
      case True
      then show ?thesis using LtNeg v
        by (intro stay[of False]) (auto simp: DocIdCheck_Check_def check_accepts_def signed_order)
    next
      case False
      have "\<not> check_accepts c (fst x)" if "x \<in> set xs" for x
        using bspec[OF assms(2) that] False v LtNeg
        by (auto simp: check_accepts_def signed_order not_le not_less split: if_splits)
      moreover have "\<not> check_accepts c d" using LtNeg v False by (auto simp: check_accepts_def signed_order split: if_splits)
      ultimately show ?thesis using LtNeg False by (intro stay[of True]) (simp_all add: DocIdCheck_Check_def)
    qed
  qed
qed

section \<open>What the fill loops collect\<close>

definition in_bounds :: "RowIdBoundaries_t option \<Rightarrow> RowID_t \<Rightarrow> bool" where
  "in_bounds bounds w = (case bounds of None \<Rightarrow> True | Some b \<Rightarrow> b_tMinRowID b \<le> w \<and> w \<le> b_tMaxRowID b)"

definition found :: "(DocID_t \<Rightarrow> bool) \<Rightarrow> RowIdBoundaries_t option \<Rightarrow> (DocID_t \<times> RowID_t) list \<Rightarrow> RowID_t list" where
  "found P bounds xs = map snd (filter (\<lambda>x. P (fst x) \<and> in_bounds bounds (snd x)) xs)"

lemma found_simps [simp]:
  "found P bounds [] = []"
  "found P bounds ((d, w) # xs) = (if P d \<and> in_bounds bounds w then [w] else []) @ found P bounds xs"
  by (simp_all add: found_def)

lemma found_none: "\<forall>x \<in> set xs. \<not> P (fst x) \<Longrightarrow> found P bounds xs = []"
  by (auto simp: found_def filter_empty_conv)

lemma found_append: "found P bounds (xs @ ys) = found P bounds xs @ found P bounds ys"
  by (simp add: found_def)

lemma found_drop: "\<forall>x \<in> set (take n xs). \<not> P (fst x) \<Longrightarrow> found P bounds (drop n xs) = found P bounds xs"
  using found_append[of P bounds "take n xs" "drop n xs"] found_none[of "take n xs" P bounds] by simp

lemma found_cong: "(\<And>x. x \<in> set xs \<Longrightarrow> P (fst x) = Q (fst x)) \<Longrightarrow> found P bounds xs = found Q bounds xs"
  unfolding found_def by (intro arg_cong[of _ _ "map snd"] filter_cong) auto

lemma CheckAdd_all: "CheckAdd B bounds w c = cached_add_all B (if in_bounds bounds w then [w] else []) c"
  by (cases "CachedIterator_Add B w c") (auto simp: CheckAdd_def in_bounds_def split: option.split)

lemma add_all_append: "cached_add_all B (rs @ ss) c = Option.bind (cached_add_all B rs c) (cached_add_all B ss)"
proof (induction rs arbitrary: c)
  case (Cons r rs)
  then show ?case by (cases "CachedIterator_Add B r c") simp_all
qed simp

lemma pending_step:
  assumes "lookup_pending it ((d, w) # ys)"
  shows "\<exists>it'. LookupReaderIterator_Read it = Some (Some (d, w), it') \<and> lookup_pending it' ys" "\<forall>x \<in> set ys. d \<le> fst x"
proof -
  show "\<exists>it'. LookupReaderIterator_Read it = Some (Some (d, w), it') \<and> lookup_pending it' ys"
    using lookup_read[OF assms] by simp
  show "\<forall>x \<in> set ys. d \<le> fst x" using lookup_pending_sorted[OF assms] by auto
qed

lemma pending_end: "lookup_pending it [] \<Longrightarrow> \<exists>it'. LookupReaderIterator_Read it = Some (None, it')"
  using lookup_read[of it "[]"] by auto

subsection \<open>Ranges\<close>

definition opt_accepts :: "DocIdCheck_c option \<Rightarrow> qword \<Rightarrow> bool" where
  "opt_accepts p d = (case p of None \<Rightarrow> True | Some c \<Rightarrow> check_accepts c d)"

definition opt_ok :: "DocIdCheck_c option \<Rightarrow> bool" where
  "opt_ok p = (case p of None \<Rightarrow> True | Some c \<Rightarrow> check_ok c)"

lemma range_check_spec:
  assumes "lookup_pending it xs" "\<forall>x \<in> set xs. d \<le> fst x" "opt_ok p"
  shows "\<exists>b p' it' n. range_check p d it = Some (opt_accepts p d, b, p', it') \<and> opt_ok p' \<and> opt_accepts p' = opt_accepts p \<and>
    lookup_pending it' (drop n xs) \<and> (\<forall>x \<in> set (take n xs). \<not> opt_accepts p (fst x)) \<and>
    (b \<longrightarrow> \<not> opt_accepts p d \<and> (\<forall>x \<in> set xs. \<not> opt_accepts p (fst x)))"
proof (cases p)
  case None
  then show ?thesis using assms(1)
    by (intro exI[of _ False] exI[of _ None] exI[of _ it] exI[of _ 0]) (simp add: range_check_def opt_ok_def opt_accepts_def)
next
  case (Some c)
  then have "check_ok c" using assms(3) by (simp add: opt_ok_def)
  from Check_spec[OF assms(1,2) this] obtain b c' it' n where n: "DocIdCheck_Check c d it = Some (check_accepts c d, b, c', it')" "same_check c c'"
    "lookup_pending it' (drop n xs)" "\<forall>x \<in> set (take n xs). \<not> check_accepts c (fst x)"
    "b \<longrightarrow> \<not> check_accepts c d \<and> (\<forall>x \<in> set xs. \<not> check_accepts c (fst x))" by blast
  with same_checkD[OF n(2)] \<open>check_ok c\<close> show ?thesis
    by (intro exI[of _ b] exI[of _ "Some c'"] exI[of _ it'] exI[of _ n])
      (simp add: range_check_def Some opt_ok_def opt_accepts_def[abs_def])
qed

lemma range_loop_spec:
  assumes "lookup_pending it xs" "opt_ok p1" "opt_ok p2"
    "cached_add_all B (found (\<lambda>d. opt_accepts p1 d \<and> opt_accepts p2 d) bounds xs) c = Some c'"
  shows "\<exists>it' n'. range_loop B bounds ((p1, p2), it, c, n) = Some (it', c', n')"
  using assms
proof (induction "length xs" arbitrary: xs it p1 p2 c n rule: less_induct)
  case less
  let ?P = "\<lambda>d. opt_accepts p1 d \<and> opt_accepts p2 d"
  show ?case
  proof (cases xs)
    case Nil
    then show ?thesis using pending_end[of it] less.prems by (subst range_loop.simps) auto
  next
    case (Cons x ys)
    obtain d w where x: "x = (d, w)" by fastforce
    have xs: "xs = (d, w) # ys" using Cons x by simp
    note pend = less.prems(1)[unfolded xs]
    obtain it1 where it1: "LookupReaderIterator_Read it = Some (Some (d, w), it1)" "lookup_pending it1 ys" using pending_step(1)[OF pend] by blast
    note lt = pending_step(2)[OF pend]
    obtain b1 p1' it2 n1 where c1: "range_check p1 d it1 = Some (opt_accepts p1 d, b1, p1', it2)" "opt_ok p1'" "opt_accepts p1' = opt_accepts p1"
      "lookup_pending it2 (drop n1 ys)" "\<forall>x \<in> set (take n1 ys). \<not> opt_accepts p1 (fst x)"
      "b1 \<longrightarrow> \<not> opt_accepts p1 d \<and> (\<forall>x \<in> set ys. \<not> opt_accepts p1 (fst x))"
      using range_check_spec[OF it1(2) lt less.prems(2)] by blast
    have f1: "found ?P bounds (drop n1 ys) = found ?P bounds ys" using c1(5) by (intro found_drop) auto
    show ?thesis
    proof (cases "opt_accepts p1 d")
      case False
      show ?thesis
      proof (cases b1)
        case True
        then have "found ?P bounds xs = []" using c1(6) False by (simp add: xs found_none)
        then show ?thesis using less.prems(4) it1(1) c1(1) True by (subst range_loop.simps) simp
      next
        case nb: False
        have "cached_add_all B (found (\<lambda>d. opt_accepts p1' d \<and> opt_accepts p2 d) bounds (drop n1 ys)) c = Some c'"
          using less.prems(4) False by (simp add: xs f1 c1(3))
        from less.hyps[OF _ c1(4) c1(2) less.prems(3) this, of "n + 1"] show ?thesis
          using it1(1) c1(1) False nb by (subst range_loop.simps) (simp add: xs)
      qed
    next
      case a1: True
      then have nb1: "\<not> b1" using c1(6) by blast
      have lt2: "\<forall>x \<in> set (drop n1 ys). d \<le> fst x" using lt by (auto dest: in_set_dropD)
      obtain b2 p2' it3 n2 where c2: "range_check p2 d it2 = Some (opt_accepts p2 d, b2, p2', it3)" "opt_ok p2'" "opt_accepts p2' = opt_accepts p2"
        "lookup_pending it3 (drop n2 (drop n1 ys))" "\<forall>x \<in> set (take n2 (drop n1 ys)). \<not> opt_accepts p2 (fst x)"
        "b2 \<longrightarrow> \<not> opt_accepts p2 d \<and> (\<forall>x \<in> set (drop n1 ys). \<not> opt_accepts p2 (fst x))"
        using range_check_spec[OF c1(4) lt2 less.prems(3)] by blast
      have f2: "found ?P bounds (drop n2 (drop n1 ys)) = found ?P bounds ys"
        using c2(5) f1 by (subst found_drop) auto
      show ?thesis
      proof (cases "opt_accepts p2 d")
        case False
        show ?thesis
        proof (cases b2)
          case True
          then have "found ?P bounds (drop n1 ys) = []" using c2(6) by (intro found_none) auto
          then have "found ?P bounds xs = []" using f1 False by (simp add: xs)
          then show ?thesis using less.prems(4) it1(1) c1(1) a1 nb1 c2(1) True by (subst range_loop.simps) simp
        next
          case nb: False
          have "cached_add_all B (found (\<lambda>d. opt_accepts p1' d \<and> opt_accepts p2' d) bounds (drop n2 (drop n1 ys))) c = Some c'"
            using less.prems(4) False by (simp only: xs f2 c1(3) c2(3) found_simps) simp
          from less.hyps[OF _ c2(4) c1(2) c2(2) this, of "n + 1"] show ?thesis
            using it1(1) c1(1) a1 nb1 c2(1) False nb by (subst range_loop.simps) (simp add: xs)
        qed
      next
        case a2: True
        then have nb2: "\<not> b2" using c2(6) by blast
        obtain c1' where add: "CheckAdd B bounds w c = Some c1'" "cached_add_all B (found ?P bounds ys) c1' = Some c'"
          using less.prems(4) a1 a2 by (auto simp: xs CheckAdd_all add_all_append bind_eq_Some_conv split: if_splits)
        have "cached_add_all B (found (\<lambda>d. opt_accepts p1' d \<and> opt_accepts p2' d) bounds (drop n2 (drop n1 ys))) c1' = Some c'"
          using add(2) by (simp only: f2 c1(3) c2(3))
        from less.hyps[OF _ c2(4) c1(2) c2(2) this, of "n + 1"] show ?thesis
          using it1(1) c1(1) a1 nb1 c2(1) a2 nb2 add(1) by (subst range_loop.simps) (simp add: xs)
      qed
    qed
  qed
qed

subsection \<open>Excluded ranges\<close>

definition ex_accepts :: "DocIdCheck_c option \<Rightarrow> qword \<Rightarrow> bool" where
  "ex_accepts p d = (case p of None \<Rightarrow> False | Some c \<Rightarrow> check_accepts c d)"

text \<open>Two checks may be combined only if neither moves the reader.\<close>

definition ex_compatible :: "DocIdCheck_c option \<Rightarrow> DocIdCheck_c option \<Rightarrow> bool" where
  "ex_compatible p1 p2 = (case (p1, p2) of (Some c1, Some c2) \<Rightarrow> \<not> k_bCanRewind c1 \<and> \<not> k_bCanRewind c2 | _ \<Rightarrow> True)"

lemma ex_compatible_sym: "ex_compatible p q = ex_compatible q p"
  by (auto simp: ex_compatible_def split: option.splits)

lemma exclude_check_spec:
  assumes "lookup_pending it xs" "\<forall>x \<in> set xs. d \<le> fst x" "opt_ok p"
  shows "\<exists>p' it' n. exclude_check p d it = Some (ex_accepts p d, p', it') \<and> opt_ok p' \<and> (p = None \<longrightarrow> p' = None) \<and>
    lookup_pending it' (drop n xs) \<and> (\<forall>x \<in> set (take n xs). \<not> ex_accepts p (fst x)) \<and>
    (\<forall>x \<in> set xs. ex_accepts p' (fst x) = ex_accepts p (fst x)) \<and>
    (ex_compatible p q \<longrightarrow> ex_compatible p' q \<and> (q \<noteq> None \<longrightarrow> n = 0))"
proof (cases p)
  case None
  then show ?thesis using assms(1)
    by (intro exI[of _ None] exI[of _ it] exI[of _ 0]) (simp add: exclude_check_def opt_ok_def ex_accepts_def)
next
  case (Some c)
  then have ok: "check_ok c" using assms(3) by (simp add: opt_ok_def)
  from Check_spec[OF assms(1,2) ok] obtain b c' it' n where n: "DocIdCheck_Check c d it = Some (check_accepts c d, b, c', it')" "same_check c c'"
    "lookup_pending it' (drop n xs)" "\<forall>x \<in> set (take n xs). \<not> check_accepts c (fst x)" "\<not> k_bCanRewind c \<longrightarrow> n = 0"
    "b \<longrightarrow> \<not> check_accepts c d \<and> (\<forall>x \<in> set xs. \<not> check_accepts c (fst x))" by blast
  have cmp: "ex_compatible p q \<longrightarrow> ex_compatible (if b then None else Some c') q \<and> (q \<noteq> None \<longrightarrow> n = 0)"
    using n(5) same_checkD[OF n(2)] Some by (auto simp: ex_compatible_def split: option.splits)
  have acc: "\<forall>x \<in> set xs. ex_accepts (if b then None else Some c') (fst x) = ex_accepts p (fst x)"
    using n(6) same_checkD[OF n(2)] Some by (auto simp: ex_accepts_def)
  show ?thesis
    using n(1,3,4) cmp acc same_checkD[OF n(2)] ok
    by (intro exI[of _ "if b then None else Some c'"] exI[of _ it'] exI[of _ n])
      (auto simp: exclude_check_def Some opt_ok_def ex_accepts_def[of "Some c"])
qed

lemma exclude_loop_spec:
  assumes "lookup_pending it xs" "opt_ok p1" "opt_ok p2" "ex_compatible p1 p2"
    "cached_add_all B (found (\<lambda>d. ex_accepts p1 d \<or> ex_accepts p2 d) bounds xs) c = Some c'"
  shows "\<exists>it' n'. exclude_loop B bounds ((p1, p2), it, c, n) = Some (it', c', n')"
  using assms
proof (induction "length xs" arbitrary: xs it p1 p2 c n rule: less_induct)
  case less
  let ?P = "\<lambda>d. ex_accepts p1 d \<or> ex_accepts p2 d"
  show ?case
  proof (cases "p1 = None \<and> p2 = None")
    case True
    then have "found ?P bounds xs = []" by (intro found_none) (simp add: ex_accepts_def)
    then show ?thesis using less.prems(5) True by (subst exclude_loop.simps) simp
  next
    case some: False
    show ?thesis
    proof (cases xs)
      case Nil
      then show ?thesis using pending_end[of it] less.prems some by (subst exclude_loop.simps) auto
    next
      case (Cons x ys)
      obtain d w where x: "x = (d, w)" by fastforce
      have xs: "xs = (d, w) # ys" using Cons x by simp
      note pend = less.prems(1)[unfolded xs]
      obtain it1 where it1: "LookupReaderIterator_Read it = Some (Some (d, w), it1)" "lookup_pending it1 ys" using pending_step(1)[OF pend] by blast
      note lt = pending_step(2)[OF pend]
      obtain p1' it2 n1 where c1: "exclude_check p1 d it1 = Some (ex_accepts p1 d, p1', it2)" "opt_ok p1'"
        "lookup_pending it2 (drop n1 ys)" "\<forall>x \<in> set (take n1 ys). \<not> ex_accepts p1 (fst x)"
        "\<forall>x \<in> set ys. ex_accepts p1' (fst x) = ex_accepts p1 (fst x)" "ex_compatible p1' p2" "p2 \<noteq> None \<longrightarrow> n1 = 0"
        using exclude_check_spec[OF it1(2) lt less.prems(2), of p2] less.prems(4) by blast
      have "\<not> ?P (fst x)" if "x \<in> set (take n1 ys)" for x
        using c1(4,7) that by (cases "p2 = None") (auto simp: ex_accepts_def[of None])
      then have f1: "found ?P bounds (drop n1 ys) = found ?P bounds ys" by (intro found_drop) auto
      show ?thesis
      proof (cases "ex_accepts p1 d")
        case True
        obtain c1' where add: "CheckAdd B bounds w c = Some c1'" "cached_add_all B (found ?P bounds ys) c1' = Some c'"
          using less.prems(5) True by (auto simp: xs CheckAdd_all add_all_append bind_eq_Some_conv split: if_splits)
        have "found (\<lambda>d. ex_accepts p1' d \<or> ex_accepts p2 d) bounds (drop n1 ys) = found ?P bounds (drop n1 ys)"
          using c1(5) by (intro found_cong) (auto dest: in_set_dropD)
        then have "cached_add_all B (found (\<lambda>d. ex_accepts p1' d \<or> ex_accepts p2 d) bounds (drop n1 ys)) c1' = Some c'"
          using add(2) f1 by simp
        from less.hyps[OF _ c1(3,2) less.prems(3) c1(6) this, of "n + 1"] show ?thesis
          using it1(1) c1(1) True some add(1) by (subst exclude_loop.simps) (simp add: xs if_not_P[OF some])
      next
        case a1: False
        have lt2: "\<forall>x \<in> set (drop n1 ys). d \<le> fst x" using lt by (auto dest: in_set_dropD)
        obtain p2' it3 n2 where c2: "exclude_check p2 d it2 = Some (ex_accepts p2 d, p2', it3)" "opt_ok p2'"
          "lookup_pending it3 (drop n2 (drop n1 ys))" "\<forall>x \<in> set (take n2 (drop n1 ys)). \<not> ex_accepts p2 (fst x)"
          "\<forall>x \<in> set (drop n1 ys). ex_accepts p2' (fst x) = ex_accepts p2 (fst x)" "ex_compatible p2' p1'" "p1' \<noteq> None \<longrightarrow> n2 = 0"
          using exclude_check_spec[OF c1(3) lt2 less.prems(3), of p1'] c1(6)[unfolded ex_compatible_sym[of p1']] by blast
        have "\<not> ?P (fst x)" if "x \<in> set (take n2 (drop n1 ys))" for x
        proof -
          have "ex_accepts p1' (fst x) = ex_accepts p1 (fst x)" using c1(5) that by (auto dest!: in_set_takeD in_set_dropD)
          then show ?thesis using c2(4,7) that by (cases "p1' = None") (auto simp: ex_accepts_def[of None])
        qed
        then have f2: "found ?P bounds (drop n2 (drop n1 ys)) = found ?P bounds ys"
          using f1 by (subst found_drop) auto
        have f3: "found (\<lambda>d. ex_accepts p1' d \<or> ex_accepts p2' d) bounds (drop n2 (drop n1 ys)) = found ?P bounds (drop n2 (drop n1 ys))"
        proof (rule found_cong)
          fix x assume "x \<in> set (drop n2 (drop n1 ys))"
          then have "x \<in> set (drop n1 ys)" "x \<in> set ys" by (meson in_set_dropD)+
          then show "(ex_accepts p1' (fst x) \<or> ex_accepts p2' (fst x)) = ?P (fst x)" using c1(5) c2(5) by blast
        qed
        obtain c1' where add: "(if ex_accepts p2 d then CheckAdd B bounds w c else Some c) = Some c1'" "cached_add_all B (found ?P bounds ys) c1' = Some c'"
          using less.prems(5) a1 by (auto simp: xs CheckAdd_all add_all_append bind_eq_Some_conv split: if_splits)
        have "cached_add_all B (found (\<lambda>d. ex_accepts p1' d \<or> ex_accepts p2' d) bounds (drop n2 (drop n1 ys))) c1' = Some c'"
          using add(2) by (simp only: f3 f2)
        from less.hyps[OF _ c2(3) c1(2) c2(2) c2(6)[unfolded ex_compatible_sym[of p2']] this, of "n + 1"] show ?thesis
          using it1(1) c1(1) a1 some c2(1) add(1) by (subst exclude_loop.simps) (simp add: xs if_not_P[OF some])
      qed
    qed
  qed
qed

subsection \<open>Values\<close>

definition uns_pending :: "DocidListReaderUnsigned_c \<Rightarrow> DocID_t list \<Rightarrow> bool" where
  "uns_pending r ds \<longleftrightarrow> u_iLeft r \<le> length (u_dValues r) \<and> (u_iLeft r \<noteq> 0 \<longrightarrow> u_iIndex r < length (u_dValues r)) \<and>
    ds = take (u_iLeft r) (drop (u_iIndex r) (u_dValues r @ u_dValues r))"

lemma uns_read:
  assumes "uns_pending r ds"
  shows "\<exists>r'. DocidListReaderUnsigned_ReadDocID r = (case ds of [] \<Rightarrow> None | d # _ \<Rightarrow> Some d, r') \<and> uns_pending r' (tl ds)"
proof (cases "u_iLeft r")
  case 0
  then show ?thesis using assms by (simp add: DocidListReaderUnsigned_ReadDocID_def uns_pending_def)
next
  case (Suc l)
  let ?v = "u_dValues r" and ?i = "u_iIndex r"
  have i: "?i < length ?v" "Suc l \<le> length ?v" using assms Suc by (auto simp: uns_pending_def)
  have d: "drop ?i (?v @ ?v) = ?v ! ?i # drop (Suc ?i) (?v @ ?v)" using i(1) Cons_nth_drop_Suc[of ?i "?v @ ?v"] by (simp add: nth_append)
  let ?j = "if Suc ?i = length ?v then 0 else Suc ?i"
  have t: "take l (drop (Suc ?i) (?v @ ?v)) = take l (drop ?j (?v @ ?v))"
    using i(2) by auto
  have ds: "ds = ?v ! ?i # take l (drop (Suc ?i) (?v @ ?v))"
    using assms unfolding uns_pending_def Suc d by simp
  let ?r = "r\<lparr>u_iIndex := ?j, u_iLeft := l\<rparr>"
  have "DocidListReaderUnsigned_ReadDocID r = (Some (?v ! ?i), ?r)"
    by (simp add: DocidListReaderUnsigned_ReadDocID_def Suc)
  moreover have "uns_pending ?r (tl ds)" unfolding ds t using i by (auto simp: uns_pending_def)
  ultimately show ?thesis unfolding ds by auto
qed

text \<open>Values in signed order are delivered in unsigned order.\<close>

lemma sign_split:
  assumes "sorted_wrt (\<lambda>a b. sint a < sint b) (vs :: DocID_t list)"
  obtains N P where "vs = N @ P" "takeWhile (\<lambda>d. sint d < 0) vs = N"
    "\<forall>d \<in> set N. sint d < 0" "\<forall>d \<in> set P. \<not> sint d < 0"
proof (rule that)
  let ?N = "takeWhile (\<lambda>d. sint d < 0) vs" and ?P = "dropWhile (\<lambda>d. sint d < 0) vs"
  show "vs = ?N @ ?P" by simp
  show "\<forall>d \<in> set ?N. sint d < 0" by (auto dest: set_takeWhileD)
  have "sorted_wrt (\<lambda>a b. sint a < sint b) ?P" using assms by (subst (asm) takeWhile_dropWhile_id[symmetric, of _ "\<lambda>d. sint d < 0"]) (simp only: sorted_wrt_append)
  note srt = this
  show "\<forall>d \<in> set ?P. \<not> sint d < 0"
  proof (cases ?P)
    case (Cons a l)
    then have "\<not> sint a < 0" using hd_dropWhile[of "\<lambda>d. sint d < 0" vs] by force
    moreover have "\<forall>b \<in> set l. sint a < sint b" using srt unfolding Cons by simp
    ultimately show ?thesis unfolding Cons list.set ball_simps by (meson less_trans)
  next
    case Nil
    then show ?thesis unfolding Nil by simp
  qed
qed simp

lemma uns_new:
  assumes "sorted_wrt (\<lambda>a b. sint a < sint b) vs"
  shows "\<exists>ds. uns_pending (DocidListReaderUnsigned_new vs) ds \<and> set ds = set vs \<and> sorted_wrt (<) ds"
proof -
  obtain N P where vs: "vs = N @ P" and N: "takeWhile (\<lambda>d. sint d < 0) vs = N"
    and neg: "\<forall>d \<in> set N. sint d < 0" and pos: "\<forall>d \<in> set P. \<not> sint d < 0"
    using sign_split[OF assms] .
  have s: "sorted_wrt (\<lambda>a b. sint a < sint b) N" "sorted_wrt (\<lambda>a b. sint a < sint b) P"
    using assms by (simp_all add: vs sorted_wrt_append)
  have n: "\<forall>d \<in> set N. \<not> d < MIN_NEG" using neg by (simp add: signed_order(3))
  have p: "\<forall>d \<in> set P. d < MIN_NEG" using pos by (simp add: signed_order(3))
  have "sorted_wrt (<) N"
    by (rule sorted_wrt_mono_rel[OF _ s(1)]) (use n in \<open>simp add: signed_order(2)\<close>)
  moreover have "sorted_wrt (<) P"
    by (rule sorted_wrt_mono_rel[OF _ s(2)]) (use p in \<open>simp add: signed_order(2)\<close>)
  moreover have "\<forall>a \<in> set P. \<forall>b \<in> set N. a < b" using n p by (meson less_le_trans not_less)
  ultimately have srt: "sorted_wrt (<) (P @ N)" by (simp add: sorted_wrt_append)
  have "uns_pending (DocidListReaderUnsigned_new vs) (P @ N)"
  proof (cases "P = []")
    case True
    then have "\<not> (vs \<noteq> [] \<and> 0 \<le> sint (last vs))" using neg vs last_in_set[of N] by fastforce
    then show ?thesis using True vs by (auto simp: uns_pending_def DocidListReaderUnsigned_new_def)
  next
    case False
    then have "vs \<noteq> [] \<and> 0 \<le> sint (last vs)" using pos vs last_in_set[of P] by fastforce
    then have "DocidListReaderUnsigned_new vs = \<lparr>u_dValues = vs, u_iIndex = length N, u_iLeft = length vs\<rparr>"
      by (simp add: DocidListReaderUnsigned_new_def N)
    then show ?thesis using False by (simp add: uns_pending_def vs)
  qed
  moreover have "set (P @ N) = set vs" using vs by auto
  ultimately show ?thesis using srt by blast
qed

lemma values_loop_step:
  "values_loop B bounds ((None, r), h, it, c, n) = Some (it, c, n)"
  "values_loop B bounds ((Some f, r), None, it, c, n) = Some (it, c, n)"
  "values_loop B bounds ((Some f, r), Some (d, w), it, c, n) =
    (if f < d then values_loop B bounds (DocidListReaderUnsigned_ReadDocID r, Some (d, w), it, c, n + 1)
     else if f > d then do {
       it \<leftarrow> LookupReaderIterator_HintDocID f it;
       x \<leftarrow> LookupReaderIterator_Read it;
       values_loop B bounds ((Some f, r), fst x, snd x, c, n + 1)
     } else do {
       c \<leftarrow> CheckAdd B bounds w c;
       x \<leftarrow> LookupReaderIterator_Read it;
       values_loop B bounds ((Some f, r), fst x, snd x, c, n + 1)
     })"
  by (subst values_loop.simps; simp)+

lemma values_loop_spec:
  assumes "uns_pending rF ds'" "sorted_wrt (<) (f # ds')" "lookup_pending it xs'" "sorted (map fst (x # xs'))"
    "cached_add_all B (found (\<lambda>d. d \<in> set (f # ds')) bounds (x # xs')) c = Some c'"
  shows "\<exists>it' n'. values_loop B bounds ((Some f, rF), Some x, it, c, n) = Some (it', c', n')"
  using assms
proof (induction "length ds' + length xs'" arbitrary: f ds' rF x xs' it c n rule: less_induct)
  case less
  obtain d w where x: "x = (d, w)" by fastforce
  note step = values_loop_step
  consider "f < d" | "d < f" | "f = d" by (rule linorder_cases)
  then show ?case
  proof cases
    case 1
    obtain r' where r': "DocidListReaderUnsigned_ReadDocID rF = (case ds' of [] \<Rightarrow> None | d # _ \<Rightarrow> Some d, r')" "uns_pending r' (tl ds')"
      using uns_read[OF less.prems(1)] by blast
    have gt: "\<forall>y \<in> set (x # xs'). f < fst y"
    proof
      fix y assume "y \<in> set (x # xs')"
      then have "d \<le> fst y" using less.prems(4) x by auto
      then show "f < fst y" by (rule less_le_trans[OF 1])
    qed
    then have e: "found (\<lambda>d. d \<in> set (f # ds')) bounds (x # xs') = found (\<lambda>d. d \<in> set ds') bounds (x # xs')"
      by (intro found_cong) auto
    show ?thesis
    proof (cases ds')
      case Nil
      then have "found (\<lambda>d. d \<in> set (f # ds')) bounds (x # xs') = []" unfolding e by (intro found_none) simp
      then show ?thesis using less.prems(5) r'(1) Nil 1 by (simp add: x step)
    next
      case (Cons g ds)
      have "\<exists>it' n'. values_loop B bounds ((Some g, r'), Some x, it, c, n + 1) = Some (it', c', n')"
        using less.prems r'(2) Cons e by (intro less.hyps[of ds xs']) (simp_all del: found_simps)
      then show ?thesis using r'(1) Cons 1 by (simp add: x step)
    qed
  next
    case 2
    obtain it1 n1 where it1: "LookupReaderIterator_HintDocID f it = Some it1" "lookup_pending it1 (drop n1 xs')" "\<forall>y \<in> set (take n1 xs'). fst y < f"
      using lookup_hint[OF less.prems(3), of f] by blast
    let ?P = "\<lambda>d. d \<in> set (f # ds')"
    have np: "\<not> ?P e" if "e < f" for e using less.prems(2) that by (auto dest: less_asym)
    have f0: "found ?P bounds (x # xs') = found ?P bounds xs'" using np[OF 2] by (simp add: x del: list.set)
    have f1: "found ?P bounds (drop n1 xs') = found ?P bounds xs'" using it1(3) np by (intro found_drop) blast
    show ?thesis
    proof (cases "drop n1 xs'")
      case Nil
      obtain it2 where "LookupReaderIterator_Read it1 = Some (None, it2)" using pending_end it1(2) Nil by auto
      moreover have "c' = c" using less.prems(5) f0 f1 Nil by simp
      ultimately show ?thesis using it1(1) 2 order_less_not_sym[OF 2] by (simp add: x step)
    next
      case (Cons y ys)
      obtain e v where y: "y = (e, v)" by fastforce
      obtain it2 where it2: "LookupReaderIterator_Read it1 = Some (Some y, it2)" "lookup_pending it2 ys"
        using pending_step(1)[of it1 e v ys] it1(2) Cons y by auto
      have "length (drop n1 xs') \<le> length xs'" by simp
      then have l: "length ys < length xs'" using Cons by simp
      have "sorted (map fst (drop n1 xs'))" using less.prems(4) by (simp add: drop_map[symmetric] sorted_wrt_drop)
      then have "\<exists>it' n'. values_loop B bounds ((Some f, rF), Some y, it2, c, n + 1) = Some (it', c', n')"
        using less.prems it2(2) Cons f0 f1 l by (intro less.hyps[of ds' ys]) simp_all
      then show ?thesis using it1(1) it2(1) 2 order_less_not_sym[OF 2] by (simp add: x step)
    qed
  next
    case 3
    obtain c1 where add: "CheckAdd B bounds w c = Some c1" "cached_add_all B (found (\<lambda>d. d \<in> set (f # ds')) bounds xs') c1 = Some c'"
      using less.prems(5) 3 by (auto simp: x CheckAdd_all add_all_append bind_eq_Some_conv split: if_splits)
    show ?thesis
    proof (cases xs')
      case Nil
      obtain it2 where "LookupReaderIterator_Read it = Some (None, it2)" using pending_end less.prems(3) Nil by auto
      then show ?thesis using add 3 Nil by (simp add: x step)
    next
      case (Cons y ys)
      obtain e v where y: "y = (e, v)" by fastforce
      obtain it2 where it2: "LookupReaderIterator_Read it = Some (Some y, it2)" "lookup_pending it2 ys"
        using pending_step(1)[of it e v ys] less.prems(3) Cons y by auto
      have "\<exists>it' n'. values_loop B bounds ((Some f, rF), Some y, it2, c1, n + 1) = Some (it', c', n')"
        using less.prems(1,2,4) add(2) it2(2) Cons by (intro less.hyps[of ds' ys]) simp_all
      then show ?thesis using it2(1) add(1) 3 by (simp add: x step)
    qed
  qed
qed

section \<open>The first call\<close>

text \<open>\<^verbatim>\<open>Init\<close> skips rejected docids only.\<close>

lemma Init_spec:
  assumes "lookup_pending it xs" "check_ok c"
  shows "\<exists>it' n. DocIdCheck_Init c it = Some it' \<and> lookup_pending it' (drop n xs) \<and>
    (\<forall>x \<in> set (take n xs). \<not> check_accepts c (fst x)) \<and> (\<not> k_bCanRewind c \<longrightarrow> n = 0)"
proof -
  let ?v = "k_uValue c"
  have gt: "\<not> check_accepts c d" if k: "k_eKind c = GtPos" and d: "d < ?v" for d
  proof -
    have "?v < MIN_NEG" using assms(2) k signed_order(3)[of ?v] by (simp add: check_ok_def not_less)
    then have "d < MIN_NEG" using d by (rule less_trans[rotated])
    then have "sint d < sint ?v" using d \<open>?v < MIN_NEG\<close> by (simp add: signed_order(2))
    then show ?thesis using k by (simp add: check_accepts_def)
  qed
  have lt: "\<not> check_accepts c d" if k: "k_eKind c = LtNeg" and d: "d < MIN_NEG" for d
  proof -
    have "sint ?v < 0" using assms(2) k by (simp add: check_ok_def not_le)
    moreover have "0 \<le> sint d" using d signed_order(3)[of d] by (simp only: not_less[symmetric]) simp
    ultimately have "sint ?v < sint d" by linarith
    then show ?thesis using k by (simp add: check_accepts_def)
  qed
  have stay: ?thesis if "DocIdCheck_Init c it = Some it" using that assms(1) by (intro exI[of _ it] exI[of _ 0]) simp
  have hint: ?thesis if "DocIdCheck_Init c it = LookupReaderIterator_HintDocID h it" "k_bCanRewind c" "\<And>d. d < h \<Longrightarrow> \<not> check_accepts c d" for h
    using lookup_hint[OF assms(1), of h] that by fastforce
  show ?thesis
  proof (cases "k_eKind c")
    case GtPos
    then show ?thesis using stay hint[of ?v] gt by (cases "k_bCanRewind c") (simp_all add: DocIdCheck_Init_def)
  next
    case LtNeg
    then show ?thesis using stay hint[of MIN_NEG] lt by (cases "k_bCanRewind c") (simp_all add: DocIdCheck_Init_def)
  qed (use stay in \<open>simp_all add: DocIdCheck_Init_def\<close>)
qed

lemma init_check_spec:
  assumes "lookup_pending it xs" "opt_ok p"
  shows "\<exists>it' n. init_check p it = Some it' \<and> lookup_pending it' (drop n xs) \<and>
    (\<forall>x \<in> set (take n xs). \<not> ex_accepts p (fst x)) \<and> (p = None \<or> \<not> k_bCanRewind (the p) \<longrightarrow> n = 0)"
proof (cases p)
  case None
  then show ?thesis using assms(1) by (intro exI[of _ it] exI[of _ 0]) (simp add: init_check_def)
next
  case (Some c)
  then show ?thesis using Init_spec[OF assms(1), of c] assms(2) by (auto simp: init_check_def opt_ok_def ex_accepts_def)
qed

text \<open>The docids a source stands for.\<close>

definition source_accepts :: "fill_source \<Rightarrow> (DocID_t \<Rightarrow> bool) \<Rightarrow> bool" where
  "source_accepts e P \<longleftrightarrow>
    (case e of
       LookupValues r \<Rightarrow> (\<exists>ds. uns_pending r ds \<and> sorted_wrt (<) ds \<and> P = (\<lambda>d. d \<in> set ds))
     | LookupRange p1 p2 \<Rightarrow> opt_ok p1 \<and> opt_ok p2 \<and> P = (\<lambda>d. opt_accepts p1 d \<and> opt_accepts p2 d)
     | LookupRangeExclude p1 p2 \<Rightarrow> opt_ok p1 \<and> opt_ok p2 \<and> ex_compatible p1 p2 \<and> P = (\<lambda>d. ex_accepts p1 d \<or> ex_accepts p2 d))"

definition init_source :: "fill_source \<Rightarrow> LookupReaderIterator_c \<Rightarrow> LookupReaderIterator_c option" where
  "init_source e it =
    (case e of LookupValues _ \<Rightarrow> Some it
     | LookupRange p1 p2 \<Rightarrow> do { it \<leftarrow> init_check p1 it; init_check p2 it }
     | LookupRangeExclude p1 p2 \<Rightarrow> do { it \<leftarrow> init_check p1 it; init_check p2 it })"

lemma init_source_spec:
  assumes "lookup_pending it xs" "source_accepts e P"
  shows "\<exists>it' ys. init_source e it = Some it' \<and> lookup_pending it' ys \<and> found P bounds ys = found P bounds xs"
proof -
  have two: "\<exists>it' n m. do { it \<leftarrow> init_check p1 it; init_check p2 it } = Some it' \<and> lookup_pending it' (drop m (drop n xs)) \<and>
      (\<forall>x \<in> set (take n xs). \<not> ex_accepts p1 (fst x)) \<and> (\<forall>x \<in> set (take m (drop n xs)). \<not> ex_accepts p2 (fst x)) \<and>
      (p1 = None \<or> \<not> k_bCanRewind (the p1) \<longrightarrow> n = 0) \<and> (p2 = None \<or> \<not> k_bCanRewind (the p2) \<longrightarrow> m = 0)"
    if ok: "opt_ok p1" "opt_ok p2" for p1 p2
  proof -
    obtain it1 n where n: "init_check p1 it = Some it1" "lookup_pending it1 (drop n xs)"
      "\<forall>x \<in> set (take n xs). \<not> ex_accepts p1 (fst x)" "p1 = None \<or> \<not> k_bCanRewind (the p1) \<longrightarrow> n = 0"
      using init_check_spec[OF assms(1) ok(1)] by blast
    obtain it2 m where m: "init_check p2 it1 = Some it2" "lookup_pending it2 (drop m (drop n xs))"
      "\<forall>x \<in> set (take m (drop n xs)). \<not> ex_accepts p2 (fst x)" "p2 = None \<or> \<not> k_bCanRewind (the p2) \<longrightarrow> m = 0"
      using init_check_spec[OF n(2) ok(2)] by blast
    have "do { it \<leftarrow> init_check p1 it; init_check p2 it } = Some it2" using n(1) m(1) by simp
    then show ?thesis using n(3,4) m(2-4) by blast
  qed
  have skip: "found P bounds (drop m (drop n xs)) = found P bounds xs"
    if "\<forall>x \<in> set (take n xs). \<not> P (fst x)" "\<forall>x \<in> set (take m (drop n xs)). \<not> P (fst x)" for n m
    using found_drop[OF that(2), of bounds] found_drop[OF that(1), of bounds] by simp
  show ?thesis
  proof (cases e)
    case (LookupValues r)
    then show ?thesis using assms(1) by (auto simp: init_source_def)
  next
    case (LookupRange p1 p2)
    then have ok: "opt_ok p1" "opt_ok p2" and P: "P = (\<lambda>d. opt_accepts p1 d \<and> opt_accepts p2 d)" using assms(2) by (auto simp: source_accepts_def)
    obtain it' n m where r: "init_source e it = Some it'" "lookup_pending it' (drop m (drop n xs))"
      "\<forall>x \<in> set (take n xs). \<not> ex_accepts p1 (fst x)" "\<forall>x \<in> set (take m (drop n xs)). \<not> ex_accepts p2 (fst x)"
      "p1 = None \<longrightarrow> n = 0" "p2 = None \<longrightarrow> m = 0"
      using two[OF ok] by (auto simp: init_source_def LookupRange)
    have "\<forall>x \<in> set (take n xs). \<not> P (fst x)" using r(3,5) by (cases p1) (auto simp: P ex_accepts_def opt_accepts_def)
    moreover have "\<forall>x \<in> set (take m (drop n xs)). \<not> P (fst x)" using r(4,6) by (cases p2) (auto simp: P ex_accepts_def opt_accepts_def)
    ultimately show ?thesis using r(1,2) skip by blast
  next
    case (LookupRangeExclude p1 p2)
    then have ok: "opt_ok p1" "opt_ok p2" and P: "P = (\<lambda>d. ex_accepts p1 d \<or> ex_accepts p2 d)" and co: "ex_compatible p1 p2"
      using assms(2) by (auto simp: source_accepts_def)
    obtain it' n m where r: "init_source e it = Some it'" "lookup_pending it' (drop m (drop n xs))"
      "\<forall>x \<in> set (take n xs). \<not> ex_accepts p1 (fst x)" "\<forall>x \<in> set (take m (drop n xs)). \<not> ex_accepts p2 (fst x)"
      "p1 = None \<or> \<not> k_bCanRewind (the p1) \<longrightarrow> n = 0" "p2 = None \<or> \<not> k_bCanRewind (the p2) \<longrightarrow> m = 0"
      using two[OF ok] by (auto simp: init_source_def LookupRangeExclude)
    have "n = 0 \<or> p2 = None" "m = 0 \<or> p1 = None" using r(5,6) co by (auto simp: ex_compatible_def)
    then have "\<forall>x \<in> set (take n xs). \<not> P (fst x)" "\<forall>x \<in> set (take m (drop n xs)). \<not> P (fst x)"
      using r(3,4) by (auto simp: P ex_accepts_def)
    then show ?thesis using r(1,2) skip by blast
  qed
qed

lemma iterator_Fill_spec:
  assumes "lookup_pending (i_tReader i) xs" "source_accepts (i_eSource i) P"
    "cached_add_all (i_bBitmap i) (found P (i_tBoundaries i) xs) (i_tCache i) = Some c'"
  shows "\<exists>it' n'. iterator_Fill i = Some (it', c', n')"
proof (cases "i_eSource i")
  case (LookupRange p1 p2)
  then show ?thesis using range_loop_spec[OF assms(1), of p1 p2] assms(2,3)
    by (simp add: iterator_Fill_def source_accepts_def)
next
  case (LookupRangeExclude p1 p2)
  then show ?thesis using exclude_loop_spec[OF assms(1), of p1 p2] assms(2,3)
    by (simp add: iterator_Fill_def source_accepts_def)
next
  case (LookupValues r)
  then obtain ds where ds: "uns_pending r ds" "sorted_wrt (<) ds" and P: "P = (\<lambda>d. d \<in> set ds)"
    using assms(2) by (auto simp: source_accepts_def)
  obtain r' where r': "DocidListReaderUnsigned_ReadDocID r = (case ds of [] \<Rightarrow> None | d # _ \<Rightarrow> Some d, r')" "uns_pending r' (tl ds)"
    using uns_read[OF ds(1)] by blast
  obtain it' where it': "LookupReaderIterator_Read (i_tReader i) = Some (case xs of [] \<Rightarrow> None | x # _ \<Rightarrow> Some x, it')" "lookup_pending it' (tl xs)"
    using lookup_read[OF assms(1)] by blast
  note fill = iterator_Fill_def LookupValues_Fill_def LookupValues
  show ?thesis
  proof (cases "ds = [] \<or> xs = []")
    case True
    then have "found P (i_tBoundaries i) xs = []" by (auto simp: P intro: found_none)
    then show ?thesis using assms(3) r'(1) it'(1) True by (cases ds) (auto simp: fill values_loop_step split: list.splits)
  next
    case False
    then obtain f ds' x xs' where e: "ds = f # ds'" "xs = x # xs'" by (cases ds; cases xs) auto
    note srt = lookup_pending_sorted[OF assms(1)]
    show ?thesis using values_loop_spec[of r' ds' f it' xs' x] r' it' ds(2) srt assms(3) unfolding e P by (simp add: fill)
  qed
qed

section \<open>The iterator keeps the contract\<close>

definition lookup_rows :: "LookupIterator \<Rightarrow> RowID_t list \<Rightarrow> bool" where
  "lookup_rows i xs \<longleftrightarrow>
    (if c_bFirstTime (i_tCache i)
     then \<exists>ps P n. lookup_pending (i_tReader i) ps \<and> source_accepts (i_eSource i) P \<and> collecting (i_bBitmap i) n (i_tCache i) [] \<and>
       (\<forall>x \<in> set ps. snd x < n) \<and> distinct (map snd ps) \<and> xs = sort (found P (i_tBoundaries i) ps)
     else cached_rows (i_bBitmap i) (i_tCache i) xs)"

lemma found_rows: "set (found P bounds xs) \<subseteq> snd ` set xs" "distinct (map snd xs) \<Longrightarrow> distinct (found P bounds xs)"
  by (auto simp: found_def distinct_map_filter)

lemma FillIfFirstTime_init:
  "FillIfFirstTime i =
    (if \<not> c_bFirstTime (i_tCache i) then Some (True, i)
     else do {
       it \<leftarrow> init_source (i_eSource i) (i_tReader i);
       let i = i\<lparr>i_tReader := it, i_tCache := (i_tCache i)\<lparr>c_bFirstTime := False\<rparr>\<rparr>;
       (it, c, n) \<leftarrow> iterator_Fill i;
       let (b, c) = CachedIterator_Finalize (i_bBitmap i) c;
       Some (b, i\<lparr>i_tReader := it, i_tCache := c, i_iProcessed := n\<rparr>)
     })"
  unfolding FillIfFirstTime_def init_source_def by (cases "i_eSource i") simp_all

lemma fill_first_time:
  assumes "lookup_rows i xs" "c_bFirstTime (i_tCache i)"
  shows "\<exists>i'. FillIfFirstTime i = Some (xs \<noteq> [], i') \<and> i_bBitmap i' = i_bBitmap i \<and>
    (xs \<noteq> [] \<longrightarrow> \<not> c_bFirstTime (i_tCache i') \<and> cached_rows (i_bBitmap i') (i_tCache i') xs)"
proof -
  obtain ps P n where ps: "lookup_pending (i_tReader i) ps" "source_accepts (i_eSource i) P" "collecting (i_bBitmap i) n (i_tCache i) []"
    "\<forall>x \<in> set ps. snd x < n" "distinct (map snd ps)" "xs = sort (found P (i_tBoundaries i) ps)"
    using assms by (auto simp: lookup_rows_def)
  let ?F = "found P (i_tBoundaries i) ps"
  have F: "\<forall>x \<in> set ?F. x < n" "distinct ?F" using found_rows(1)[of P "i_tBoundaries i" ps] found_rows(2)[OF ps(5)] ps(4) by auto
  obtain it ys where it: "init_source (i_eSource i) (i_tReader i) = Some it" "lookup_pending it ys" "found P (i_tBoundaries i) ys = ?F"
    using init_source_spec[OF ps(1,2)] by blast
  let ?i = "i\<lparr>i_tReader := it, i_tCache := (i_tCache i)\<lparr>c_bFirstTime := False\<rparr>\<rparr>"
  have "collecting (i_bBitmap i) n (i_tCache ?i) []" using ps(3) by (simp add: collecting_def)
  from collecting_add_all[OF this, of ?F] F(1)
  obtain c1 where c1: "cached_add_all (i_bBitmap i) ?F (i_tCache ?i) = Some c1" "collecting (i_bBitmap i) n c1 ?F" "\<not> c_bFirstTime c1" by auto
  obtain it2 k where fill: "iterator_Fill ?i = Some (it2, c1, k)"
    using iterator_Fill_spec[of ?i ys P c1] it(2,3) ps(2) c1(1) by auto
  obtain b c2 where fin: "CachedIterator_Finalize (i_bBitmap i) c1 = (b, c2)" by fastforce
  note f = collecting_finalize[OF c1(2) F(1,2) fin]
  show ?thesis unfolding FillIfFirstTime_init using assms(2) it(1) fill fin f c1(3) ps(6) by (auto simp: Let_def)
qed

definition LookupIterator_i :: "LookupIterator RowidIterator_i" where
  "LookupIterator_i = \<lparr>v_GetNextRowIdBlock = LookupIterator_GetNextRowIdBlock, v_HintRowID = LookupIterator_HintRowID\<rparr>"

text \<open>The first call is like a later one on the filled iterator.\<close>

lemma after_fill:
  assumes "lookup_rows i xs"
  shows "\<exists>b i'. FillIfFirstTime i = Some (b, i') \<and> (\<not> b \<longrightarrow> xs = []) \<and>
    (b \<longrightarrow> \<not> c_bFirstTime (i_tCache i') \<and> cached_rows (i_bBitmap i') (i_tCache i') xs)"
proof (cases "c_bFirstTime (i_tCache i)")
  case True
  from fill_first_time[OF assms True] show ?thesis by auto
next
  case False
  then show ?thesis using assms by (intro exI[of _ True] exI[of _ i]) (simp add: FillIfFirstTime_def lookup_rows_def)
qed

lemma lookup_iterator_contract: "rowid_iterator LookupIterator_i lookup_rows"
proof
  fix i xs assume a: "lookup_rows i xs"
  obtain b i' where f: "FillIfFirstTime i = Some (b, i')" "\<not> b \<Longrightarrow> xs = []"
    "b \<Longrightarrow> \<not> c_bFirstTime (i_tCache i') \<and> cached_rows (i_bBitmap i') (i_tCache i') xs" using after_fill[OF a] by blast
  show "sorted_wrt (<) xs"
    using f(2,3) cached_rows_sorted by (cases b) auto
  show "\<exists>n j. 0 < n \<and> v_GetNextRowIdBlock LookupIterator_i i = Some (Some (take n xs), j) \<and> lookup_rows j (drop n xs)" if "xs \<noteq> []"
  proof -
    have b: b "\<not> c_bFirstTime (i_tCache i')" "cached_rows (i_bBitmap i') (i_tCache i') xs" using f that by auto
    obtain c where c: "CachedIterator_ReturnRowIdChunk (i_bBitmap i') (i_tCache i') = Some (ReturnIteratorResult (take 512 xs), c)"
      "cached_rows (i_bBitmap i') c (drop 512 xs)" "c_bFirstTime c = c_bFirstTime (i_tCache i')" using cached_chunk[OF b(3)] by blast
    then show ?thesis using f(1) b(1,2) that
      by (intro exI[of _ 512] exI[of _ "i'\<lparr>i_tCache := c\<rparr>"])
        (simp add: LookupIterator_i_def LookupIterator_GetNextRowIdBlock_def ReturnIteratorResult_def lookup_rows_def)
  qed
  fix r
  show "\<exists>b j n. v_HintRowID LookupIterator_i r i = Some (b, j) \<and> (\<forall>x \<in> set (take n xs). x < r) \<and>
      (b \<longrightarrow> lookup_rows j (drop n xs)) \<and> (\<not> b \<longrightarrow> (\<forall>x \<in> set xs. x < r))"
  proof (cases b)
    case False
    then show ?thesis using f by (intro exI[of _ False] exI[of _ i']) (simp add: LookupIterator_i_def LookupIterator_HintRowID_def)
  next
    case True
    obtain h c n where c: "CachedIterator_HintRowID (i_bBitmap i') r (i_tCache i') = Some (h, c)" "c_bFirstTime c = c_bFirstTime (i_tCache i')"
      "cached_rows (i_bBitmap i') c (drop n xs)" "\<forall>x \<in> set (take n xs). x < r" "\<not> h \<longrightarrow> (\<forall>x \<in> set xs. x < r)"
      using cached_hint[of "i_bBitmap i'" "i_tCache i'" xs r] f(3)[OF True] by blast
    then show ?thesis using f(1,3) True
      by (intro exI[of _ h] exI[of _ "i'\<lparr>i_tCache := c\<rparr>"] exI[of _ n])
        (simp add: LookupIterator_i_def LookupIterator_HintRowID_def lookup_rows_def)
  qed
next
  fix i assume a: "lookup_rows i []"
  obtain b i' where f: "FillIfFirstTime i = Some (b, i')"
    "b \<Longrightarrow> cached_rows (i_bBitmap i') (i_tCache i') []" using after_fill[OF a] by blast
  show "\<exists>j. v_GetNextRowIdBlock LookupIterator_i i = Some (None, j)"
  proof (cases b)
    case True
    from cached_chunk[OF f(2)[OF True]] f(1) True show ?thesis
      by (auto simp: LookupIterator_i_def LookupIterator_GetNextRowIdBlock_def ReturnIteratorResult_def)
  qed (use f(1) in \<open>simp add: LookupIterator_i_def LookupIterator_GetNextRowIdBlock_def\<close>)
qed

interpretation docid_rows: rowid_iterator LookupIterator_i lookup_rows
  by (rule lookup_iterator_contract)

interpretation docid_intersection: rowid_iterator "Intersect_i LookupIterator_i" docid_rows.intersect_rows
  by (rule docid_rows.intersect_contract)

section \<open>Docid filters\<close>

definition int64 :: "int \<Rightarrow> bool" where
  "int64 v \<longleftrightarrow> - 9223372036854775808 \<le> v \<and> v < 9223372036854775808"

text \<open>What a filter on the docid means.\<close>

definition docid_matches :: "docid_filter \<Rightarrow> int \<Rightarrow> bool" where
  "docid_matches f d =
    (if f_eType f = SPH_FILTER_VALUES then d \<in> set (f_dValues f)
     else f_bExclude f \<noteq>
       ((f_bOpenLeft f \<or> (if f_bHasEqualMin f then f_iMinValue f \<le> d else f_iMinValue f < d)) \<and>
        (f_bOpenRight f \<or> (if f_bHasEqualMax f then d \<le> f_iMaxValue f else d < f_iMaxValue f))))"

definition docid_filter_wf :: "docid_filter \<Rightarrow> bool" where
  "docid_filter_wf f \<longleftrightarrow> f_sAttrName f = ''id'' \<and> f_eType f \<in> {SPH_FILTER_VALUES, SPH_FILTER_RANGE} \<and> int64 (f_iMinValue f) \<and> int64 (f_iMaxValue f) \<and>
    (f_eType f = SPH_FILTER_VALUES \<longrightarrow> \<not> f_bExclude f \<and> sorted_wrt (<) (f_dValues f) \<and> list_all int64 (f_dValues f))"

lemma sint_of_int: "int64 v \<Longrightarrow> sint (of_int v :: qword) = v"
  by (simp add: int64_def signed_of_int signed_take_bit_int_eq_self)

lemma check_created:
  assumes "int64 v"
  shows "check_ok (CreateCheckGt v e)" "check_accepts (CreateCheckGt v e) d \<longleftrightarrow> (if e then v \<le> sint d else v < sint d)"
    "check_ok (CreateCheckLt v e)" "check_accepts (CreateCheckLt v e) d \<longleftrightarrow> (if e then sint d \<le> v else sint d < v)"
  using assms by (simp_all add: check_ok_def check_accepts_def CreateCheckGt_def CreateCheckLt_def DocIdCheck_new_def sint_of_int)

lemma DisableRewinding_same [simp]:
  "check_ok (DisableRewinding c) = check_ok c" "check_accepts (DisableRewinding c) = check_accepts c"
  by (auto simp: DisableRewinding_def check_ok_def check_accepts_def[abs_def])

lemma k_bCanRewind_disabled [simp]: "\<not> k_bCanRewind (DisableRewinding c)"
  by (simp add: DisableRewinding_def)

lemma values_source:
  assumes "sorted_wrt (<) vs" "list_all int64 vs"
  shows "source_accepts (LookupValues (DocidListReaderUnsigned_new (map of_int vs))) (\<lambda>d. sint d \<in> set vs)"
proof -
  have si: "sint (of_int v :: qword) = v" if "v \<in> set vs" for v using assms(2) that by (simp add: list_all_iff sint_of_int)
  have "sorted_wrt (\<lambda>a b. sint a < sint b) (map of_int vs :: DocID_t list)"
    unfolding sorted_wrt_map by (rule sorted_wrt_mono_rel[OF _ assms(1)]) (simp add: si)
  from uns_new[OF this] obtain ds where ds: "uns_pending (DocidListReaderUnsigned_new (map of_int vs)) ds" "set ds = of_int ` set vs" "sorted_wrt (<) ds"
    unfolding set_map by blast
  have "sint d \<in> set vs \<longleftrightarrow> d \<in> set ds" for d :: DocID_t
  proof
    assume "sint d \<in> set vs"
    then have "of_int (sint d) \<in> set ds" unfolding ds(2) by (rule imageI)
    then show "d \<in> set ds" by simp
  qed (auto simp: ds(2) si)
  then show ?thesis using ds(1,3) by (auto simp: source_accepts_def)
qed

lemma create_rows:
  assumes "docid_filter_wf f" "LookupReaderIterator_new (Some img) ver = Some it" "lookup_pending it es" "unat n \<le> 2 ^ 32 - 32"
    "\<forall>x \<in> set es. snd x < n" "distinct (map snd es)"
  shows "\<exists>i. CreateLookupIterator B g f n img ver bounds = Some (Some i) \<and>
    lookup_rows i (sort (found (\<lambda>d. docid_matches f (sint d)) bounds es))"
proof -
  have rows: "lookup_rows (new_iterator B g n bounds e it) (sort (found P bounds es))" if "source_accepts e P" for e P
  proof -
    let ?i = "new_iterator B g n bounds e it"
    have "c_bFirstTime (i_tCache ?i)" by (simp add: new_iterator_def CachedIterator_new_def)
    moreover have "lookup_pending (i_tReader ?i) es" "source_accepts (i_eSource ?i) P" "collecting (i_bBitmap ?i) n (i_tCache ?i) []" "i_tBoundaries ?i = bounds"
      using that assms(3) collecting_new[OF assms(4), of B g] by (simp_all add: new_iterator_def)
    ultimately show ?thesis using assms(5,6) unfolding lookup_rows_def by auto
  qed
  have id: "f_sAttrName f = ''id''" and v: "int64 (f_iMinValue f)" "int64 (f_iMaxValue f)" using assms(1) by (auto simp: docid_filter_wf_def)
  note ck = check_created(1,3)[OF v(1)] check_created(1,3)[OF v(2)] check_created(2,4)[OF v(1)] check_created(2,4)[OF v(2)]
  note acc = source_accepts_def opt_ok_def opt_accepts_def ex_accepts_def ex_compatible_def docid_matches_def
  show ?thesis
  proof (cases "f_eType f")
    case SPH_FILTER_VALUES
    then have "source_accepts (LookupValues (DocidListReaderUnsigned_new (map of_int (f_dValues f)))) (\<lambda>d. docid_matches f (sint d))"
      using assms(1) values_source by (simp add: docid_filter_wf_def docid_matches_def)
    from rows[OF this] show ?thesis using SPH_FILTER_VALUES id assms(1,2) by (auto simp: CreateLookupIterator_def docid_filter_wf_def)
  next
    case R: SPH_FILTER_RANGE
    show ?thesis
    proof (cases "f_bExclude f")
      case False
      let ?p1 = "if f_bOpenLeft f then None else Some (CreateCheckGt (f_iMinValue f) (f_bHasEqualMin f))"
      let ?p2 = "if f_bOpenRight f then None else Some (CreateCheckLt (f_iMaxValue f) (f_bHasEqualMax f))"
      have "source_accepts (LookupRange ?p1 ?p2) (\<lambda>d. docid_matches f (sint d))"
        using R False by (simp add: acc ck)
      from rows[OF this] show ?thesis using R id assms(2) False by (auto simp: CreateLookupIterator_def Let_def)
    next
      case True
      let ?p1 = "if f_bOpenLeft f then None else Some (CreateCheckLt (f_iMinValue f) (\<not> f_bHasEqualMin f))"
      let ?p2 = "if f_bOpenRight f then None else Some (CreateCheckGt (f_iMaxValue f) (\<not> f_bHasEqualMax f))"
      let ?D = "\<lambda>p. if ?p1 \<noteq> None \<and> ?p2 \<noteq> None then map_option DisableRewinding p else p"
      have "source_accepts (LookupRangeExclude (?D ?p1) (?D ?p2)) (\<lambda>d. docid_matches f (sint d))"
        using R True by (auto simp: acc ck not_le not_less DisableRewinding_def[symmetric] k_bCanRewind_disabled)
      from rows[OF this] show ?thesis using R id assms(2) True by (auto simp: CreateLookupIterator_def Let_def)
    qed
  qed (use assms(1) in \<open>simp_all add: docid_filter_wf_def\<close>)
qed

text \<open>The rows of an index that a filter selects, in ascending order.\<close>

definition selected :: "RowIdBoundaries_t option \<Rightarrow> (int \<Rightarrow> bool) \<Rightarrow> DocidRowidPair_t list \<Rightarrow> RowID_t list" where
  "selected bounds P ps = sort (map m_tRowID (filter (\<lambda>p. P (sint (m_tDocID p)) \<and> in_bounds bounds (m_tRowID p)) ps))"

lemma selected_found: "sort (found (\<lambda>d. P (sint d)) bounds (entries_of ps)) = selected bounds P ps"
  by (simp add: selected_def found_def entries_of_def filter_map comp_def)

lemma selected_length: "length (selected bounds P ps) \<le> length ps"
  by (simp add: selected_def)

lemma selected_sorted: "distinct (map m_tRowID ps) \<Longrightarrow> sorted (selected bounds P ps) \<and> distinct (selected bounds P ps)"
  by (simp add: selected_def distinct_map_filter)

lemma selected_rows:
  assumes "distinct (map m_tRowID ps)"
  shows "r \<in> set (selected bounds P ps) \<longleftrightarrow> (\<exists>p \<in> set ps. m_tRowID p = r \<and> P (sint (m_tDocID p)) \<and> in_bounds bounds r)"
    "p \<in> set ps \<Longrightarrow> m_tRowID p \<in> set (selected bounds P ps) \<longleftrightarrow> P (sint (m_tDocID p)) \<and> in_bounds bounds (m_tRowID p)"
proof -
  show a: "r \<in> set (selected bounds P ps) \<longleftrightarrow> (\<exists>p \<in> set ps. m_tRowID p = r \<and> P (sint (m_tDocID p)) \<and> in_bounds bounds r)" for r
    by (auto simp: selected_def)
  have "inj_on m_tRowID (set ps)" using assms by (simp add: distinct_map)
  then show "p \<in> set ps \<Longrightarrow> m_tRowID p \<in> set (selected bounds P ps) \<longleftrightarrow> P (sint (m_tDocID p)) \<and> in_bounds bounds (m_tRowID p)"
    unfolding a by (auto dest: inj_onD)
qed

text \<open>An index: its lookup file and its rows. Docids ascend and may repeat, but none continues across a checkpoint; every
  entry has a row of its own.\<close>

definition indexed :: "nat \<Rightarrow> nat \<Rightarrow> dword \<Rightarrow> DocidRowidPair_t list \<Rightarrow> bool" where
  "indexed ver D n ps \<longleftrightarrow> ps \<noteq> [] \<and> docid_blocks D ps \<and> lookup_fits ver D ps \<and> unat n \<le> 2 ^ 32 - 32 \<and>
    (\<forall>p \<in> set ps. m_tRowID p < n) \<and> distinct (map m_tRowID ps)"

lemma create_selected:
  assumes "indexed ver D n ps" "docid_filter_wf f"
  shows "\<exists>i. CreateLookupIterator B g f n (lookup_image ver D u ps @ tail) ver bounds = Some (Some i) \<and>
    lookup_rows i (selected bounds (docid_matches f) ps)"
proof -
  have ix: "lookup_fits ver D ps" "ps \<noteq> []" "docid_blocks D ps" "unat n \<le> 2 ^ 32 - 32"
    "\<forall>x \<in> set (entries_of ps). snd x < n" "distinct (map snd (entries_of ps))"
    using assms(1) by (auto simp: indexed_def entries_of_def comp_def)
  obtain it where "LookupReaderIterator_new (Some (lookup_image ver D u ps @ tail)) ver = Some it" "lookup_pending it (entries_of ps)"
    using lookup_open[OF ix(1-3)] by blast
  from create_rows[OF assms(2) this ix(4-6)] show ?thesis unfolding selected_found .
qed

text \<open>C23: let a lookup file of either format have ascending docids, which may repeat but do not continue across a checkpoint.
  The iterator that \<^verbatim>\<open>CreateLookupIterator\<close> makes for a filter on the docid (a strictly ascending list of values, a
  range or an excluded range, each end open, closed or missing) hands out exactly the rows inside the boundaries
  whose docid, read as a signed number, passes the filter, all the rows of a repeated docid included: every
  row once, in ascending order and in finitely many blocks, whichever of the two storages is chosen and
  although the lookup file is sorted by unsigned docid.\<close>

theorem docid_filter_exact:
  assumes "indexed ver D n ps" "docid_filter_wf f"
  shows "\<exists>i j. CreateLookupIterator bBitmap g f n (lookup_image ver D u ps @ tail) ver pBoundaries = Some (Some i) \<and>
    read_all LookupIterator_i (length ps + 1) i = Some (selected pBoundaries (docid_matches f) ps, j)"
proof -
  obtain i where i: "CreateLookupIterator bBitmap g f n (lookup_image ver D u ps @ tail) ver pBoundaries = Some (Some i)"
    "lookup_rows i (selected pBoundaries (docid_matches f) ps)" using create_selected[OF assms] by blast
  have "length (selected pBoundaries (docid_matches f) ps) < length ps + 1" by (simp add: selected_length le_imp_less_Suc)
  from docid_rows.read_all_rows[OF i(2) this] i(1) show ?thesis by blast
qed

abbreviation exclude_5_9 :: docid_filter where
  "exclude_5_9 \<equiv> \<lparr>f_sAttrName = ''id'', f_eType = SPH_FILTER_RANGE, f_bExclude = True, f_dValues = [], f_iMinValue = 5, f_iMaxValue = 9,
     f_bHasEqualMin = True, f_bHasEqualMax = False, f_bOpenLeft = False, f_bOpenRight = False\<rparr>"

abbreviation value_9 :: docid_filter where
  "value_9 \<equiv> \<lparr>f_sAttrName = ''id'', f_eType = SPH_FILTER_VALUES, f_bExclude = False, f_dValues = [9], f_iMinValue = 0, f_iMaxValue = 0,
     f_bHasEqualMin = True, f_bHasEqualMax = True, f_bOpenLeft = False, f_bOpenRight = False\<rparr>"

lemma dup_docs_indexed: "indexed 71 64 3 dup_docs" "docid_filter_wf exclude_5_9" "docid_filter_wf value_9"
  using dup_docs_facts(1,2) by (simp_all add: indexed_def docid_filter_wf_def int64_def)

text \<open>Both rows of docid 9 are handed out.\<close>

theorem docid_filter_exact_witness:
  "\<exists>i j. CreateLookupIterator True 0 value_9 3 (lookup_image 71 64 0 dup_docs) 71 None = Some (Some i) \<and>
    read_all LookupIterator_i 4 i = Some ([0, 2], j)"
proof -
  have "selected None (docid_matches value_9) dup_docs = [0, 2]" by (simp add: selected_def docid_matches_def in_bounds_def)
  moreover have "length dup_docs + 1 = 4" by simp
  ultimately show ?thesis using docid_filter_exact[OF dup_docs_indexed(1,3), of True 0 0 "[]" None] by (simp del: One_nat_def add: numeral_eq_Suc)
qed

text \<open>C24: on a lookup file of either format with ascending docids, which may repeat but do not continue across a checkpoint, an
  intersection of iterators for docid filters (value lists strictly ascending) hands out exactly the rows that pass all
  the filters, every row once and in ascending order, and never blocks; with a cutoff it hands out the first rows of these, and
  \<^verbatim>\<open>WasCutoffHit\<close> tells whether there were enough of them.\<close>

theorem intersect_docid_filters:
  assumes "indexed ver D n ps" "fs \<noteq> []" "list_all docid_filter_wf fs"
    and "R = selected pBoundaries (\<lambda>d. \<forall>f \<in> set fs. docid_matches f d) ps"
  shows "\<exists>its x. list_all2 (\<lambda>f i. CreateLookupIterator bBitmap g f n (lookup_image ver D u ps @ tail) ver pBoundaries = Some (Some i)) fs its \<and>
    Intersect_new LookupIterator_i its = Some x \<and>
    (\<exists>y. read_all (Intersect_i LookupIterator_i) (length ps + 1) x = Some (R, y)) \<and>
    (\<forall>c. 0 \<le> c \<longrightarrow> c < INT_MAX \<longrightarrow>
      (\<exists>y. read_all (Intersect_i LookupIterator_i) (length ps + 1) (Intersect_SetCutoff c x) = Some (take (nat c) R, y) \<and>
        (Intersect_WasCutoffHit y \<longleftrightarrow> c \<le> int (length R))))"
proof -
  let ?S = "\<lambda>f. selected pBoundaries (docid_matches f) ps"
  let ?make = "\<lambda>f. the (the (CreateLookupIterator bBitmap g f n (lookup_image ver D u ps @ tail) ver pBoundaries))"
  have mk: "CreateLookupIterator bBitmap g f n (lookup_image ver D u ps @ tail) ver pBoundaries = Some (Some (?make f)) \<and> lookup_rows (?make f) (?S f)"
    if "f \<in> set fs" for f
  proof -
    have "docid_filter_wf f" using assms(3) that by (simp add: list_all_iff)
    from create_selected[OF assms(1) this, of bBitmap g u tail pBoundaries] show ?thesis by auto
  qed
  have all2: "list_all2 (\<lambda>f i. CreateLookupIterator bBitmap g f n (lookup_image ver D u ps @ tail) ver pBoundaries = Some (Some i)) fs (map ?make fs)"
    using mk by (simp add: list_all2_conv_all_nth)
  have "list_all2 lookup_rows (map ?make fs) (map ?S fs)" using mk by (simp add: list_all2_conv_all_nth)
  moreover have "filter (\<lambda>r. \<forall>R' \<in> set (map ?S fs). r \<in> set R') (hd (map ?S fs)) = R"
  proof (rule sorted_distinct_set_unique)
    have d: "distinct (map m_tRowID ps)" using assms(1) by (simp add: indexed_def)
    then show "sorted R" "distinct R" using selected_sorted assms(4) by blast+
    have "hd (map ?S fs) = ?S (hd fs)" using assms(2) by (simp add: hd_map)
    then show "sorted (filter (\<lambda>r. \<forall>R' \<in> set (map ?S fs). r \<in> set R') (hd (map ?S fs)))"
      "distinct (filter (\<lambda>r. \<forall>R' \<in> set (map ?S fs). r \<in> set R') (hd (map ?S fs)))"
      using selected_sorted[OF d] by (simp_all add: sorted_wrt_filter)
    have h: "hd fs \<in> set fs" using assms(2) by simp
    show "set (filter (\<lambda>r. \<forall>R' \<in> set (map ?S fs). r \<in> set R') (hd (map ?S fs))) = set R"
    proof (rule set_eqI)
      fix r
      have "(\<forall>f \<in> set fs. r \<in> set (?S f)) \<longleftrightarrow> r \<in> set R"
      proof (cases "\<exists>p \<in> set ps. m_tRowID p = r")
        case True
        then obtain p where "p \<in> set ps" "m_tRowID p = r" by blast
        then show ?thesis using selected_rows(2)[OF d, of p] h unfolding assms(4) by auto
      next
        case False
        then show ?thesis using selected_rows(1)[OF d, of r] h unfolding assms(4) by auto
      qed
      then show "r \<in> set (filter (\<lambda>r. \<forall>R' \<in> set (map ?S fs). r \<in> set R') (hd (map ?S fs))) \<longleftrightarrow> r \<in> set R"
        unfolding \<open>hd (map ?S fs) = ?S (hd fs)\<close> using h by auto
    qed
  qed
  ultimately obtain x where x: "Intersect_new LookupIterator_i (map ?make fs) = Some x" "docid_rows.intersect_rows x R"
    using docid_rows.intersect_new[of "map ?make fs" "map ?S fs"] assms(2) by auto
  have len: "length R < length ps + 1" using selected_length[of _ _ ps] by (simp add: assms(4) le_imp_less_Suc)
  have "\<exists>y. read_all (Intersect_i LookupIterator_i) (length ps + 1) (Intersect_SetCutoff c x) = Some (take (nat c) R, y) \<and>
      (Intersect_WasCutoffHit y \<longleftrightarrow> c \<le> int (length R))" if "0 \<le> c" "c < INT_MAX" for c
    using docid_rows.intersect_cutoff[of "Intersect_SetCutoff c x" R "length ps + 1"] x(2) that len
    by (simp add: docid_rows.intersect_rows_def Intersect_SetCutoff_def)
  then show ?thesis using all2 x(1) docid_intersection.read_all_rows[OF x(2) len] by blast
qed

theorem intersect_docid_filters_witness:
  "\<exists>its x y. list_all2 (\<lambda>f i. CreateLookupIterator False 0 f 3 (lookup_image 71 64 0 dup_docs) 71 None = Some (Some i)) [exclude_5_9, value_9] its \<and>
    Intersect_new LookupIterator_i its = Some x \<and> read_all (Intersect_i LookupIterator_i) 4 (Intersect_SetCutoff 1 x) = Some ([0], y) \<and>
    Intersect_WasCutoffHit y"
proof -
  have "[0, 2] = selected None (\<lambda>d. \<forall>f \<in> set [exclude_5_9, value_9]. docid_matches f d) dup_docs"
    by (simp add: selected_def docid_matches_def in_bounds_def)
  note spec = intersect_docid_filters[OF dup_docs_indexed(1) _ _ this, of False 0 0 "[]"]
  have "[exclude_5_9, value_9] \<noteq> []" "list_all docid_filter_wf [exclude_5_9, value_9]" using dup_docs_indexed(2,3) by simp_all
  from spec[OF this] obtain its x where x: "list_all2 (\<lambda>f i. CreateLookupIterator False 0 f 3 (lookup_image 71 64 0 dup_docs) 71 None = Some (Some i)) [exclude_5_9, value_9] its"
    "Intersect_new LookupIterator_i its = Some x"
    "\<forall>c. 0 \<le> c \<longrightarrow> c < INT_MAX \<longrightarrow> (\<exists>y. read_all (Intersect_i LookupIterator_i) (length dup_docs + 1) (Intersect_SetCutoff c x) = Some (take (nat c) [0, 2], y) \<and>
        (Intersect_WasCutoffHit y \<longleftrightarrow> c \<le> int (length [0 :: RowID_t, 2])))"
    unfolding append_Nil2 by blast
  have l: "length dup_docs + 1 = 4" "take (nat 1) [0 :: RowID_t, 2] = [0]" by simp_all
  from x(3)[rule_format, of 1, unfolded l] have "\<exists>y. read_all (Intersect_i LookupIterator_i) 4 (Intersect_SetCutoff 1 x) = Some ([0], y) \<and> Intersect_WasCutoffHit y"
    by (auto simp: INT_MAX_def)
  then show ?thesis using x(1,2) by blast
qed

end
