(* ===== verification/Row_Attr.thy ===== *)
theory Row_Attr
  imports Prelude "HOL-Library.Monad_Syntax"
begin

text \<open>
  Attributes packed into rows: the locators of \<^verbatim>\<open>src/src/schema/locator.h\<close> and \<^verbatim>\<open>locator_impl.h\<close>, which say where in a row of
  32-bit items an attribute is kept, and the numeric accessors of \<^verbatim>\<open>CSphMatch\<close> in \<^verbatim>\<open>src/src/match_impl.h\<close>. A row is the
  list of its items; reading or writing outside it, a failed assertion and an undefined shift are None.
  Shown: the row is an array of bits in which every attribute owns its range, so that a written attribute
  reads back and no attribute disturbs another.
\<close>

section \<open>Model\<close>

type_synonym SphAttr_t = qword
type_synonym CSphRowitem = dword

record SmallAttrLocator_t =
  m_iBitOffset :: int
  m_iBitCount :: int

record CSphAttrLocator = SmallAttrLocator_t +
  m_iBlobAttrId :: int
  m_iBlobRowOffset :: int
  m_nBlobAttrs :: int
  m_bDynamic :: bool

definition ROWITEM_BITS :: int where
  "ROWITEM_BITS = 32"

definition IsBitfield :: "'a SmallAttrLocator_t_scheme \<Rightarrow> bool" where
  "IsBitfield tLoc \<longleftrightarrow> m_iBitCount tLoc < ROWITEM_BITS \<or> m_iBitOffset tLoc mod ROWITEM_BITS \<noteq> 0"

definition CalcRowitem :: "'a SmallAttrLocator_t_scheme \<Rightarrow> int" where
  "CalcRowitem tLoc = (if IsBitfield tLoc then -1 else m_iBitOffset tLoc div ROWITEM_BITS)"

text \<open>The division truncates towards zero.\<close>

definition GetMaxRowitem :: "'a SmallAttrLocator_t_scheme \<Rightarrow> int" where
  "GetMaxRowitem tLoc =
    (let n = m_iBitOffset tLoc + m_iBitCount tLoc - 1 in if n < 0 then - ((- n) div ROWITEM_BITS) else n div ROWITEM_BITS)"

definition IsBlobAttr :: "CSphAttrLocator \<Rightarrow> bool" where
  "IsBlobAttr tLoc \<longleftrightarrow> m_iBlobAttrId tLoc \<ge> 0"

definition Locator_Reset :: "CSphAttrLocator \<Rightarrow> CSphAttrLocator" where
  "Locator_Reset tLoc =
    \<lparr>m_iBitOffset = -1, m_iBitCount = -1, m_iBlobAttrId = -1, m_iBlobRowOffset = 1, m_nBlobAttrs = 0, m_bDynamic = True\<rparr>"

definition Locator_eq :: "CSphAttrLocator \<Rightarrow> CSphAttrLocator \<Rightarrow> bool" where
  "Locator_eq l r =
    (if m_iBlobAttrId l = -1
     then m_bDynamic l = m_bDynamic r \<and> m_iBitOffset l = m_iBitOffset r \<and> m_iBitCount l = m_iBitCount r
     else m_bDynamic l = m_bDynamic r \<and> m_iBlobAttrId l = m_iBlobAttrId r \<and> m_nBlobAttrs l = m_nBlobAttrs r)"

definition row_item :: "CSphRowitem list \<Rightarrow> int \<Rightarrow> CSphRowitem option" where
  "row_item pRow i = (if 0 \<le> i \<and> nat i < length pRow then Some (pRow ! nat i) else None)"

definition set_item :: "CSphRowitem list \<Rightarrow> int \<Rightarrow> CSphRowitem \<Rightarrow> CSphRowitem list option" where
  "set_item pRow i w = (if 0 \<le> i \<and> nat i < length pRow then Some (pRow[nat i := w]) else None)"

text \<open>Two items as a 64-bit value and back, on a little-endian machine.\<close>

definition row_pair :: "CSphRowitem list \<Rightarrow> int \<Rightarrow> SphAttr_t option" where
  "row_pair pRow i = do { lo \<leftarrow> row_item pRow i; hi \<leftarrow> row_item pRow (i + 1); Some (ucast lo OR push_bit 32 (ucast hi)) }"

definition set_pair :: "CSphRowitem list \<Rightarrow> int \<Rightarrow> SphAttr_t \<Rightarrow> CSphRowitem list option" where
  "set_pair pRow i uValue = do { pRow \<leftarrow> set_item pRow i (ucast uValue); set_item pRow (i + 1) (ucast (drop_bit 32 uValue)) }"

definition sphGetRowAttr :: "CSphRowitem list \<Rightarrow> 'a SmallAttrLocator_t_scheme \<Rightarrow> SphAttr_t option" where
  "sphGetRowAttr pRow tLoc =
    (let iItem = m_iBitOffset tLoc div 32; c = m_iBitCount tLoc in
     if c = 0 then None
     else if c = ROWITEM_BITS then map_option ucast (row_item pRow iItem)
     else if c = 2 * ROWITEM_BITS then row_pair pRow iItem
     else if c < 0 \<or> c > 63 then None
     else do {
       w \<leftarrow> row_item pRow iItem;
       let iShift = nat (m_iBitOffset tLoc mod 32);
       Some (ucast (drop_bit iShift w) AND (push_bit (nat c) 1 - 1))
     })"

definition sphSetRowAttr :: "CSphRowitem list \<Rightarrow> 'a SmallAttrLocator_t_scheme \<Rightarrow> SphAttr_t \<Rightarrow> CSphRowitem list option" where
  "sphSetRowAttr pRow tLoc uValue =
    (let iItem = m_iBitOffset tLoc div 32; c = m_iBitCount tLoc in
     if c = 0 then None
     else if c = 2 * ROWITEM_BITS then set_pair pRow iItem uValue
     else if c = ROWITEM_BITS then set_item pRow iItem (ucast uValue)
     else if c < 0 \<or> c > 63 then None
     else do {
       w \<leftarrow> row_item pRow iItem;
       let iShift = nat (m_iBitOffset tLoc mod 32);
       let uMask = ucast (push_bit iShift (push_bit (nat c) 1 - 1 :: qword));
       set_item pRow iItem ((w AND NOT uMask) OR ucast (ucast uMask AND push_bit iShift uValue))
     })"

definition sphAddCounterAttr :: "CSphRowitem list \<Rightarrow> CSphRowitem list \<Rightarrow> 'a SmallAttrLocator_t_scheme \<Rightarrow> CSphRowitem list option" where
  "sphAddCounterAttr pRow pVal tLoc =
    (let iItem = m_iBitOffset tLoc div 32; c = m_iBitCount tLoc in
     if c = ROWITEM_BITS then do {
       a \<leftarrow> row_item pRow iItem; b \<leftarrow> row_item pVal iItem;
       set_item pRow iItem (ucast (ucast a + ucast b :: SphAttr_t))
     } else if c = 2 * ROWITEM_BITS then do {
       a \<leftarrow> row_pair pRow iItem; b \<leftarrow> row_pair pVal iItem;
       set_pair pRow iItem (a + b)
     } else None)"

definition sphAddCounterScalar :: "CSphRowitem list \<Rightarrow> 'a SmallAttrLocator_t_scheme \<Rightarrow> SphAttr_t \<Rightarrow> CSphRowitem list option" where
  "sphAddCounterScalar pRow tLoc uValue =
    (let iItem = m_iBitOffset tLoc div 32; c = m_iBitCount tLoc in
     if c = ROWITEM_BITS then do {
       a \<leftarrow> row_item pRow iItem;
       set_item pRow iItem (ucast (uValue + ucast a))
     } else if c = 2 * ROWITEM_BITS then do {
       a \<leftarrow> row_pair pRow iItem;
       set_pair pRow iItem (uValue + a)
     } else None)"

subsection \<open>Matches\<close>

record CSphMatch =
  m_pDynamic :: "CSphRowitem list"
  m_pStatic :: "CSphRowitem list"
  m_tRowID_of :: RowID_t
  m_iWeight :: int
  m_iTag :: int

definition GetAttr :: "CSphMatch \<Rightarrow> CSphAttrLocator \<Rightarrow> SphAttr_t option" where
  "GetAttr tMatch tLoc =
    (if m_iBitOffset tLoc \<ge> 0 then sphGetRowAttr (if m_bDynamic tLoc then m_pDynamic tMatch else m_pStatic tMatch) tLoc else None)"

text \<open>The assertions on the size of the dynamic part.\<close>

definition dynamic_ok :: "CSphMatch \<Rightarrow> CSphAttrLocator \<Rightarrow> bool" where
  "dynamic_ok tMatch tLoc \<longleftrightarrow> m_bDynamic tLoc \<and> GetMaxRowitem tLoc < int (length (m_pDynamic tMatch))"

definition SetAttr :: "CSphMatch \<Rightarrow> CSphAttrLocator \<Rightarrow> SphAttr_t \<Rightarrow> CSphMatch option" where
  "SetAttr tMatch tLoc uValue =
    (if dynamic_ok tMatch tLoc
     then map_option (\<lambda>r. tMatch\<lparr>m_pDynamic := r\<rparr>) (sphSetRowAttr (m_pDynamic tMatch) tLoc uValue) else None)"

definition ExchangeAttr :: "CSphMatch \<Rightarrow> CSphAttrLocator \<Rightarrow> SphAttr_t \<Rightarrow> (SphAttr_t \<times> CSphMatch) option" where
  "ExchangeAttr tMatch tLoc uNewValue = do {
     uOldValue \<leftarrow> GetAttr tMatch tLoc;
     tMatch \<leftarrow> SetAttr tMatch tLoc uNewValue;
     Some (uOldValue, tMatch)
   }"

definition AddCounterScalar :: "CSphMatch \<Rightarrow> CSphAttrLocator \<Rightarrow> SphAttr_t \<Rightarrow> CSphMatch option" where
  "AddCounterScalar tMatch tLoc uValue =
    (if dynamic_ok tMatch tLoc
     then map_option (\<lambda>r. tMatch\<lparr>m_pDynamic := r\<rparr>) (sphAddCounterScalar (m_pDynamic tMatch) tLoc uValue) else None)"

definition AddCounterAttr :: "CSphMatch \<Rightarrow> CSphAttrLocator \<Rightarrow> CSphMatch \<Rightarrow> CSphMatch option" where
  "AddCounterAttr tMatch tLoc tValue =
    (if dynamic_ok tMatch tLoc
     then map_option (\<lambda>r. tMatch\<lparr>m_pDynamic := r\<rparr>)
       (sphAddCounterAttr (m_pDynamic tMatch) (if m_bDynamic tLoc then m_pDynamic tValue else m_pStatic tValue) tLoc) else None)"

definition CSphMatch_Reset :: "nat \<Rightarrow> CSphMatch \<Rightarrow> CSphMatch option" where
  "CSphMatch_Reset iDynamic tMatch =
    (if m_pDynamic tMatch \<noteq> [] \<and> iDynamic \<noteq> length (m_pDynamic tMatch) then None
     else Some (tMatch\<lparr>m_tRowID_of := INVALID_ROWID,
       m_pDynamic := (if m_pDynamic tMatch = [] then replicate iDynamic 0 else m_pDynamic tMatch)\<rparr>))"

text \<open>\<^verbatim>\<open>Combine\<close> with another match; a fresh dynamic part is overwritten at once.\<close>

definition CSphMatch_Combine :: "CSphMatch \<Rightarrow> nat \<Rightarrow> CSphMatch \<Rightarrow> CSphMatch option" where
  "CSphMatch_Combine rhs iDynamic tMatch =
    (if m_pDynamic tMatch \<noteq> [] \<and> iDynamic \<noteq> length (m_pDynamic tMatch) then None
     else if iDynamic \<noteq> 0 \<and> length (m_pDynamic rhs) \<noteq> iDynamic then None
     else Some (tMatch\<lparr>m_tRowID_of := m_tRowID_of rhs, m_iWeight := m_iWeight rhs, m_pStatic := m_pStatic rhs, m_iTag := m_iTag rhs,
       m_pDynamic := (if iDynamic \<noteq> 0 then m_pDynamic rhs else m_pDynamic tMatch)\<rparr>))"

section \<open>Rows as bits\<close>

definition row_bit :: "CSphRowitem list \<Rightarrow> nat \<Rightarrow> bool" where
  "row_bit pRow i = bit (pRow ! (i div 32)) (i mod 32)"

text \<open>A locator that fits a row: a whole item, two whole items, or a bitfield inside one item.\<close>

definition loc_ok :: "CSphRowitem list \<Rightarrow> 'a SmallAttrLocator_t_scheme \<Rightarrow> bool" where
  "loc_ok pRow l \<longleftrightarrow> 0 \<le> m_iBitOffset l \<and> 0 < m_iBitCount l \<and> m_iBitOffset l + m_iBitCount l \<le> 32 * int (length pRow) \<and>
    (m_iBitCount l \<in> {32, 64} \<and> m_iBitOffset l mod 32 = 0 \<or> m_iBitCount l < 32 \<and> m_iBitOffset l mod 32 + m_iBitCount l \<le> 32)"

lemma loc_cases:
  assumes "loc_ok pRow l"
  obtains (item) q where "m_iBitOffset l = int (32 * q)" "m_iBitCount l = 32" "q < length pRow"
  | (pair) q where "m_iBitOffset l = int (32 * q)" "m_iBitCount l = 64" "q + 1 < length pRow"
  | (field) q s n where "m_iBitOffset l = int (32 * q + s)" "m_iBitCount l = int n" "0 < n" "n < 32" "s + n \<le> 32" "q < length pRow"
proof -
  define q s where "q = nat (m_iBitOffset l div 32)" and "s = nat (m_iBitOffset l mod 32)"
  define n where "n = nat (m_iBitCount l)"
  have o: "m_iBitOffset l = int (32 * q + s)" "m_iBitCount l = int n" "s < 32" "0 < n"
    using assms by (auto simp: q_def s_def n_def loc_ok_def)
  have "m_iBitOffset l + m_iBitCount l \<le> 32 * int (length pRow)" using assms by (simp add: loc_ok_def)
  then have "int (32 * q + s + n) \<le> int (32 * length pRow)" using o by simp
  note off = o this[unfolded of_nat_le_iff]
  consider "n = 32" "s = 0" | "n = 64" "s = 0" | "n < 32" "s + n \<le> 32"
    using assms by (auto simp: loc_ok_def s_def n_def)
  then show thesis
  proof cases
    case 1
    then show thesis using off item[of q] by simp
  next
    case 2
    then show thesis using off pair[of q] by simp
  next
    case 3
    then show thesis using off field[of q s n] by simp
  qed
qed

lemma row_item_at: "q < length pRow \<Longrightarrow> row_item pRow (int q) = Some (pRow ! q)"
  by (simp add: row_item_def)

lemma set_item_at: "q < length pRow \<Longrightarrow> set_item pRow (int q) w = Some (pRow[q := w])"
  by (simp add: set_item_def)

lemma row_bit_at: "k < 32 \<Longrightarrow> row_bit pRow (32 * q + k) = bit (pRow ! q) k"
  by (simp add: row_bit_def)

lemma bit_ucast_qword: "bit (ucast (w :: dword) :: qword) k \<longleftrightarrow> bit w k"
  by (auto simp: bit_ucast_iff dest: bit_imp_le_length)

lemma bit_ucast_dword: "bit (ucast (v :: qword) :: dword) k \<longleftrightarrow> k < 32 \<and> bit v k"
  by (auto simp: bit_ucast_iff)

lemma bit_low_mask: "n < 64 \<Longrightarrow> bit (2 ^ n - 1 :: qword) k \<longleftrightarrow> k < n"
  by (auto simp: mask_eq_exp_minus_1[symmetric] bit_mask_iff)

text \<open>Reading collects the bits of the range, writing changes no other bit.\<close>

lemma get_bits:
  assumes "loc_ok pRow l"
  shows "\<exists>v. sphGetRowAttr pRow l = Some v \<and> (\<forall>k. bit v k \<longleftrightarrow> k < nat (m_iBitCount l) \<and> row_bit pRow (nat (m_iBitOffset l) + k))"
  using assms
proof (cases rule: loc_cases)
  case (item q)
  have o: "nat (m_iBitOffset l) = 32 * q" using item(1) by linarith
  have "sphGetRowAttr pRow l = Some (ucast (pRow ! q))" using item by (simp add: sphGetRowAttr_def ROWITEM_BITS_def row_item_at)
  moreover have "bit (pRow ! q) k \<longleftrightarrow> k < 32 \<and> row_bit pRow (32 * q + k)" for k
    using row_bit_at[of k pRow q] bit_imp_le_length[of "pRow ! q" k] by auto
  ultimately show ?thesis unfolding o using item by (simp add: bit_ucast_qword)
next
  case (pair q)
  have o: "nat (m_iBitOffset l) = 32 * q" using pair(1) by linarith
  have "row_item pRow (int q + 1) = Some (pRow ! (q + 1))" using row_item_at[OF pair(3)] by (simp add: add.commute)
  then have "sphGetRowAttr pRow l = Some (ucast (pRow ! q) OR push_bit 32 (ucast (pRow ! (q + 1))))"
    using pair by (simp add: sphGetRowAttr_def ROWITEM_BITS_def row_pair_def row_item_at)
  moreover have "bit (ucast (pRow ! q) OR push_bit 32 (ucast (pRow ! (q + 1))) :: qword) k \<longleftrightarrow> k < 64 \<and> row_bit pRow (32 * q + k)" for k
  proof (cases "k < 32")
    case True
    then show ?thesis by (simp add: bit_or_iff bit_push_bit_iff bit_ucast_qword row_bit_at)
  next
    case False
    then obtain j where k: "k = 32 + j" by (metis le_Suc_ex not_less)
    have "\<not> bit (pRow ! q) k" using False bit_imp_le_length[of "pRow ! q" k] by auto
    moreover have "bit (pRow ! (q + 1)) j \<longleftrightarrow> j < 32 \<and> row_bit pRow (32 * (q + 1) + j)"
      using row_bit_at[of j pRow "q + 1"] bit_imp_le_length[of "pRow ! (q + 1)" j] by auto
    ultimately show ?thesis using k by (auto simp: bit_or_iff bit_push_bit_iff bit_ucast_qword algebra_simps)
  qed
  ultimately show ?thesis unfolding o using pair by simp
next
  case (field q s n)
  have o: "nat (m_iBitOffset l) = 32 * q + s" using field(1) by linarith
  have "sphGetRowAttr pRow l = Some (ucast (drop_bit s (pRow ! q)) AND (push_bit n 1 - 1))"
    using field by (simp add: sphGetRowAttr_def ROWITEM_BITS_def row_item_at)
  moreover have "bit (ucast (drop_bit s (pRow ! q)) AND (push_bit n 1 - 1) :: qword) k \<longleftrightarrow> k < n \<and> row_bit pRow (32 * q + s + k)" for k
    using field row_bit_at[of "s + k" pRow q] by (auto simp: bit_and_iff bit_low_mask bit_ucast_qword bit_drop_bit_eq add.assoc)
  ultimately show ?thesis unfolding o using field by simp
qed

lemma row_bit_update:
  assumes "q < length pRow"
  shows "row_bit (pRow[q := w]) i = (if i div 32 = q then bit w (i mod 32) else row_bit pRow i)"
  using assms by (auto simp: row_bit_def nth_list_update)

lemma set_item_bits:
  assumes "loc_ok pRow l"
  shows "\<exists>r. sphSetRowAttr pRow l v = Some r \<and> length r = length pRow \<and>
    (\<forall>i. row_bit r i \<longleftrightarrow> (if nat (m_iBitOffset l) \<le> i \<and> i < nat (m_iBitOffset l) + nat (m_iBitCount l)
       then bit v (i - nat (m_iBitOffset l)) else row_bit pRow i))"
  using assms
proof (cases rule: loc_cases)
  case (item q)
  have o: "nat (m_iBitOffset l) = 32 * q" using item(1) by linarith
  have "sphSetRowAttr pRow l v = Some (pRow[q := ucast v])" using item by (simp add: sphSetRowAttr_def ROWITEM_BITS_def set_item_at)
  moreover have "i div 32 = q \<longleftrightarrow> 32 * q \<le> i \<and> i < 32 * q + 32" for i by (auto simp: div_nat_eqI)
  moreover have "i div 32 = q \<Longrightarrow> i mod 32 = i - 32 * q" for i by (auto simp: minus_mult_div_eq_mod[symmetric])
  ultimately show ?thesis unfolding o using item by (auto simp: row_bit_update bit_ucast_dword)
next
  case (pair q)
  have o: "nat (m_iBitOffset l) = 32 * q" using pair(1) by linarith
  let ?r = "pRow[q := ucast v, q + 1 := ucast (drop_bit 32 v)]"
  have "set_item (pRow[q := ucast v]) (int q + 1) w = Some (pRow[q := ucast v, q + 1 := w])" for w
    using set_item_at[of "q + 1" "pRow[q := ucast v]" w] pair(3) by (simp add: add.commute)
  then have "sphSetRowAttr pRow l v = Some ?r" using pair by (simp add: sphSetRowAttr_def ROWITEM_BITS_def set_pair_def set_item_at)
  moreover have "row_bit ?r i \<longleftrightarrow> (if 32 * q \<le> i \<and> i < 32 * q + 64 then bit v (i - 32 * q) else row_bit pRow i)" for i
  proof -
    have d: "i div 32 = q \<longleftrightarrow> 32 * q \<le> i \<and> i < 32 * q + 32" "i div 32 = q + 1 \<longleftrightarrow> 32 * q + 32 \<le> i \<and> i < 32 * q + 64"
      by (auto simp: div_nat_eqI)
    have m: "i div 32 = q \<Longrightarrow> i mod 32 = i - 32 * q" "i div 32 = q + 1 \<Longrightarrow> 32 + i mod 32 = i - 32 * q"
      by (auto simp: minus_mult_div_eq_mod[symmetric])
    show ?thesis using pair(3) d m by (auto simp: row_bit_update bit_ucast_dword bit_drop_bit_eq)
  qed
  ultimately show ?thesis unfolding o using pair by simp
next
  case (field q s n)
  have o: "nat (m_iBitOffset l) = 32 * q + s" using field(1) by linarith
  let ?m = "ucast (push_bit s (push_bit n 1 - 1 :: qword)) :: dword"
  let ?w = "(pRow ! q AND NOT ?m) OR ucast (ucast ?m AND push_bit s v)"
  have "sphSetRowAttr pRow l v = Some (pRow[q := ?w])"
    using field by (simp add: sphSetRowAttr_def ROWITEM_BITS_def row_item_at set_item_at Let_def)
  moreover have mk: "bit ?m k \<longleftrightarrow> s \<le> k \<and> k < s + n" if "k < 32" for k
    using that field by (auto simp: bit_ucast_dword bit_push_bit_iff bit_low_mask)
  have wb: "bit ?w k \<longleftrightarrow> (if s \<le> k \<and> k < s + n then bit v (k - s) else bit (pRow ! q) k)" if "k < 32" for k
    using that mk[OF that] by (auto simp: bit_or_iff bit_and_iff bit_not_iff bit_ucast_dword bit_ucast_qword bit_push_bit_iff)
  have "row_bit (pRow[q := ?w]) i \<longleftrightarrow> (if 32 * q + s \<le> i \<and> i < 32 * q + s + n then bit v (i - (32 * q + s)) else row_bit pRow i)" for i
  proof -
    have i: "i = 32 * (i div 32) + i mod 32" "i mod 32 < 32" by simp_all
    note wb = wb[OF i(2)]
    have "i div 32 = q" if "32 * q + s \<le> i" "i < 32 * q + s + n" using that field by (intro div_nat_eqI) auto
    moreover have "row_bit pRow i = bit (pRow ! q) (i mod 32)" if "i div 32 = q" using that by (simp add: row_bit_def)
    moreover have "32 * q + s \<le> i \<longleftrightarrow> s \<le> i mod 32" "i < 32 * q + s + n \<longleftrightarrow> i mod 32 < s + n" "i - (32 * q + s) = i mod 32 - s" if "i div 32 = q"
      using i(1)[unfolded that] by linarith+
    ultimately show ?thesis using field(6) wb by (auto simp: row_bit_update)
  qed
  ultimately show ?thesis unfolding o using field by simp
qed

section \<open>Attributes\<close>

definition loc_bits :: "'a SmallAttrLocator_t_scheme \<Rightarrow> nat set" where
  "loc_bits l = {nat (m_iBitOffset l) ..< nat (m_iBitOffset l) + nat (m_iBitCount l)}"

lemma loc_ok_length: "length r = length pRow \<Longrightarrow> loc_ok r l = loc_ok pRow l"
  by (simp add: loc_ok_def)

lemma get_cong:
  assumes "loc_ok pRow l" "length r = length pRow" "\<And>i. i \<in> loc_bits l \<Longrightarrow> row_bit r i = row_bit pRow i"
  shows "sphGetRowAttr r l = sphGetRowAttr pRow l"
proof -
  obtain v where v: "sphGetRowAttr pRow l = Some v" "\<forall>k. bit v k \<longleftrightarrow> k < nat (m_iBitCount l) \<and> row_bit pRow (nat (m_iBitOffset l) + k)"
    using get_bits[OF assms(1)] by blast
  obtain w where w: "sphGetRowAttr r l = Some w" "\<forall>k. bit w k \<longleftrightarrow> k < nat (m_iBitCount l) \<and> row_bit r (nat (m_iBitOffset l) + k)"
    using get_bits[of r l] assms(1,2) loc_ok_length by blast
  have "v = w"
  proof (rule bit_eqI)
    fix k show "bit v k = bit w k" using v(2) w(2) assms(3)[of "nat (m_iBitOffset l) + k"] by (auto simp: loc_bits_def)
  qed
  then show ?thesis using v(1) w(1) by simp
qed

lemma set_then_get:
  assumes "loc_ok pRow l" "sphSetRowAttr pRow l v = Some r"
  shows "sphGetRowAttr r l = Some (take_bit (nat (m_iBitCount l)) v)"
proof -
  have r: "length r = length pRow" "\<forall>i. row_bit r i \<longleftrightarrow> (if nat (m_iBitOffset l) \<le> i \<and> i < nat (m_iBitOffset l) + nat (m_iBitCount l)
       then bit v (i - nat (m_iBitOffset l)) else row_bit pRow i)" using set_item_bits[OF assms(1), of v] assms(2) by auto
  obtain w where w: "sphGetRowAttr r l = Some w" "\<forall>k. bit w k \<longleftrightarrow> k < nat (m_iBitCount l) \<and> row_bit r (nat (m_iBitOffset l) + k)"
    using get_bits[of r l] assms(1) loc_ok_length[OF r(1)] by blast
  have "w = take_bit (nat (m_iBitCount l)) v" by (rule bit_eqI) (auto simp: w(2) r(2) bit_take_bit_iff)
  then show ?thesis using w(1) by simp
qed

lemma set_then_get_other:
  assumes "loc_ok pRow l" "loc_ok pRow l'" "loc_bits l \<inter> loc_bits l' = {}" "sphSetRowAttr pRow l v = Some r"
  shows "sphGetRowAttr r l' = sphGetRowAttr pRow l'"
proof (rule get_cong[OF assms(2)])
  show "length r = length pRow" using set_item_bits[OF assms(1), of v] assms(4) by auto
  fix i assume "i \<in> loc_bits l'"
  then have "i \<notin> loc_bits l" using assms(3) by auto
  then show "row_bit r i = row_bit pRow i" using set_item_bits[OF assms(1), of v] assms(4) by (auto simp: loc_bits_def)
qed

lemma get_take_bit: "loc_ok pRow l \<Longrightarrow> sphGetRowAttr pRow l = Some v \<Longrightarrow> take_bit (nat (m_iBitCount l)) v = v"
proof -
  assume "loc_ok pRow l" "sphGetRowAttr pRow l = Some v"
  then have "\<forall>k. bit v k \<longrightarrow> k < nat (m_iBitCount l)" using get_bits[of pRow l] by auto
  then show ?thesis by (intro bit_eqI) (auto simp: bit_take_bit_iff)
qed

text \<open>The counters wrap around at the width of the attribute.\<close>

lemma AddCounterScalar_sets:
  assumes "loc_ok pRow l" "m_iBitCount l \<in> {32, 64}" "sphGetRowAttr pRow l = Some v"
  shows "sphAddCounterScalar pRow l u = sphSetRowAttr pRow l (u + v)"
  using assms(1)
proof (cases rule: loc_cases)
  case (item q)
  then have "v = ucast (pRow ! q)" using assms(3) by (simp add: sphGetRowAttr_def ROWITEM_BITS_def row_item_at)
  then show ?thesis using item by (simp add: sphAddCounterScalar_def sphSetRowAttr_def ROWITEM_BITS_def row_item_at)
next
  case (pair q)
  then have "row_pair pRow (int q) = Some v" using assms(3) by (simp add: sphGetRowAttr_def ROWITEM_BITS_def)
  then show ?thesis using pair by (simp add: sphAddCounterScalar_def sphSetRowAttr_def ROWITEM_BITS_def)
next
  case (field q s n)
  then show ?thesis using assms(2) by auto
qed

lemma AddCounterAttr_sets:
  assumes "loc_ok pRow l" "loc_ok pVal l" "m_iBitCount l \<in> {32, 64}" "sphGetRowAttr pRow l = Some v" "sphGetRowAttr pVal l = Some u"
  shows "sphAddCounterAttr pRow pVal l = sphSetRowAttr pRow l (v + u)"
  using assms(1)
proof (cases rule: loc_cases)
  case (item q)
  obtain q' where "m_iBitOffset l = int (32 * q')" "q' < length pVal" using assms(2) by (cases rule: loc_cases) (use item in auto)
  then have "q < length pVal" using item by simp
  then have "v = ucast (pRow ! q)" "u = ucast (pVal ! q)" using item assms(4,5) by (simp_all add: sphGetRowAttr_def ROWITEM_BITS_def row_item_at)
  then show ?thesis using item \<open>q < length pVal\<close> by (simp add: sphAddCounterAttr_def sphSetRowAttr_def ROWITEM_BITS_def row_item_at)
next
  case (pair q)
  then have "row_pair pRow (int q) = Some v" "row_pair pVal (int q) = Some u" using assms(4,5) by (simp_all add: sphGetRowAttr_def ROWITEM_BITS_def)
  then show ?thesis using pair by (simp add: sphAddCounterAttr_def sphSetRowAttr_def ROWITEM_BITS_def)
next
  case (field q s n)
  then show ?thesis using assms(3) by auto
qed

text \<open>C29: in a match whose dynamic part two attributes fit without sharing bits, \<^verbatim>\<open>SetAttr\<close> succeeds, the attribute reads back as
  the value cut to its width, the other attribute and everything else of the match stay as they were,
  \<^verbatim>\<open>ExchangeAttr\<close> also returns the old value, and \<^verbatim>\<open>AddCounterScalar\<close> on a whole number of items adds modulo the width.\<close>

theorem match_attrs_independent:
  assumes "loc_ok (m_pDynamic m) l" "loc_ok (m_pDynamic m) l'" "loc_bits l \<inter> loc_bits l' = {}" "m_bDynamic l" "m_bDynamic l'"
  shows "\<exists>m' old. SetAttr m l v = Some m' \<and> GetAttr m l = Some old \<and> ExchangeAttr m l v = Some (old, m') \<and>
    GetAttr m' l = Some (take_bit (nat (m_iBitCount l)) v) \<and> GetAttr m' l' = GetAttr m l' \<and>
    m' = m\<lparr>m_pDynamic := m_pDynamic m'\<rparr> \<and> length (m_pDynamic m') = length (m_pDynamic m) \<and>
    (m_iBitCount l \<in> {32, 64} \<longrightarrow>
      (\<exists>m''. AddCounterScalar m l v = Some m'' \<and> GetAttr m'' l = Some (take_bit (nat (m_iBitCount l)) (v + old)) \<and>
        GetAttr m'' l' = GetAttr m l'))"
proof -
  let ?d = "m_pDynamic m"
  have ge: "0 \<le> m_iBitOffset l" "0 \<le> m_iBitOffset l'" using assms(1,2) by (auto simp: loc_ok_def)
  have get: "GetAttr (m\<lparr>m_pDynamic := r\<rparr>) x = sphGetRowAttr r x" if "x \<in> {l, l'}" for r x
    using that ge assms(4,5) by (auto simp: GetAttr_def)
  have get0: "GetAttr m x = sphGetRowAttr ?d x" if "x \<in> {l, l'}" for x using that ge assms(4,5) by (auto simp: GetAttr_def)
  have dyn: "dynamic_ok m l" using assms(1,4) by (auto simp: dynamic_ok_def GetMaxRowitem_def ROWITEM_BITS_def loc_ok_def Let_def)
  have upd: "\<exists>r. sphSetRowAttr ?d l u = Some r \<and> length r = length ?d \<and> sphGetRowAttr r l = Some (take_bit (nat (m_iBitCount l)) u) \<and>
      sphGetRowAttr r l' = sphGetRowAttr ?d l'" for u
    using set_item_bits[OF assms(1), of u] set_then_get[OF assms(1), of u] set_then_get_other[OF assms(1,2,3), of u] by auto
  obtain old where old: "sphGetRowAttr ?d l = Some old" using get_bits[OF assms(1)] by blast
  obtain r where r: "sphSetRowAttr ?d l v = Some r" "length r = length ?d" "sphGetRowAttr r l = Some (take_bit (nat (m_iBitCount l)) v)"
    "sphGetRowAttr r l' = sphGetRowAttr ?d l'" using upd by blast
  have set: "SetAttr m l v = Some (m\<lparr>m_pDynamic := r\<rparr>)" using dyn r(1) by (simp add: SetAttr_def)
  have "\<exists>m''. AddCounterScalar m l v = Some m'' \<and> GetAttr m'' l = Some (take_bit (nat (m_iBitCount l)) (v + old)) \<and> GetAttr m'' l' = GetAttr m l'"
    if "m_iBitCount l \<in> {32, 64}"
    using upd[of "v + old"] AddCounterScalar_sets[OF assms(1) that old, of v] dyn get get0 by (auto simp: AddCounterScalar_def)
  then show ?thesis using set old r get get0
    by (intro exI[of _ "m\<lparr>m_pDynamic := r\<rparr>"] exI[of _ old]) (auto simp: ExchangeAttr_def)
qed

abbreviation loc_at :: "int \<Rightarrow> int \<Rightarrow> CSphAttrLocator" where
  "loc_at b n \<equiv> \<lparr>m_iBitOffset = b, m_iBitCount = n, m_iBlobAttrId = -1, m_iBlobRowOffset = 1, m_nBlobAttrs = 0, m_bDynamic = True\<rparr>"

theorem match_attrs_independent_witness:
  "\<exists>m'. SetAttr \<lparr>m_pDynamic = [0xFFFFFFFF], m_pStatic = [], m_tRowID_of = 0, m_iWeight = 1, m_iTag = 0\<rparr> (loc_at 3 4) 0x15 = Some m' \<and>
    GetAttr m' (loc_at 3 4) = Some 5 \<and> GetAttr m' (loc_at 7 2) = Some 3"
proof -
  let ?m = "\<lparr>m_pDynamic = [0xFFFFFFFF], m_pStatic = [], m_tRowID_of = 0, m_iWeight = 1, m_iTag = 0\<rparr>"
  have "loc_ok (m_pDynamic ?m) (loc_at 3 4)" "loc_ok (m_pDynamic ?m) (loc_at 7 2)" "loc_bits (loc_at 3 4) \<inter> loc_bits (loc_at 7 2) = {}"
    by (auto simp: loc_ok_def loc_bits_def)
  from match_attrs_independent[OF this(1,2,3), where v = "0x15"]
  show ?thesis by (auto simp: GetAttr_def sphGetRowAttr_def row_item_def ROWITEM_BITS_def)
qed

end
