(* ===== verification/Filter_Eval.thy ===== *)
theory Filter_Eval
  imports Binary_Search "HOL-Library.Monad_Syntax"
begin

text \<open>
  The tests that attribute filters are made of, from \<^verbatim>\<open>src/src/sphinxfilter.h\<close> and \<^verbatim>\<open>src/src/sphinxfilter.cpp\<close>: a value against
  a range or a list, a multi-value attribute (an ascending array) against a range or a list, and the bounds of
  a block of rows against a range. Attribute
  values are signed 64-bit numbers that are only compared; they are the integers they denote. Shown, for
  ascending value lists and strictly ascending attributes: what each test decides, and that \<^verbatim>\<open>ANY\<close> of a range ignores the
  upper end of the range when the lower end is one of the values. \<^verbatim>\<open>EvalRange\<close> is the reference the range tests are compared with.
\<close>

section \<open>Ranges\<close>

definition EvalRange :: "bool \<Rightarrow> bool \<Rightarrow> bool \<Rightarrow> bool \<Rightarrow> 'a::linorder \<Rightarrow> 'a \<Rightarrow> 'a \<Rightarrow> bool" where
  "EvalRange HAS_EQUAL_MIN HAS_EQUAL_MAX OPEN_LEFT OPEN_RIGHT tValue tMin tMax =
    (if OPEN_LEFT then (if HAS_EQUAL_MAX then tValue \<le> tMax else tValue < tMax)
     else if OPEN_RIGHT then (if HAS_EQUAL_MIN then tValue \<ge> tMin else tValue > tMin)
     else (if HAS_EQUAL_MIN then tValue \<ge> tMin else tValue > tMin) \<and>
       (if HAS_EQUAL_MAX then tValue \<le> tMax else tValue < tMax))"

definition EvalBlockRangeAny :: "bool \<Rightarrow> bool \<Rightarrow> bool \<Rightarrow> bool \<Rightarrow> 'a::linorder \<Rightarrow> 'a \<Rightarrow> 'a \<Rightarrow> 'a \<Rightarrow> bool" where
  "EvalBlockRangeAny HAS_EQUAL_MIN HAS_EQUAL_MAX OPEN_LEFT OPEN_RIGHT tMin1 tMax1 tMin2 tMax2 =
    (if OPEN_LEFT then (if HAS_EQUAL_MAX then tMin1 \<le> tMax2 else tMin1 < tMax2)
     else if OPEN_RIGHT then (if HAS_EQUAL_MIN then tMax1 \<ge> tMin2 else tMax1 > tMin2)
     else (if HAS_EQUAL_MIN then tMin1 \<le> tMax2 else tMin1 < tMax2) \<and>
       (if HAS_EQUAL_MAX then tMax1 \<ge> tMin2 else tMax1 > tMin2))"

definition EvalBlockRangeAll :: "bool \<Rightarrow> bool \<Rightarrow> 'a::linorder \<Rightarrow> 'a \<Rightarrow> 'a \<Rightarrow> 'a \<Rightarrow> bool" where
  "EvalBlockRangeAll HAS_EQUAL_MIN HAS_EQUAL_MAX tMin1 tMax1 tMin2 tMax2 \<longleftrightarrow>
    (if HAS_EQUAL_MIN then tMin1 \<ge> tMin2 else tMin1 > tMin2) \<and>
    (if HAS_EQUAL_MAX then tMax1 \<le> tMax2 else tMax1 < tMax2)"

section \<open>Lists of values\<close>

text \<open>The loop of \<^verbatim>\<open>EvalValues\<close> between two positions whose values differ from the one looked for.\<close>

function values_search :: "int list \<Rightarrow> int \<Rightarrow> nat \<Rightarrow> nat \<Rightarrow> bool" where
  "values_search vs uValue pA pB =
    (if pB - pA > 1 then
       let pM = pA + (pB - pA) div 2 in
       if uValue = vs ! pM then True
       else if uValue < vs ! pM then values_search vs uValue pA pM
       else values_search vs uValue pM pB
     else False)"
  by pat_completeness auto
termination
  by (relation "measure (\<lambda>(vs, v, a, b). b - a)") auto

declare values_search.simps [simp del]

definition EvalValues :: "int list \<Rightarrow> int \<Rightarrow> bool" where
  "EvalValues vs uValue =
    (if vs = [] then True
     else if uValue = vs ! 0 \<or> uValue = last vs then True
     else if uValue < vs ! 0 \<or> uValue > last vs then False
     else values_search vs uValue 0 (length vs - 1))"

text \<open>The predicate sorts a value before, into or after the block.\<close>

definition EvalBlockValues :: "int list \<Rightarrow> int \<Rightarrow> int \<Rightarrow> bool" where
  "EvalBlockValues vs uBlockMin uBlockMax \<longleftrightarrow>
    BinarySearch (\<lambda>k. let i = vs ! nat k in if i < uBlockMin then -1 else if i > uBlockMax then 1 else 0) 0 (int (length vs) - 1) (0 :: int) \<noteq> None"

section \<open>Multi-value attributes\<close>

text \<open>The search for one value from \<open>L\<close> on; it returns whether the value is there and where the next search starts.\<close>

function mva_search :: "int list \<Rightarrow> int \<Rightarrow> int \<Rightarrow> int \<Rightarrow> (int, int) sum" where
  "mva_search dMvas tFilter L R =
    (if L \<le> R then
       let pVal = L + (R - L) div 2; iValue = dMvas ! nat pVal in
       if tFilter > iValue then mva_search dMvas tFilter (pVal + 1) R
       else if tFilter < iValue then mva_search dMvas tFilter L (pVal - 1)
       else Inl pVal
     else Inr L)"
  by pat_completeness auto
termination
  by (relation "measure (\<lambda>(vs, f, L, R). nat (R + 1 - L))") auto

declare mva_search.simps [simp del]

fun mva_any_loop :: "int list \<Rightarrow> int \<Rightarrow> int list \<Rightarrow> bool" where
  "mva_any_loop dMvas L [] = False"
| "mva_any_loop dMvas L (tFilter # dFilters) =
    (case mva_search dMvas tFilter L (int (length dMvas) - 1) of Inl _ \<Rightarrow> True | Inr L \<Rightarrow> mva_any_loop dMvas L dFilters)"

definition MvaEval_Any :: "int list \<Rightarrow> int list \<Rightarrow> bool" where
  "MvaEval_Any dMvas dFilters = (if dMvas = [] \<or> dFilters = [] then False else mva_any_loop dMvas 0 dFilters)"

definition MvaEval_All :: "int list \<Rightarrow> int list \<Rightarrow> bool" where
  "MvaEval_All dMvas dFilters =
    (if dMvas = [] \<or> dFilters = [] then False
     else list_all (\<lambda>iCheck. BinarySearch (\<lambda>k. dFilters ! nat k) 0 (int (length dFilters) - 1) iCheck \<noteq> None) dMvas)"

text \<open>A null pointer stands for an attribute without values.\<close>

definition MvaEval_RangeAny :: "bool \<Rightarrow> bool \<Rightarrow> int list \<Rightarrow> int \<Rightarrow> int \<Rightarrow> bool" where
  "MvaEval_RangeAny HAS_EQUAL_MIN HAS_EQUAL_MAX pMva iMinValue iMaxValue =
    (if pMva = [] then False
     else case mva_search pMva iMinValue 0 (int (length pMva) - 1) of
       Inl pVal \<Rightarrow> HAS_EQUAL_MIN \<or> pVal + 1 < int (length pMva)
     | Inr L \<Rightarrow>
         if L = int (length pMva) then False
         else if HAS_EQUAL_MAX then pMva ! nat L \<le> iMaxValue else pMva ! nat L < iMaxValue)"

text \<open>The bounds are converted to the type of the values: \<open>bWide\<close> for \<^verbatim>\<open>int64_t\<close>, otherwise \<^verbatim>\<open>DWORD\<close>.\<close>

definition mva_cast :: "bool \<Rightarrow> int \<Rightarrow> int" where
  "mva_cast bWide v = (if bWide then v else v mod 4294967296)"

definition MvaEval_RangeAll :: "bool \<Rightarrow> bool \<Rightarrow> bool \<Rightarrow> int list \<Rightarrow> int \<Rightarrow> int \<Rightarrow> bool" where
  "MvaEval_RangeAll bWide HAS_EQUAL_MIN HAS_EQUAL_MAX pMva iMinValue iMaxValue =
    (if pMva = [] then False
     else EvalBlockRangeAll HAS_EQUAL_MIN HAS_EQUAL_MAX (pMva ! 0) (last pMva) (mva_cast bWide iMinValue) (mva_cast bWide iMaxValue))"

section \<open>The searches are exact\<close>

lemma sorted_nthD: "sorted xs \<Longrightarrow> i \<le> j \<Longrightarrow> j < length xs \<Longrightarrow> xs ! i \<le> xs ! j"
  by (simp add: sorted_nth_mono)

lemma values_search_iff:
  assumes "sorted vs" "a < b" "b < length vs" "vs ! a < v" "v < vs ! b"
  shows "values_search vs v a b \<longleftrightarrow> (\<exists>k. a < k \<and> k < b \<and> vs ! k = v)"
  using assms
proof (induction vs v a b rule: values_search.induct)
  case (1 vs v a b)
  define m where "m = a + (b - a) div 2"
  show ?case
  proof (cases "b - a > 1")
    case False
    then show ?thesis using "1.prems"(2) by (subst values_search.simps) auto
  next
    case True
    then have m: "a < m" "m < b" by (auto simp: m_def)
    have L: "b < length vs" "sorted vs" using "1.prems" by auto
    show ?thesis
    proof (cases "v = vs ! m")
      case eq: True
      then have "values_search vs v a b" using True by (subst values_search.simps) (simp add: Let_def m_def)
      then show ?thesis using m eq by blast
    next
      case ne: False
      show ?thesis
      proof (cases "v < vs ! m")
        case lt: True
        have "k < m" if "k < b" "vs ! k = v" for k
        proof (rule ccontr)
          assume "\<not> k < m"
          then have "vs ! m \<le> vs ! k" using sorted_nthD[OF L(2), of m k] that(1) L(1) by simp
          then show False using lt that(2) by simp
        qed
        moreover have "values_search vs v a b = values_search vs v a m" using True ne lt by (subst values_search.simps) (simp add: Let_def m_def)
        moreover have "values_search vs v a m \<longleftrightarrow> (\<exists>k. a < k \<and> k < m \<and> vs ! k = v)"
          using "1.IH"(1)[OF True m_def ne lt L(2) m(1) _ "1.prems"(4) lt] m(2) L(1) by simp
        ultimately show ?thesis using m(2) by (blast intro: less_trans)
      next
        case gt: False
        have "m < k" if "a < k" "vs ! k = v" for k
        proof (rule ccontr)
          assume "\<not> m < k"
          then have "vs ! k \<le> vs ! m" using sorted_nthD[OF L(2), of k m] m(2) L(1) by simp
          then show False using gt ne that(2) by simp
        qed
        moreover have "values_search vs v a b = values_search vs v m b" using True ne gt by (subst values_search.simps) (simp add: Let_def m_def)
        moreover have "values_search vs v m b \<longleftrightarrow> (\<exists>k. m < k \<and> k < b \<and> vs ! k = v)"
          using "1.IH"(2)[OF True m_def ne gt L(2) m(2) L(1) _ "1.prems"(5)] gt ne by simp
        ultimately show ?thesis using m(1) by (blast intro: less_trans)
      qed
    qed
  qed
qed

lemma EvalValues_iff:
  assumes "sorted vs"
  shows "EvalValues vs v \<longleftrightarrow> vs = [] \<or> v \<in> set vs"
proof (cases "vs = [] \<or> v = vs ! 0 \<or> v = last vs")
  case True
  then show ?thesis by (auto simp: EvalValues_def)
next
  case False
  let ?b = "length vs - 1"
  have ne: "vs \<noteq> []" and l: "last vs = vs ! ?b" using False by (simp_all add: last_conv_nth)
  have bound: "vs ! 0 \<le> x \<and> x \<le> last vs" if "x \<in> set vs" for x
    using that assms unfolding l by (auto simp: in_set_conv_nth intro!: sorted_nthD)
  show ?thesis
  proof (cases "v < vs ! 0 \<or> v > last vs")
    case True
    then show ?thesis using False bound[of v] by (auto simp: EvalValues_def)
  next
    case in_range: False
    then have s: "vs ! 0 < v" "v < vs ! ?b" using False l by auto
    then have "0 < ?b" by (metis less_irrefl less_trans neq0_conv)
    then have "values_search vs v 0 ?b \<longleftrightarrow> (\<exists>k. 0 < k \<and> k < ?b \<and> vs ! k = v)"
      using values_search_iff[OF assms _ _ s] ne by simp
    also have "\<dots> \<longleftrightarrow> v \<in> set vs"
    proof
      assume "v \<in> set vs"
      then obtain k where k: "k < length vs" "vs ! k = v" by (auto simp: in_set_conv_nth)
      then have "k \<noteq> 0" "k \<noteq> ?b" using s by (metis less_irrefl)+
      then show "\<exists>k. 0 < k \<and> k < ?b \<and> vs ! k = v" using k by (intro exI[of _ k]) auto
    next
      assume "\<exists>k. 0 < k \<and> k < ?b \<and> vs ! k = v"
      then obtain k where "k < ?b" "vs ! k = v" by blast
      then show "v \<in> set vs" using nth_mem[of k vs] by simp
    qed
    finally show ?thesis using False in_range by (simp add: EvalValues_def)
  qed
qed

lemma key_sorted_nth: "sorted vs \<Longrightarrow> key_sorted (\<lambda>k. vs ! nat k) 0 (int (length vs) - 1)"
  unfolding key_sorted_def by (auto intro!: sorted_nthD)

lemma in_set_int_nth: "x \<in> set vs \<longleftrightarrow> (\<exists>k. 0 \<le> k \<and> k \<le> int (length vs) - 1 \<and> vs ! nat k = x)"
proof
  assume "x \<in> set vs"
  then obtain k where "k < length vs" "vs ! k = x" by (auto simp: in_set_conv_nth)
  then show "\<exists>k. 0 \<le> k \<and> k \<le> int (length vs) - 1 \<and> vs ! nat k = x" by (intro exI[of _ "int k"]) auto
next
  assume "\<exists>k. 0 \<le> k \<and> k \<le> int (length vs) - 1 \<and> vs ! nat k = x"
  then obtain k where "0 \<le> k" "k \<le> int (length vs) - 1" "vs ! nat k = x" by blast
  then show "x \<in> set vs" using nth_mem[of "nat k" vs] by auto
qed

lemma BinarySearch_nth:
  assumes "sorted vs"
  shows "BinarySearch (\<lambda>k. vs ! nat k) 0 (int (length vs) - 1) r \<noteq> None \<longleftrightarrow> r \<in> set vs"
  by (simp only: BinarySearch_iff[OF key_sorted_nth[OF assms]] in_set_int_nth)

lemma EvalBlockValues_iff:
  assumes "sorted vs"
  shows "EvalBlockValues vs mn mx \<longleftrightarrow> (\<exists>v \<in> set vs. mn \<le> v \<and> v \<le> mx) \<or> EvalBlockValues vs mn mx \<and> mx < mn"
proof (cases "mx < mn")
  case False
  let ?f = "\<lambda>k. let i = vs ! nat k in if i < mn then -1 else if i > mx then 1 else 0 :: int"
  have "key_sorted ?f 0 (int (length vs) - 1)"
    unfolding key_sorted_def
  proof (intro allI impI)
    fix i j assume "0 \<le> i" "i \<le> j" "j \<le> int (length vs) - 1"
    then have "vs ! nat i \<le> vs ! nat j" using sorted_nthD[OF assms, of "nat i" "nat j"] by auto
    then show "?f i \<le> ?f j" using False by (auto simp: Let_def)
  qed
  then have "EvalBlockValues vs mn mx \<longleftrightarrow> (\<exists>i. 0 \<le> i \<and> i \<le> int (length vs) - 1 \<and> ?f i = 0)"
    unfolding EvalBlockValues_def by (rule BinarySearch_iff)
  also have "\<dots> \<longleftrightarrow> (\<exists>v \<in> set vs. mn \<le> v \<and> v \<le> mx)"
  proof
    assume "\<exists>v \<in> set vs. mn \<le> v \<and> v \<le> mx"
    then obtain k where "k < length vs" "mn \<le> vs ! k" "vs ! k \<le> mx" by (auto simp: in_set_conv_nth)
    then show "\<exists>i. 0 \<le> i \<and> i \<le> int (length vs) - 1 \<and> ?f i = 0" by (intro exI[of _ "int k"]) (auto simp: Let_def)
  next
    assume "\<exists>i. 0 \<le> i \<and> i \<le> int (length vs) - 1 \<and> ?f i = 0"
    then obtain i where "0 \<le> i" "i \<le> int (length vs) - 1" "?f i = 0" by blast
    then show "\<exists>v \<in> set vs. mn \<le> v \<and> v \<le> mx" by (intro bexI[of _ "vs ! nat i"]) (auto simp: Let_def split: if_splits)
  qed
  finally show ?thesis using False by blast
qed auto

text \<open>Where a search in an ascending array ends.\<close>

lemma mva_search_spec:
  assumes "sorted vs" "0 \<le> L" "L \<le> R + 1" "R < int (length vs)"
    "\<forall>k. 0 \<le> k \<longrightarrow> k < L \<longrightarrow> vs ! nat k < f" "\<forall>k. R < k \<longrightarrow> k < int (length vs) \<longrightarrow> f < vs ! nat k"
  shows "case mva_search vs f L R of
      Inl p \<Rightarrow> 0 \<le> p \<and> p < int (length vs) \<and> vs ! nat p = f
    | Inr p \<Rightarrow> L \<le> p \<and> p \<le> int (length vs) \<and> (\<forall>k. 0 \<le> k \<longrightarrow> k < p \<longrightarrow> vs ! nat k < f) \<and> (\<forall>k. p \<le> k \<longrightarrow> k < int (length vs) \<longrightarrow> f < vs ! nat k)"
  using assms
proof (induction vs f L R rule: mva_search.induct)
  case (1 vs f L R)
  define m where "m = L + (R - L) div 2"
  have ord: "0 \<le> i \<Longrightarrow> i \<le> j \<Longrightarrow> j < int (length vs) \<Longrightarrow> vs ! nat i \<le> vs ! nat j" for i j
    using sorted_nthD[OF "1.prems"(1), of "nat i" "nat j"] by auto
  show ?case
  proof (cases "L \<le> R")
    case False
    then have "R = L - 1" using "1.prems"(3) by simp
    then show ?thesis using "1.prems" False by (subst mva_search.simps) auto
  next
    case True
    then have m: "L \<le> m" "m \<le> R" by (auto simp: m_def)
    note step = mva_search.simps[of vs f L R, folded m_def, unfolded Let_def]
    show ?thesis
    proof (cases "f > vs ! nat m")
      case gt: True
      have "\<forall>k. 0 \<le> k \<longrightarrow> k < m + 1 \<longrightarrow> vs ! nat k < f"
        using ord[of _ m] gt m "1.prems"(4) by (auto intro: le_less_trans)
      moreover have e: "mva_search vs f L R = mva_search vs f (m + 1) R" using True gt by (simp add: step)
      ultimately show ?thesis using "1.IH"(1)[OF True m_def refl gt "1.prems"(1) _ _ "1.prems"(4) _ "1.prems"(6)] "1.prems"(2) m
        unfolding e by (cases "mva_search vs f (m + 1) R") auto
    next
      case ngt: False
      show ?thesis
      proof (cases "f < vs ! nat m")
        case lt: True
        have "\<forall>k. m - 1 < k \<longrightarrow> k < int (length vs) \<longrightarrow> f < vs ! nat k"
          using ord[of m] lt m "1.prems"(2) by (auto intro: less_le_trans)
        moreover have e: "mva_search vs f L R = mva_search vs f L (m - 1)" using True ngt lt by (simp add: step)
        ultimately show ?thesis using "1.IH"(2)[OF True m_def refl ngt lt "1.prems"(1,2) _ _ "1.prems"(5)] "1.prems"(4) m
          unfolding e by simp
      next
        case False
        then have "mva_search vs f L R = Inl m" unfolding step using ngt True by simp
        then show ?thesis using False ngt m "1.prems"(2,4) by simp
      qed
    qed
  qed
qed

lemma mva_search_from:
  assumes "sorted vs" "0 \<le> L" "L \<le> int (length vs)" "\<forall>k. 0 \<le> k \<longrightarrow> k < L \<longrightarrow> vs ! nat k < f"
  shows "case mva_search vs f L (int (length vs) - 1) of
      Inl p \<Rightarrow> 0 \<le> p \<and> p < int (length vs) \<and> vs ! nat p = f
    | Inr p \<Rightarrow> L \<le> p \<and> p \<le> int (length vs) \<and> (\<forall>k. 0 \<le> k \<longrightarrow> k < p \<longrightarrow> vs ! nat k < f) \<and> (\<forall>k. p \<le> k \<longrightarrow> k < int (length vs) \<longrightarrow> f < vs ! nat k)"
  using assms by (intro mva_search_spec) auto

lemma mva_any_loop_iff:
  assumes "sorted vs" "sorted fs" "0 \<le> L" "L \<le> int (length vs)" "\<forall>f \<in> set fs. \<forall>k. 0 \<le> k \<longrightarrow> k < L \<longrightarrow> vs ! nat k < f"
  shows "mva_any_loop vs L fs \<longleftrightarrow> (\<exists>f \<in> set fs. f \<in> set vs)"
  using assms
proof (induction fs arbitrary: L)
  case (Cons f fs)
  have s: "case mva_search vs f L (int (length vs) - 1) of
      Inl p \<Rightarrow> 0 \<le> p \<and> p < int (length vs) \<and> vs ! nat p = f
    | Inr p \<Rightarrow> L \<le> p \<and> p \<le> int (length vs) \<and> (\<forall>k. 0 \<le> k \<longrightarrow> k < p \<longrightarrow> vs ! nat k < f) \<and> (\<forall>k. p \<le> k \<longrightarrow> k < int (length vs) \<longrightarrow> f < vs ! nat k)"
    using mva_search_from[OF Cons.prems(1,3,4), of f] Cons.prems(5) by simp
  show ?case
  proof (cases "mva_search vs f L (int (length vs) - 1)")
    case (Inl p)
    then show ?thesis using s by (auto simp: in_set_int_nth)
  next
    case (Inr p)
    then have p: "L \<le> p" "p \<le> int (length vs)" "\<forall>k. 0 \<le> k \<longrightarrow> k < p \<longrightarrow> vs ! nat k < f" "\<forall>k. p \<le> k \<longrightarrow> k < int (length vs) \<longrightarrow> f < vs ! nat k"
      using s by auto
    have "f \<notin> set vs"
    proof
      assume "f \<in> set vs"
      then obtain k where "0 \<le> k" "k < int (length vs)" "vs ! nat k = f" unfolding in_set_int_nth by auto
      then show False using p(3)[rule_format, of k] p(4)[rule_format, of k] by linarith
    qed
    moreover have "\<forall>g \<in> set fs. \<forall>k. 0 \<le> k \<longrightarrow> k < p \<longrightarrow> vs ! nat k < g" using p(3) Cons.prems(2) by fastforce
    ultimately show ?thesis using Cons.IH[of p] Cons.prems(1-3) p(1,2) Inr by simp
  qed
qed simp

lemma MvaEval_Any_iff: "sorted vs \<Longrightarrow> sorted fs \<Longrightarrow> MvaEval_Any vs fs \<longleftrightarrow> (\<exists>f \<in> set fs. f \<in> set vs)"
  using mva_any_loop_iff[of vs fs 0] by (auto simp: MvaEval_Any_def)

lemma MvaEval_All_iff: "sorted fs \<Longrightarrow> MvaEval_All vs fs \<longleftrightarrow> vs \<noteq> [] \<and> fs \<noteq> [] \<and> set vs \<subseteq> set fs"
  by (auto simp: MvaEval_All_def list_all_iff BinarySearch_nth[simplified])

text \<open>What the range test really computes: when the lower end of the range is a value, the upper end is not looked at.\<close>

lemma MvaEval_RangeAny_iff:
  assumes "sorted_wrt (<) vs"
  shows "MvaEval_RangeAny eqmin eqmax vs mn mx \<longleftrightarrow>
    (if mn \<in> set vs then eqmin \<or> (\<exists>x \<in> set vs. mn < x) else \<exists>x \<in> set vs. mn < x \<and> (if eqmax then x \<le> mx else x < mx))"
proof (cases "vs = []")
  case True
  then show ?thesis by (simp add: MvaEval_RangeAny_def)
next
  case False
  have srt: "sorted vs" "\<And>i j. i < j \<Longrightarrow> j < length vs \<Longrightarrow> vs ! i < vs ! j"
    using assms by (simp add: strict_sorted_iff) (rule sorted_wrt_nth_less[OF assms])
  note spec = mva_search_from[OF srt(1), of 0 mn]
  show ?thesis
  proof (cases "mva_search vs mn 0 (int (length vs) - 1)")
    case (Inl p)
    then have p: "0 \<le> p" "p < int (length vs)" "vs ! nat p = mn" using spec by auto
    have "(\<exists>x \<in> set vs. mn < x) \<longleftrightarrow> p + 1 < int (length vs)"
    proof
      assume "\<exists>x \<in> set vs. mn < x"
      then obtain j where j: "j < length vs" "mn < vs ! j" by (auto simp: in_set_conv_nth)
      have "\<not> j \<le> nat p"
      proof
        assume "j \<le> nat p"
        then have "vs ! j \<le> vs ! nat p" using p(1,2) by (intro sorted_nthD[OF srt(1)]) auto
        then show False using j(2) p(3) by simp
      qed
      then show "p + 1 < int (length vs)" using j(1) p(1) by linarith
    next
      assume "p + 1 < int (length vs)"
      then have "nat p + 1 < length vs" using p(1) by linarith
      then show "\<exists>x \<in> set vs. mn < x" using srt(2)[of "nat p" "nat p + 1"] p(3) by (intro bexI[of _ "vs ! (nat p + 1)"]) auto
    qed
    moreover have "mn \<in> set vs" using p nth_mem[of "nat p" vs] by auto
    ultimately show ?thesis using Inl False by (simp add: MvaEval_RangeAny_def)
  next
    case (Inr p)
    then have p: "0 \<le> p" "p \<le> int (length vs)" "\<And>k. 0 \<le> k \<Longrightarrow> k < p \<Longrightarrow> vs ! nat k < mn" "\<And>k. p \<le> k \<Longrightarrow> k < int (length vs) \<Longrightarrow> mn < vs ! nat k"
      using spec by auto
    have low: "vs ! j < mn" if "j < nat p" for j using p(3)[of "int j"] that by simp
    have high: "mn < vs ! j" if "nat p \<le> j" "j < length vs" for j using p(4)[of "int j"] that by simp
    have nin: "mn \<notin> set vs"
    proof
      assume "mn \<in> set vs"
      then obtain j where "j < length vs" "vs ! j = mn" by (auto simp: in_set_conv_nth)
      then show False using low[of j] high[of j] by (cases "j < nat p") auto
    qed
    have "(\<exists>x \<in> set vs. mn < x \<and> (if eqmax then x \<le> mx else x < mx)) \<longleftrightarrow> p < int (length vs) \<and> (if eqmax then vs ! nat p \<le> mx else vs ! nat p < mx)"
    proof
      assume "\<exists>x \<in> set vs. mn < x \<and> (if eqmax then x \<le> mx else x < mx)"
      then obtain j where j: "j < length vs" "mn < vs ! j" "if eqmax then vs ! j \<le> mx else vs ! j < mx" by (auto simp: in_set_conv_nth)
      then have le: "nat p \<le> j" using low[of j] by (cases "j < nat p") auto
      then have "vs ! nat p \<le> vs ! j" using j(1) by (intro sorted_nthD[OF srt(1)])
      then show "p < int (length vs) \<and> (if eqmax then vs ! nat p \<le> mx else vs ! nat p < mx)" using j le p(1) by (auto split: if_splits)
    next
      assume "p < int (length vs) \<and> (if eqmax then vs ! nat p \<le> mx else vs ! nat p < mx)"
      then show "\<exists>x \<in> set vs. mn < x \<and> (if eqmax then x \<le> mx else x < mx)" using p(1) high[of "nat p"]
        by (intro bexI[of _ "vs ! nat p"]) auto
    qed
    then show ?thesis using Inr False nin p(2) by (auto simp: MvaEval_RangeAny_def)
  qed
qed

lemma MvaEval_RangeAll_iff:
  assumes "sorted vs"
  shows "MvaEval_RangeAll bWide eqmin eqmax vs mn mx \<longleftrightarrow>
    vs \<noteq> [] \<and> (\<forall>x \<in> set vs. EvalRange eqmin eqmax False False x (mva_cast bWide mn) (mva_cast bWide mx))"
proof (cases "vs = []")
  case False
  have m: "vs ! 0 \<in> set vs" "last vs \<in> set vs" using False by simp_all
  have b: "vs ! 0 \<le> x \<and> x \<le> last vs" if "x \<in> set vs" for x
    using that False assms unfolding last_conv_nth[OF False] by (auto simp: in_set_conv_nth intro!: sorted_nthD)
  show ?thesis using False m b unfolding MvaEval_RangeAll_def EvalBlockRangeAll_def EvalRange_def
    by (auto simp: split: if_splits intro: order_trans less_le_trans le_less_trans dest: b)
qed (simp add: MvaEval_RangeAll_def)

text \<open>C33: what the tests of list and range filters decide, for a value list that ascends and an attribute whose values ascend
  strictly. A value list accepts exactly its members, and an empty one accepts everything. A multi-value attribute passes
  \<^verbatim>\<open>ANY\<close> of a list when they share a value, and \<^verbatim>\<open>ALL\<close> when it is not empty and all its values are listed. It passes
  \<^verbatim>\<open>ANY\<close> of a range, when the lower end of the range is not one of its values, if one of its values lies in the range; when the
  lower end is one of its values, if the range holds its lower end or a greater value follows, whatever the upper end. It
  passes \<^verbatim>\<open>ALL\<close> of a range when it is not empty and all its values lie in the range whose ends were converted to
  the type of the values, for 32-bit values modulo \<open>2^32\<close>.\<close>

theorem filter_tests_exact:
  assumes "sorted_wrt (<) mva" "sorted vs"
  shows "(EvalValues vs v \<longleftrightarrow> vs = [] \<or> v \<in> set vs) \<and>
    (MvaEval_Any mva vs \<longleftrightarrow> set mva \<inter> set vs \<noteq> {}) \<and> (MvaEval_All mva vs \<longleftrightarrow> mva \<noteq> [] \<and> set mva \<subseteq> set vs) \<and>
    (MvaEval_RangeAny eqmin eqmax mva mn mx \<longleftrightarrow>
      (if mn \<in> set mva then eqmin \<or> (\<exists>x \<in> set mva. mn < x) else \<exists>x \<in> set mva. EvalRange eqmin eqmax False False x mn mx)) \<and>
    (MvaEval_RangeAll bWide eqmin eqmax mva mn mx \<longleftrightarrow>
      mva \<noteq> [] \<and> (\<forall>x \<in> set mva. EvalRange eqmin eqmax False False x (mva_cast bWide mn) (mva_cast bWide mx)))"
proof (intro conjI)
  have s: "sorted mva" using assms(1) by (simp add: strict_sorted_iff)
  show "EvalValues vs v \<longleftrightarrow> vs = [] \<or> v \<in> set vs" by (rule EvalValues_iff[OF assms(2)])
  show "MvaEval_Any mva vs \<longleftrightarrow> set mva \<inter> set vs \<noteq> {}" using MvaEval_Any_iff[OF s assms(2)] by auto
  show "MvaEval_All mva vs \<longleftrightarrow> mva \<noteq> [] \<and> set mva \<subseteq> set vs" using MvaEval_All_iff[OF assms(2)] by auto
  have e: "EvalRange eqmin eqmax False False x mn mx \<longleftrightarrow> mn < x \<and> (if eqmax then x \<le> mx else x < mx)" if "x \<noteq> mn" for x
    using that by (auto simp: EvalRange_def)
  have r: "(\<exists>x \<in> set mva. EvalRange eqmin eqmax False False x mn mx) \<longleftrightarrow> (\<exists>x \<in> set mva. mn < x \<and> (if eqmax then x \<le> mx else x < mx))"
    if "mn \<notin> set mva" using that by (intro bex_cong[OF refl] e) blast
  show "MvaEval_RangeAny eqmin eqmax mva mn mx \<longleftrightarrow>
      (if mn \<in> set mva then eqmin \<or> (\<exists>x \<in> set mva. mn < x) else \<exists>x \<in> set mva. EvalRange eqmin eqmax False False x mn mx)"
    unfolding MvaEval_RangeAny_iff[OF assms(1)] using r by (cases "mn \<in> set mva") (simp_all only: if_True if_False simp_thms)
  show "MvaEval_RangeAll bWide eqmin eqmax mva mn mx \<longleftrightarrow>
      mva \<noteq> [] \<and> (\<forall>x \<in> set mva. EvalRange eqmin eqmax False False x (mva_cast bWide mn) (mva_cast bWide mx))"
    by (rule MvaEval_RangeAll_iff[OF s])
qed

theorem filter_tests_exact_witness:
  "EvalValues [2, 5, 9] 5 \<and> MvaEval_Any [1, 5, 7] [2, 5, 9] \<and> \<not> MvaEval_All [1, 5, 7] [2, 5, 9] \<and>
    MvaEval_RangeAny True False [1, 5, 7] 4 6 \<and> \<not> MvaEval_RangeAny True False [1, 5, 7] 2 5 \<and> \<not> MvaEval_RangeAll True True False [1, 5, 7] 5 6"
  using filter_tests_exact[of "[1, 5, 7]" "[2, 5, 9]" 5 True False 4 6 True] filter_tests_exact[of "[1, 5, 7]" "[2, 5, 9]" 5 True False 2 5 True]
    filter_tests_exact[of "[1, 5, 7]" "[2, 5, 9]" 5 True False 5 6 True]
  by (simp add: EvalRange_def mva_cast_def)

text \<open>C34: a range without its lower end is tested wrongly when the lower end is a value of the attribute: the values 5 and 100
  pass \<^verbatim>\<open>ANY\<close> of the range between 5 and 10, both excluded, although neither lies in it. In general the upper
  end of the range is then not looked at.\<close>

theorem mva_range_any_accepts_outside:
  "MvaEval_RangeAny False False [5, 100] 5 10 \<and> \<not> (\<exists>x \<in> set [5, 100 :: int]. EvalRange False False False False x 5 10) \<and>
    (sorted_wrt (<) mva \<longrightarrow> mn \<in> set mva \<longrightarrow> mn \<noteq> last mva \<longrightarrow> MvaEval_RangeAny eqmin eqmax mva mn mx)"
proof (intro conjI impI)
  show "MvaEval_RangeAny False False [5, 100] 5 10" by code_simp
  show "\<not> (\<exists>x \<in> set [5, 100 :: int]. EvalRange False False False False x 5 10)" by (simp add: EvalRange_def)
  assume a: "sorted_wrt (<) mva" "mn \<in> set mva" "mn \<noteq> last mva"
  then have "mva = butlast mva @ [last mva]" by (metis append_butlast_last_id empty_iff empty_set)
  then have "mn < last mva" using a by (metis Un_iff insertE set_append sorted_wrt_append list.set(2) empty_iff empty_set list.set_intros(1))
  then show "MvaEval_RangeAny eqmin eqmax mva mn mx" using a(2) last_in_set[of mva] unfolding MvaEval_RangeAny_iff[OF a(1)] by (cases mva) auto
qed

theorem mva_range_any_accepts_outside_witness:
  "MvaEval_RangeAny True True [2, 8] 2 1"
  using mva_range_any_accepts_outside[of "[2, 8]" 2 True True 1] by simp

text \<open>C35: skipping blocks of rows by their least and greatest value. A block that holds a value of an ascending value list is not
  skipped, and a block that holds a value of a range is not skipped when the range is open at one end or holds both or neither
  of its ends. When it holds only its lower end, a block whose greatest value is that end is skipped although the
  end lies in the range, and when it holds only its upper end, a block whose least value is that end: the two flags are
  exchanged in the test.\<close>

theorem block_tests_skip:
  "(sorted vs \<longrightarrow> x \<in> set vs \<longrightarrow> bmin \<le> x \<longrightarrow> x \<le> bmax \<longrightarrow> EvalBlockValues vs bmin bmax) \<and>
   (eqmin = eqmax \<or> left \<or> right \<longrightarrow> bmin \<le> x \<longrightarrow> x \<le> bmax \<longrightarrow> EvalRange eqmin eqmax left right x mn mx \<longrightarrow>
     EvalBlockRangeAny eqmin eqmax left right bmin bmax mn mx) \<and>
   (mn < mx \<longrightarrow> EvalRange True False False False mn mn mx \<and> \<not> EvalBlockRangeAny True False False False bmin mn mn mx) \<and>
   (mn < mx \<longrightarrow> EvalRange False True False False mx mn mx \<and> \<not> EvalBlockRangeAny False True False False mx bmax mn mx)"
proof (intro conjI impI)
  assume "sorted vs" "x \<in> set vs" "bmin \<le> x" "x \<le> bmax"
  then show "EvalBlockValues vs bmin bmax" using EvalBlockValues_iff[of vs bmin bmax] by blast
next
  assume f: "eqmin = eqmax \<or> left \<or> right" and b: "bmin \<le> x" "x \<le> bmax" and r: "EvalRange eqmin eqmax left right x mn mx"
  show "EvalBlockRangeAny eqmin eqmax left right bmin bmax mn mx"
    using f b r by (cases eqmin; cases eqmax; cases left; cases right) (auto simp: EvalRange_def EvalBlockRangeAny_def)
qed (simp_all add: EvalRange_def EvalBlockRangeAny_def)

theorem block_tests_skip_witness:
  "EvalBlockValues [2, 5, 9] 4 6 \<and> EvalBlockRangeAny True True False False 1 5 5 (10 :: int) \<and> \<not> EvalBlockRangeAny True False False False 1 5 5 (10 :: int)"
  using block_tests_skip[of "[2, 5, 9]" 5 4 6 True True False False 5 10] block_tests_skip[of "[2, 5, 9]" 5 1 5 True True False False 5 10]
  by (simp add: EvalRange_def)

end
