(* ===== verification/Sph_Sort.thy ===== *)
theory Sph_Sort
  imports Heap_Order "HOL-Library.Monad_Syntax"
begin

text \<open>
  The sort of \<^verbatim>\<open>src/src/std/sort_impl.h\<close>: a quicksort with its own stack of 32 parts, insertion sort for small parts and
  heap sort as a last resort, with the number of rounds from \<^verbatim>\<open>src/src/std/log2_impl.h\<close>; and the removal of
  repetitions of \<^verbatim>\<open>src/src/std/uniq_impl.h\<close> and \<^verbatim>\<open>src/src/std/vector_impl.h\<close>. An array is a list, a pointer into it a
  position; \<open>None\<close> is a write past the stack. The main loop may not end for an inconsistent
  comparison; shown is that for every strict weak order it ends, within the stack, and sorts.
\<close>

section \<open>Binary logarithm\<close>

text \<open>The loop that compilers without a bit scan use, and the compiler's count of leading zeros.\<close>

function Log2constUINT :: "nat \<Rightarrow> int \<Rightarrow> int" where
  "Log2constUINT uValue iBits = (if uValue div 2 \<noteq> 0 then Log2constUINT (uValue div 2) (iBits + 1) else iBits + 1)"
  by pat_completeness auto
termination
  by (relation "measure (\<lambda>(u, i). u)") auto

declare Log2constUINT.simps [simp del]

definition builtin_clz :: "'a::len word \<Rightarrow> int" where
  "builtin_clz u = int (length (takeWhile (\<lambda>n. \<not> bit u n) (rev [0..<LENGTH('a)])))"

definition sphLog2const :: "'a::len word \<Rightarrow> int" where
  "sphLog2const uValue = int LENGTH('a) - builtin_clz (uValue OR 1)"

definition sphLog2 :: "qword \<Rightarrow> int" where
  "sphLog2 uValue = sphLog2const uValue"

section \<open>Heap sort\<close>

function SiftDown :: "('a \<Rightarrow> 'a \<Rightarrow> bool) \<Rightarrow> 'a list \<Rightarrow> nat \<Rightarrow> nat \<Rightarrow> 'a list" where
  "SiftDown IsLess pData iStart iEnd =
    (let iChild = iStart * 2 + 1 in
     if iChild > iEnd then pData
     else
       let iChild1 = iChild + 1;
         iChild = (if iChild1 \<le> iEnd \<and> IsLess (pData ! iChild) (pData ! iChild1) then iChild1 else iChild) in
       if IsLess (pData ! iChild) (pData ! iStart) then pData
       else SiftDown IsLess (swap pData iChild iStart) iChild iEnd)"
  by pat_completeness auto
termination
  by (relation "measure (\<lambda>(c, d, s, e). e + 1 - s)") (auto simp: Let_def)

declare SiftDown.simps [simp del]

fun heap_build :: "('a \<Rightarrow> 'a \<Rightarrow> bool) \<Rightarrow> 'a list \<Rightarrow> nat \<Rightarrow> nat \<Rightarrow> 'a list" where
  "heap_build IsLess pData iEnd 0 = SiftDown IsLess pData 0 iEnd"
| "heap_build IsLess pData iEnd (Suc iStart) = heap_build IsLess (SiftDown IsLess pData (Suc iStart) iEnd) iEnd iStart"

fun heap_drain :: "('a \<Rightarrow> 'a \<Rightarrow> bool) \<Rightarrow> 'a list \<Rightarrow> nat \<Rightarrow> 'a list" where
  "heap_drain IsLess pData 0 = pData"
| "heap_drain IsLess pData (Suc iEnd) = heap_drain IsLess (SiftDown IsLess (swap pData 0 (Suc iEnd)) 0 iEnd) iEnd"

definition HeapSort :: "('a \<Rightarrow> 'a \<Rightarrow> bool) \<Rightarrow> 'a list \<Rightarrow> 'a list" where
  "HeapSort IsLess pData =
    (let iCount = length pData in
     if iCount \<le> 1 then pData
     else heap_drain IsLess (heap_build IsLess pData (iCount - 1) ((iCount - 2) div 2)) (iCount - 1))"

section \<open>Insertion sort\<close>

function insert_back :: "('a \<Rightarrow> 'a \<Rightarrow> bool) \<Rightarrow> 'a list \<Rightarrow> nat \<Rightarrow> nat \<Rightarrow> 'a list" where
  "insert_back IsLess pData a j =
    (if j > a then
       if IsLess (pData ! (j - 1)) (pData ! j) then pData
       else insert_back IsLess (swap pData j (j - 1)) a (j - 1)
     else pData)"
  by pat_completeness auto
termination
  by (relation "measure (\<lambda>(c, d, a, j). j)") auto

declare insert_back.simps [simp del]

function insertion_sort :: "('a \<Rightarrow> 'a \<Rightarrow> bool) \<Rightarrow> 'a list \<Rightarrow> nat \<Rightarrow> nat \<Rightarrow> nat \<Rightarrow> 'a list" where
  "insertion_sort IsLess pData a i b =
    (if i \<le> b then insertion_sort IsLess (insert_back IsLess pData a i) a (i + 1) b else pData)"
  by pat_completeness auto
termination
  by (relation "measure (\<lambda>(c, d, a, i, b). b + 1 - i)") auto

declare insertion_sort.simps [simp del]

section \<open>Partition\<close>

function scan_up :: "('a \<Rightarrow> 'a \<Rightarrow> bool) \<Rightarrow> 'a list \<Rightarrow> 'a \<Rightarrow> int \<Rightarrow> int \<Rightarrow> int" where
  "scan_up IsLess pData x b i = (if i \<le> b \<and> IsLess (pData ! nat i) x then scan_up IsLess pData x b (i + 1) else i)"
  by pat_completeness auto
termination
  by (relation "measure (\<lambda>(c, d, x, b, i). nat (b + 1 - i))") auto

function scan_down :: "('a \<Rightarrow> 'a \<Rightarrow> bool) \<Rightarrow> 'a list \<Rightarrow> 'a \<Rightarrow> int \<Rightarrow> int \<Rightarrow> int" where
  "scan_down IsLess pData x a j = (if j \<ge> a \<and> IsLess x (pData ! nat j) then scan_down IsLess pData x a (j - 1) else j)"
  by pat_completeness auto
termination
  by (relation "measure (\<lambda>(c, d, x, a, j). nat (j + 1 - a))") auto

declare scan_up.simps [simp del] scan_down.simps [simp del]

lemma scan_up_ge: "i \<le> scan_up lt d x b i"
  by (induction lt d x b i rule: scan_up.induct) (subst scan_up.simps, auto)

lemma scan_down_le: "scan_down lt d x a j \<le> j"
  by (induction lt d x a j rule: scan_down.induct) (subst scan_down.simps, auto)

function partition_loop :: "('a \<Rightarrow> 'a \<Rightarrow> bool) \<Rightarrow> 'a \<Rightarrow> int \<Rightarrow> int \<Rightarrow> 'a list \<Rightarrow> int \<Rightarrow> int \<Rightarrow> 'a list \<times> int \<times> int" where
  "partition_loop IsLess x a b pData i j =
    (if i \<le> j then
       let i = scan_up IsLess pData x b i; j = scan_down IsLess pData x a j in
       if i \<le> j then partition_loop IsLess x a b (swap pData (nat i) (nat j)) (i + 1) (j - 1)
       else partition_loop IsLess x a b pData i j
     else (pData, i, j))"
  by pat_completeness auto
termination
proof (relation "measure (\<lambda>(c, x, a, b, d, i, j). nat (j + 1 - i))", goal_cases)
  case (2 c x a b d i j i' j')
  then show ?case using scan_up_ge[of i c d x b] scan_down_le[of c d x a j] by auto
next
  case (3 c x a b d i j i' j')
  then show ?case by auto
qed simp

declare partition_loop.simps [simp del]

lemma partition_loop_cross: "partition_loop lt x a b d i j = (d', i', j') \<Longrightarrow> j' < i'"
proof (induction lt x a b d i j rule: partition_loop.induct)
  case (1 lt x a b d i j)
  show ?case
    using 1(3) 1(1,2)[OF _ refl refl] unfolding partition_loop.simps[of lt x a b d i j]
    by (auto simp: Let_def split: if_splits)
qed

text \<open>The parts that are left to sort go on the stack, the larger one first.\<close>

function split_loop ::
  "('a \<Rightarrow> 'a \<Rightarrow> bool) \<Rightarrow> 'a \<Rightarrow> 'a list \<Rightarrow> int \<Rightarrow> int \<Rightarrow> int \<Rightarrow> int \<Rightarrow> (int \<times> int) list \<Rightarrow> ('a list \<times> (int \<times> int) list) option" where
  "split_loop IsLess x pData a b i j st =
    (if a < b then
       case partition_loop IsLess x a b pData i j of (pData, i, j) \<Rightarrow>
       if j - a \<ge> b - i then
         if a < j then (if length st \<ge> 32 then None else split_loop IsLess x pData i b i j ((a, j) # st))
         else split_loop IsLess x pData i b i j st
       else
         if i < b then (if length st \<ge> 32 then None else split_loop IsLess x pData a j i j ((i, b) # st))
         else split_loop IsLess x pData a j i j st
     else Some (pData, st))"
  by pat_completeness auto
termination
proof (relation "measure (\<lambda>(c, x, d, a, b, i, j, st). nat (b - a))", goal_cases)
  case 1
  show ?case by simp
qed (auto dest!: sym[of "(_, _, _)"] partition_loop_cross)

declare split_loop.simps [simp del]

section \<open>The sort\<close>

partial_function (option) sort_loop :: "('a \<Rightarrow> 'a \<Rightarrow> bool) \<Rightarrow> 'a list \<Rightarrow> (int \<times> int) list \<Rightarrow> int \<Rightarrow> 'a list option" where
  "sort_loop IsLess pData st iDepthLimit =
    (case st of
       [] \<Rightarrow> Some pData
     | (a, b) # st \<Rightarrow>
         let iDepthLimit = (if st = [] then iDepthLimit - 1 else iDepthLimit) in
         if st = [] \<and> iDepthLimit = 0 then
           Some (take (nat a) pData @ HeapSort IsLess (take (nat (b - a + 1)) (drop (nat a) pData)) @ drop (nat (b + 1)) pData)
         else if b - a \<le> 32 then
           sort_loop IsLess (insertion_sort IsLess pData (nat a) (nat a + 1) (nat b)) st iDepthLimit
         else do {
           (pData, st) \<leftarrow> split_loop IsLess (pData ! nat (a + (b - a) div 2)) pData a b a b st;
           sort_loop IsLess pData st iDepthLimit
         })"

definition Sort :: "('a \<Rightarrow> 'a \<Rightarrow> bool) \<Rightarrow> 'a list \<Rightarrow> 'a list option" where
  "Sort IsLess pData =
    (let iCount = length pData in
     if iCount < 2 then Some pData
     else sort_loop IsLess pData [(0, int iCount - 1)] ((5 * sphLog2 (of_nat iCount)) div 2))"

section \<open>Removal of repetitions\<close>

function uniq_loop :: "'a list \<Rightarrow> nat \<Rightarrow> nat \<Rightarrow> 'a list \<times> nat" where
  "uniq_loop pData iSrc iDst =
    (if iSrc < length pData then
       if pData ! (iDst - 1) = pData ! iSrc then uniq_loop pData (iSrc + 1) iDst
       else uniq_loop (pData[iDst := pData ! iSrc]) (iSrc + 1) (iDst + 1)
     else (pData, iDst))"
  by pat_completeness auto
termination
  by (relation "measure (\<lambda>(d, s, t). length d - s)") auto

declare uniq_loop.simps [simp del]

definition sphUniq :: "'a list \<Rightarrow> 'a list \<times> nat" where
  "sphUniq pData = (if pData = [] then (pData, 0) else uniq_loop pData 1 1)"

definition Vector_Uniq :: "bool \<Rightarrow> 'a::linorder list \<Rightarrow> 'a list option" where
  "Vector_Uniq bSort pData =
    (if pData = [] then Some pData
     else do {
       pData \<leftarrow> (if bSort then Sort (<) pData else Some pData);
       let (pData, iLeft) = sphUniq pData;
       Some (take iLeft pData)
     })"

section \<open>Rearrangements of a part of an array\<close>

definition perm_in :: "nat \<Rightarrow> nat \<Rightarrow> 'a list \<Rightarrow> 'a list \<Rightarrow> bool" where
  "perm_in a b d d' \<longleftrightarrow> length d' = length d \<and> mset d' = mset d \<and>
    (\<forall>k < length d. k < a \<or> b < k \<longrightarrow> d' ! k = d ! k) \<and>
    (\<forall>q. a \<le> q \<longrightarrow> q \<le> b \<longrightarrow> (\<exists>q'. a \<le> q' \<and> q' \<le> b \<and> d' ! q = d ! q'))"

lemma perm_in_refl [simp]: "perm_in a b d d"
  by (auto simp: perm_in_def)

lemma perm_in_length: "perm_in a b d d' \<Longrightarrow> length d' = length d"
  by (simp add: perm_in_def)

lemma perm_in_trans: "perm_in a b d d' \<Longrightarrow> perm_in a b d' d'' \<Longrightarrow> perm_in a b d d''"
  unfolding perm_in_def by metis

lemma perm_in_mono: 
  assumes "perm_in a b d d'" "a' \<le> a" "b \<le> b'" "b' < length d"
  shows "perm_in a' b' d d'"
proof -
  have "\<exists>q'. a' \<le> q' \<and> q' \<le> b' \<and> d' ! q = d ! q'" if q: "a' \<le> q" "q \<le> b'" for q
  proof (cases "a \<le> q \<and> q \<le> b")
    case True
    then obtain q' where "a \<le> q'" "q' \<le> b" "d' ! q = d ! q'" using assms(1) by (auto simp: perm_in_def)
    then show ?thesis using assms(2,3) by (meson order_trans)
  next
    case False
    then have "d' ! q = d ! q" using assms(1,4) q by (auto simp: perm_in_def)
    then show ?thesis using q by blast
  qed
  then show ?thesis using assms by (auto simp: perm_in_def)
qed

lemma perm_in_swap:
  assumes "a \<le> i" "i \<le> b" "a \<le> j" "j \<le> b" "b < length d"
  shows "perm_in a b d (swap d i j)"
proof -
  have ij: "i < length d" "j < length d" using assms by auto
  then show ?thesis using assms unfolding perm_in_def by (auto simp: nth_swap mset_swap_self)
qed

lemma perm_in_segment:
  assumes "a \<le> b" "b < length d" "mset xs = mset (take (b + 1 - a) (drop a d))"
  shows "perm_in a b d (take a d @ xs @ drop (b + 1) d)" (is "perm_in a b d ?d")
proof -
  have len: "length xs = b + 1 - a" using arg_cong[OF assms(3), of size] assms(1,2) by simp
  have "d = take a d @ take (b + 1 - a) (drop a d) @ drop (b + 1 - a) (drop a d)" by (metis append_take_drop_id)
  then have "mset d = mset (take a d) + mset xs + mset (drop (b + 1 - a) (drop a d))" using assms(3) by (metis mset_append union_assoc)
  then have m: "mset ?d = mset d" using assms(1) by simp
  have "\<exists>q'. a \<le> q' \<and> q' \<le> b \<and> ?d ! q = d ! q'" if q: "a \<le> q" "q \<le> b" for q
  proof -
    have "?d ! q = xs ! (q - a)" "xs ! (q - a) \<in> set xs" using q len assms(1,2) by (auto simp: nth_append)
    moreover have "set xs = set (take (b + 1 - a) (drop a d))" using assms(3) mset_eq_setD by blast
    ultimately obtain k where "k < b + 1 - a" "?d ! q = take (b + 1 - a) (drop a d) ! k"
      using assms(1,2) by (auto simp: in_set_conv_nth)
    then show ?thesis using assms(1,2) by (intro exI[of _ "a + k"]) auto
  qed
  moreover have "?d ! k = d ! k" if "k < length d" "k < a \<or> b < k" for k
    using that assms(1,2) len by (auto simp: nth_append)
  moreover have "length ?d = length d" using len assms(1,2) by simp
  ultimately show ?thesis using m unfolding perm_in_def by blast
qed

section \<open>Heap sort sorts\<close>

text \<open>No element is less than one before it.\<close>

definition ascending :: "('a \<Rightarrow> 'a \<Rightarrow> bool) \<Rightarrow> 'a list \<Rightarrow> bool" where
  "ascending lt d \<longleftrightarrow> (\<forall>p q. p < q \<longrightarrow> q < length d \<longrightarrow> \<not> lt (d ! q) (d ! p))"

context strict_weak
begin

lemma SiftDown_heap:
  assumes "heap_down_from (\<lambda>x y. lt y x) d s (Suc e) i" "e < length d" "s \<le> i"
  shows "heap_from (\<lambda>x y. lt y x) (SiftDown lt d i e) s (Suc e) \<and> perm_in 0 e d (SiftDown lt d i e)"
  using assms
proof (induction "e + 1 - i" arbitrary: d i rule: less_induct)
  case less
  note step = SiftDown.simps[of lt d i e]
  show ?case
  proof (cases "i * 2 + 1 > e")
    case True
    then have "heap_from (\<lambda>x y. lt y x) d s (Suc e)"
      by (intro strict_weak.heap_down_from_done[OF flip less.prems(1)]) (auto simp: parent_eq_iff)
    then show ?thesis using step True by simp
  next
    case False
    define c where "c = (if i * 2 + 1 + 1 \<le> e \<and> lt (d ! (i * 2 + 1)) (d ! (i * 2 + 1 + 1)) then i * 2 + 1 + 1 else i * 2 + 1)"
    have step: "SiftDown lt d i e = (if lt (d ! c) (d ! i) then d else SiftDown lt (swap d c i) c e)"
      unfolding step Let_def c_def[symmetric] using False by simp
    have c: "0 < c" "c \<le> e" "parent c = i" "i < c" using False by (auto simp: c_def parent_def)
    have top: "\<not> lt (d ! c) (d ! c')" if "0 < c'" "c' < Suc e" "parent c' = i" for c'
    proof -
      have "c' = i * 2 + 1 \<or> c' = i * 2 + 2" using that(1,3) parent_eq_iff[of c' i] by auto
      then show ?thesis using that(2) asym irrefl by (auto simp: c_def)
    qed
    show ?thesis
    proof (cases "lt (d ! c) (d ! i)")
      case True
      have "\<not> lt (d ! i) (d ! c')" if "0 < c'" "c' < Suc e" "parent c' = i" for c'
        using top[OF that] asym[OF True] neg_trans by blast
      then have "heap_from (\<lambda>x y. lt y x) d s (Suc e)"
        by (intro strict_weak.heap_down_from_done[OF flip less.prems(1)])
      moreover have "SiftDown lt d i e = d" using step True by simp
      ultimately show ?thesis by simp
    next
      case F2: False
      have eq: "SiftDown lt d i e = SiftDown lt (swap d c i) c e" using step F2 by simp
      have "swap d c i = swap d i c" using c less.prems(2) by (auto simp: list_eq_iff_nth_eq nth_swap)
      then have "heap_down_from (\<lambda>x y. lt y x) (swap d c i) s (Suc e) c"
        using strict_weak.heap_down_from_step[OF flip less.prems(1,3) c(1) _ _ c(3)] c(2) top F2 less.prems(2) by simp
      moreover have "perm_in 0 e d (swap d c i)" using c less.prems(2) by (intro perm_in_swap) auto
      ultimately show ?thesis
        using less.hyps[of c "swap d c i"] c less.prems(2,3) unfolding eq by (auto intro: perm_in_trans)
    qed
  qed
qed

lemma heap_build_heap:
  assumes "heap_from (\<lambda>x y. lt y x) d (Suc s) (Suc e)" "e < length d"
  shows "heap (\<lambda>x y. lt y x) (heap_build lt d e s) (Suc e) \<and> perm_in 0 e d (heap_build lt d e s)"
  using assms
proof (induction s arbitrary: d)
  case 0
  have "heap_down_from (\<lambda>x y. lt y x) d 0 (Suc e) 0" using 0(1) by (auto simp: heap_down_from_def heap_from_def)
  then show ?case using SiftDown_heap[of d 0 e 0] 0(2) by (simp add: heap_from_0)
next
  case (Suc s)
  have "heap_down_from (\<lambda>x y. lt y x) d (Suc s) (Suc e) (Suc s)" 
    using Suc(2) by (auto simp: heap_down_from_def heap_from_def parent_def)
  then have "heap_from (\<lambda>x y. lt y x) (SiftDown lt d (Suc s) e) (Suc s) (Suc e)" "perm_in 0 e d (SiftDown lt d (Suc s) e)"
    using SiftDown_heap[of d "Suc s" e "Suc s"] Suc(3) by simp_all
  then show ?case using Suc(1)[of "SiftDown lt d (Suc s) e"] Suc(3) by (auto simp: perm_in_length intro: perm_in_trans)
qed

lemma heap_drain_sorts:
  assumes "heap (\<lambda>x y. lt y x) d (Suc e)" "e < length d"
    and "\<And>p q. p < q \<Longrightarrow> q < length d \<Longrightarrow> e < q \<Longrightarrow> \<not> lt (d ! q) (d ! p)"
  shows "ascending lt (heap_drain lt d e) \<and> mset (heap_drain lt d e) = mset d"
  using assms
proof (induction e arbitrary: d)
  case 0
  then show ?case by (simp add: ascending_def)
next
  case (Suc e)
  let ?s = "swap d 0 (Suc e)" and ?d = "SiftDown lt (swap d 0 (Suc e)) 0 e"
  have nth: "?s ! k = (if k = Suc e then d ! 0 else if k = 0 then d ! Suc e else d ! k)" for k
    using Suc.prems(2) by (subst nth_swap) auto
  have "\<not> lt (?s ! parent j) (?s ! j)" if j: "0 < j" "j < Suc e" "parent j \<noteq> 0" for j
  proof -
    have "?s ! j = d ! j" "?s ! parent j = d ! parent j" using nth[of j] nth[of "parent j"] j parent_le[of j] by auto
    then show ?thesis using Suc.prems(1) j unfolding heap_def by simp
  qed
  then have "heap_down_from (\<lambda>x y. lt y x) ?s 0 (Suc e) 0" by (simp add: heap_down_from_def)
  then have h: "heap (\<lambda>x y. lt y x) ?d (Suc e)" and pm: "perm_in 0 e ?s ?d"
    using SiftDown_heap[of ?s 0 e 0] Suc.prems(2) by (simp_all add: heap_from_0)
  have "0 < length d" using Suc.prems(2) by linarith
  then have "mset ?s = mset d" using Suc.prems(2) by (rule mset_swap_self)
  then have len: "length ?d = length d" "mset ?d = mset d" using pm by (auto simp: perm_in_def)
  have high: "?d ! k = ?s ! k" if "e < k" "k < length d" for k using pm that by (simp add: perm_in_def)
  have low: "\<exists>k' \<le> Suc e. ?d ! k = d ! k'" if k: "k \<le> e" for k
  proof -
    obtain k' where k': "k' \<le> e" "?d ! k = ?s ! k'" using pm k by (auto simp: perm_in_def)
    then have "?s ! k' = d ! (if k' = 0 then Suc e else k')" using nth[of k'] by simp
    then show ?thesis using k' by (intro exI[of _ "if k' = 0 then Suc e else k'"]) simp
  qed
  have root: "\<not> lt (d ! 0) (d ! k)" if "k \<le> Suc e" for k
    using strict_weak.heap_root_le[OF flip Suc.prems(1), of k] that by simp
  have "\<not> lt (?d ! q) (?d ! p)" if pq: "p < q" "q < length d" "e < q" for p q
  proof -
    consider "p \<le> e" | "p = Suc e" | "Suc e < p" by linarith
    then show ?thesis
    proof cases
      case 1
      obtain k where k: "k \<le> Suc e" "?d ! p = d ! k" using low[OF 1] by blast
      show ?thesis using k root[OF k(1)] Suc.prems(3)[of k q] high[of q] nth[of q] pq by (cases "q = Suc e") simp_all
    next
      case 2
      then show ?thesis using high[of q] high[of p] nth[of p] nth[of q] pq Suc.prems(3)[of 0 q] by simp
    next
      case 3
      then show ?thesis using high[of q] high[of p] nth[of p] nth[of q] pq Suc.prems(3)[of p q] by simp
    qed
  qed
  then show ?case using Suc.IH[of ?d] h len Suc.prems(2) by simp
qed

lemma HeapSort_sorts: "ascending lt (HeapSort lt d) \<and> mset (HeapSort lt d) = mset d"
proof (cases "length d \<le> 1")
  case True
  then show ?thesis by (auto simp: HeapSort_def ascending_def)
next
  case False
  let ?e = "length d - 1" and ?s = "(length d - 2) div 2"
  let ?d = "heap_build lt d ?e ?s"
  have "heap_from (\<lambda>x y. lt y x) d (Suc ?s) (Suc ?e)" using False by (auto simp: heap_from_def parent_def)
  then have h: "heap (\<lambda>x y. lt y x) ?d (Suc ?e)" "perm_in 0 ?e d ?d" using heap_build_heap[of d ?s ?e] False by simp_all
  then have "length ?d = length d" "mset ?d = mset d" by (auto simp: perm_in_def)
  then show ?thesis using heap_drain_sorts[OF h(1)] False by (auto simp: HeapSort_def Let_def)
qed

lemma insert_back_spec:
  assumes "\<And>p q. a \<le> p \<Longrightarrow> p < q \<Longrightarrow> q \<le> i \<Longrightarrow> q \<noteq> j \<Longrightarrow> \<not> lt (d ! q) (d ! p)" "a \<le> j" "j \<le> i" "i < length d"
  shows "perm_in a i d (insert_back lt d a j) \<and>
    (\<forall>p q. a \<le> p \<longrightarrow> p < q \<longrightarrow> q \<le> i \<longrightarrow> \<not> lt (insert_back lt d a j ! q) (insert_back lt d a j ! p))"
  using assms
proof (induction j arbitrary: d)
  case 0
  then show ?case by (simp add: insert_back.simps)
next
  case (Suc j)
  consider "Suc j = a" | "a \<le> j" "lt (d ! j) (d ! Suc j)" | "a \<le> j" "\<not> lt (d ! j) (d ! Suc j)" using Suc.prems(2) by linarith
  then show ?case
  proof cases
    case 1
    then have "\<not> lt (d ! q) (d ! p)" if "a \<le> p" "p < q" "q \<le> i" for p q using Suc.prems(1)[OF that] that by simp
    then show ?thesis using 1 by (simp add: insert_back.simps)
  next
    case 2
    have "\<not> lt (d ! q) (d ! p)" if pq: "a \<le> p" "p < q" "q \<le> i" for p q
    proof (cases "q = Suc j")
      case True
      have "p = j \<or> p < j" using pq True by linarith
      then have "\<not> lt (d ! j) (d ! p)" using Suc.prems(1)[of p j] Suc.prems(3) pq irrefl by auto
      then show ?thesis using asym[OF 2(2)] neg_trans True by blast
    qed (use Suc.prems(1)[OF pq] in simp)
    then show ?thesis using 2 by (simp add: insert_back.simps)
  next
    case 3
    let ?s = "swap d (Suc j) j"
    have nth: "?s ! k = (if k = j then d ! Suc j else if k = Suc j then d ! j else d ! k)" for k
      using Suc.prems(3,4) by (subst nth_swap) auto
    have "\<not> lt (?s ! q) (?s ! p)" if pq: "a \<le> p" "p < q" "q \<le> i" "q \<noteq> j" for p q
      using 3 pq Suc.prems(1)[of p q] Suc.prems(1)[of p j] Suc.prems(1)[of j q] Suc.prems(1)[of "Suc j" q] Suc.prems(3)
      unfolding nth by (cases "q = Suc j"; cases "p = j"; cases "p = Suc j") auto
    moreover have "perm_in a i d ?s" using 3 Suc.prems(3,4) by (intro perm_in_swap) auto
    moreover have "insert_back lt d a (Suc j) = insert_back lt ?s a j" using 3 by (subst insert_back.simps) simp
    ultimately show ?thesis using Suc.IH[of ?s] 3 Suc.prems(3,4) by (auto intro: perm_in_trans)
  qed
qed

lemma insertion_sort_spec:
  assumes "\<And>p q. a \<le> p \<Longrightarrow> p < q \<Longrightarrow> q < i \<Longrightarrow> \<not> lt (d ! q) (d ! p)" "a \<le> i" "i \<le> Suc b" "b < length d"
  shows "perm_in a b d (insertion_sort lt d a i b) \<and>
    (\<forall>p q. a \<le> p \<longrightarrow> p < q \<longrightarrow> q \<le> b \<longrightarrow> \<not> lt (insertion_sort lt d a i b ! q) (insertion_sort lt d a i b ! p))"
  using assms
proof (induction "Suc b - i" arbitrary: i d)
  case 0
  then show ?case by (simp add: insertion_sort.simps)
next
  case (Suc n)
  let ?d = "insert_back lt d a i"
  have le: "i \<le> b" using Suc.hyps(2) by linarith
  have ib: "perm_in a i d ?d" "\<And>p q. a \<le> p \<Longrightarrow> p < q \<Longrightarrow> q < i + 1 \<Longrightarrow> \<not> lt (?d ! q) (?d ! p)"
    using insert_back_spec[of a i i d] Suc.prems le by auto
  moreover have "insertion_sort lt d a i b = insertion_sort lt ?d a (i + 1) b" using le insertion_sort.simps[of lt d a i b] by simp
  moreover have "perm_in a b d ?d" using ib(1) Suc.prems(4) Suc.hyps(2) by (intro perm_in_mono[OF ib(1)]) auto
  ultimately show ?case
    using Suc.hyps(1)[of "i + 1" ?d] Suc.hyps(2) Suc.prems(2-4) perm_in_length[OF ib(1)] by (auto intro: perm_in_trans)
qed

lemma scan_up_spec:
  assumes "a \<le> i" "i \<le> b + 1" "\<And>p. a \<le> p \<Longrightarrow> p < i \<Longrightarrow> \<not> lt x (d ! nat p)"
  shows "let i' = scan_up lt d x b i in i' \<le> b + 1 \<and> (\<forall>p. a \<le> p \<longrightarrow> p < i' \<longrightarrow> \<not> lt x (d ! nat p)) \<and>
    (i' \<le> b \<longrightarrow> \<not> lt (d ! nat i') x) \<and> (\<forall>m. i \<le> m \<longrightarrow> m \<le> b \<longrightarrow> \<not> lt (d ! nat m) x \<longrightarrow> i' \<le> m)"
  using assms
proof (induction "nat (b + 1 - i)" arbitrary: i)
  case 0
  then show ?case by (subst scan_up.simps) (auto simp: Let_def scan_up.simps)
next
  case (Suc n)
  show ?case
  proof (cases "lt (d ! nat i) x")
    case True
    have "\<not> lt x (d ! nat p)" if "a \<le> p" "p < i + 1" for p
      using that Suc.prems(3)[of p] asym[OF True] by (cases "p = i") auto
    then have I: "let i' = scan_up lt d x b (i + 1) in i' \<le> b + 1 \<and> (\<forall>p. a \<le> p \<longrightarrow> p < i' \<longrightarrow> \<not> lt x (d ! nat p)) \<and>
        (i' \<le> b \<longrightarrow> \<not> lt (d ! nat i') x) \<and> (\<forall>m. i + 1 \<le> m \<longrightarrow> m \<le> b \<longrightarrow> \<not> lt (d ! nat m) x \<longrightarrow> i' \<le> m)"
      using Suc.hyps Suc.prems(1) by (intro Suc.hyps(1)) auto
    have "i \<le> b" using Suc.hyps(2) by linarith
    then have eq: "scan_up lt d x b i = scan_up lt d x b (i + 1)" using True scan_up.simps[of lt d x b i] by simp
    have "i + 1 \<le> m" if "i \<le> m" "\<not> lt (d ! nat m) x" for m using that True by (cases "m = i") auto
    then show ?thesis using I unfolding Let_def eq by blast
  next
    case False
    then show ?thesis using Suc.prems by (simp add: scan_up.simps[of lt d x b i] Let_def)
  qed
qed

lemma scan_down_spec:
  assumes "j \<le> b" "a - 1 \<le> j" "\<And>p. j < p \<Longrightarrow> p \<le> b \<Longrightarrow> \<not> lt (d ! nat p) x"
  shows "let j' = scan_down lt d x a j in a - 1 \<le> j' \<and> (\<forall>p. j' < p \<longrightarrow> p \<le> b \<longrightarrow> \<not> lt (d ! nat p) x) \<and>
    (a \<le> j' \<longrightarrow> \<not> lt x (d ! nat j')) \<and> (\<forall>m. a \<le> m \<longrightarrow> m \<le> j \<longrightarrow> \<not> lt x (d ! nat m) \<longrightarrow> m \<le> j')"
  using assms
proof (induction "nat (j + 1 - a)" arbitrary: j)
  case 0
  then show ?case by (subst scan_down.simps) (auto simp: Let_def scan_down.simps)
next
  case (Suc n)
  show ?case
  proof (cases "lt x (d ! nat j)")
    case True
    have "\<not> lt (d ! nat p) x" if "j - 1 < p" "p \<le> b" for p
      using that Suc.prems(3)[of p] asym[OF True] by (cases "p = j") auto
    then have I: "let j' = scan_down lt d x a (j - 1) in a - 1 \<le> j' \<and> (\<forall>p. j' < p \<longrightarrow> p \<le> b \<longrightarrow> \<not> lt (d ! nat p) x) \<and>
        (a \<le> j' \<longrightarrow> \<not> lt x (d ! nat j')) \<and> (\<forall>m. a \<le> m \<longrightarrow> m \<le> j - 1 \<longrightarrow> \<not> lt x (d ! nat m) \<longrightarrow> m \<le> j')"
      using Suc.hyps Suc.prems(1) by (intro Suc.hyps(1)) auto
    have "a \<le> j" using Suc.hyps(2) by linarith
    then have eq: "scan_down lt d x a j = scan_down lt d x a (j - 1)" using True scan_down.simps[of lt d x a j] by simp
    have "m \<le> j - 1" if "m \<le> j" "\<not> lt x (d ! nat m)" for m using that True by (cases "m = j") auto
    then show ?thesis using I unfolding Let_def eq by blast
  next
    case False
    then show ?thesis using Suc.prems by (simp add: scan_down.simps[of lt d x a j] Let_def)
  qed
qed

lemma partition_loop_spec:
  assumes "0 \<le> a" "b < int (length d)" "a \<le> i" "i \<le> b + 1" "j \<le> b" "a - 1 \<le> j"
    and "\<And>p. a \<le> p \<Longrightarrow> p < i \<Longrightarrow> \<not> lt x (d ! nat p)" "\<And>p. j < p \<Longrightarrow> p \<le> b \<Longrightarrow> \<not> lt (d ! nat p) x"
    and "partition_loop lt x a b d i j = (d', i', j')"
  shows "perm_in (nat a) (nat b) d d' \<and> i' \<le> b + 1 \<and> a - 1 \<le> j' \<and>
    (\<forall>p. a \<le> p \<longrightarrow> p < i' \<longrightarrow> \<not> lt x (d' ! nat p)) \<and> (\<forall>p. j' < p \<longrightarrow> p \<le> b \<longrightarrow> \<not> lt (d' ! nat p) x)"
  using assms
proof (induction "nat (j + 1 - i)" arbitrary: d i j rule: less_induct)
  case less
  note step = partition_loop.simps[of lt x a b d i j]
  show ?case
  proof (cases "i \<le> j")
    case False
    then show ?thesis using less.prems step by simp
  next
    case True
    define i1 j1 where "i1 = scan_up lt d x b i" and "j1 = scan_down lt d x a j"
    have I: "i1 \<le> b + 1" "\<And>p. a \<le> p \<Longrightarrow> p < i1 \<Longrightarrow> \<not> lt x (d ! nat p)" "i1 \<le> b \<Longrightarrow> \<not> lt (d ! nat i1) x" "i \<le> i1"
      using scan_up_spec[OF less.prems(3,4,7)] scan_up_ge[of i lt d x b] unfolding Let_def i1_def by auto
    have J: "a - 1 \<le> j1" "\<And>p. j1 < p \<Longrightarrow> p \<le> b \<Longrightarrow> \<not> lt (d ! nat p) x" "a \<le> j1 \<Longrightarrow> \<not> lt x (d ! nat j1)" "j1 \<le> j"
      using scan_down_spec[OF less.prems(5,6,8)] scan_down_le[of lt d x a j] unfolding Let_def j1_def by auto
    show ?thesis
    proof (cases "i1 \<le> j1")
      case F: False
      then have "(d, i1, j1) = (d', i', j')" using less.prems(9) True partition_loop.simps[of lt x a b d i1 j1]
        unfolding step i1_def[symmetric] j1_def[symmetric] Let_def by simp
      then show ?thesis using I J by auto
    next
      case T: True
      let ?d = "swap d (nat i1) (nat j1)"
      have r: "a \<le> i1" "j1 \<le> b" "nat i1 < length d" "nat j1 < length d" using T I J less.prems(1-3,5) by linarith+
      have nth: "?d ! nat p = (if p = j1 then d ! nat i1 else if p = i1 then d ! nat j1 else d ! nat p)" if "0 \<le> p" for p
        using nth_swap[OF r(3,4), of "nat p"] that r T less.prems(1) by (auto simp: nat_eq_iff2)
      have lows: "\<not> lt x (?d ! nat p)" if "a \<le> p" "p < i1 + 1" for p
        using that I(2)[of p] J(3) T r less.prems(1) nth[of p] by (cases "p = i1") (auto split: if_splits)
      have highs: "\<not> lt (?d ! nat p) x" if "j1 - 1 < p" "p \<le> b" for p
        using that J(2)[of p] I(3) T r less.prems(1) nth[of p] by (cases "p = j1") (auto split: if_splits)
      have pm: "perm_in (nat a) (nat b) d ?d" using T r less.prems(1,2) by (intro perm_in_swap) auto
      have "partition_loop lt x a b ?d (i1 + 1) (j1 - 1) = (d', i', j')"
        using less.prems(9) True T unfolding step i1_def[symmetric] j1_def[symmetric] Let_def by simp
      then have "perm_in (nat a) (nat b) ?d d' \<and> i' \<le> b + 1 \<and> a - 1 \<le> j' \<and>
          (\<forall>p. a \<le> p \<longrightarrow> p < i' \<longrightarrow> \<not> lt x (d' ! nat p)) \<and> (\<forall>p. j' < p \<longrightarrow> p \<le> b \<longrightarrow> \<not> lt (d' ! nat p) x)"
        using lows highs T r I J True less.prems(1,2) by (intro less.hyps) auto
      then show ?thesis using pm by (auto intro: perm_in_trans)
    qed
  qed
qed

end

lemma partition_loop_mono: "partition_loop lt x a b d i j = (d', i', j') \<Longrightarrow> i \<le> i' \<and> j' \<le> j"
proof (induction lt x a b d i j rule: partition_loop.induct)
  case (1 lt x a b d i j)
  show ?case
    using 1(3) 1(1,2)[OF _ refl refl] scan_up_ge[of i lt d x b] scan_down_le[of lt d x a j]
    unfolding partition_loop.simps[of lt x a b d i j] by (auto simp: Let_def split: if_splits)
qed

lemma partition_loop_crossed: "j < i \<Longrightarrow> partition_loop lt x a b d i j = (d, i, j)"
  by (simp add: partition_loop.simps)

definition pushed_parts :: "int \<Rightarrow> int \<Rightarrow> int \<Rightarrow> int \<Rightarrow> (int \<times> int) list" where
  "pushed_parts a b i j =
    (let L = (if a < j then [(a, j)] else []); R = (if i < b then [(i, b)] else []) in if j - a \<ge> b - i then R @ L else L @ R)"

lemma split_loop_pushes:
  assumes "a < b" "partition_loop lt x a b d a b = (d', i, j)" "length st + 2 \<le> 32"
  shows "split_loop lt x d a b a b st = Some (d', pushed_parts a b i j @ st)"
proof -
  have ji: "j < i" by (rule partition_loop_cross[OF assms(2)])
  have left: "split_loop lt x d' i b i j st' = Some (d', (if i < b then [(i, b)] else []) @ st')" if "length st' < 32" for st'
    using that ji by (simp add: split_loop.simps[of lt x d' i b i j st'] split_loop.simps[of lt x d' i j i j] partition_loop_crossed)
  have right: "split_loop lt x d' a j i j st' = Some (d', (if a < j then [(a, j)] else []) @ st')" if "length st' < 32" for st'
    using that ji by (simp add: split_loop.simps[of lt x d' a j i j st'] split_loop.simps[of lt x d' i j i j] partition_loop_crossed)
  show ?thesis using assms left right by (simp add: split_loop.simps[of lt x d a b a b st] pushed_parts_def Let_def)
qed

section \<open>The loop over the parts\<close>

fun disjoint_parts :: "(int \<times> int) list \<Rightarrow> bool" where
  "disjoint_parts [] = True"
| "disjoint_parts ((a, b) # st) \<longleftrightarrow> (\<forall>(c, e) \<in> set st. b < c \<or> e < a) \<and> disjoint_parts st"

text \<open>A part at height \<open>k\<close> of the stack has at most \<open>N / 2 ^ k\<close> elements.\<close>

fun stack_bounded :: "nat \<Rightarrow> (int \<times> int) list \<Rightarrow> bool" where
  "stack_bounded N [] = True"
| "stack_bounded N ((a, b) # st) \<longleftrightarrow> (b - a + 1) * 2 ^ length st \<le> int N \<and> stack_bounded N st"

definition parts_weight :: "(int \<times> int) list \<Rightarrow> nat" where
  "parts_weight st = (\<Sum>(a, b) \<leftarrow> st. nat (2 * (b - a) + 1))"

text \<open>Two elements are in order unless one part holds both.\<close>

definition parts_inv :: "('a \<Rightarrow> 'a \<Rightarrow> bool) \<Rightarrow> 'a list \<Rightarrow> (int \<times> int) list \<Rightarrow> bool" where
  "parts_inv lt d st \<longleftrightarrow> (\<forall>(a, b) \<in> set st. 0 \<le> a \<and> a < b \<and> b < int (length d)) \<and> disjoint_parts st \<and>
    (\<forall>p q. p < q \<longrightarrow> q < length d \<longrightarrow> (\<exists>(a, b) \<in> set st. a \<le> int p \<and> int q \<le> b) \<or> \<not> lt (d ! q) (d ! p))"

lemma disjoint_parts_append:
  "disjoint_parts (ps @ st) \<longleftrightarrow> disjoint_parts ps \<and> disjoint_parts st \<and> (\<forall>(a, b) \<in> set ps. \<forall>(c, e) \<in> set st. b < c \<or> e < a)"
  by (induction ps) (auto simp: ball_Un)

lemma parts_inv_step:
  assumes inv: "parts_inv lt d ((a, b) # st)" and pm: "perm_in (nat a) (nat b) d d'"
    and ps: "\<forall>(c, e) \<in> set ps. a \<le> c \<and> c < e \<and> e \<le> b" "disjoint_parts ps"
    and ord: "\<And>p q. nat a \<le> p \<Longrightarrow> p < q \<Longrightarrow> q \<le> nat b \<Longrightarrow> (\<exists>(c, e) \<in> set ps. c \<le> int p \<and> int q \<le> e) \<or> \<not> lt (d' ! q) (d' ! p)"
  shows "parts_inv lt d' (ps @ st)"
proof -
  have ab: "0 \<le> a" "a < b" "b < int (length d)" and dis: "\<And>c e. (c, e) \<in> set st \<Longrightarrow> b < c \<or> e < a"
    using inv by (auto simp: parts_inv_def)
  have st: "\<And>c e. (c, e) \<in> set st \<Longrightarrow> 0 \<le> c \<and> c < e \<and> e < int (length d)" "disjoint_parts st" using inv by (auto simp: parts_inv_def)
  have len: "length d' = length d" using pm by (rule perm_in_length)
  have out: "d' ! k = d ! k" if "k < length d" "k < nat a \<or> nat b < k" for k using pm that unfolding perm_in_def by blast
  have ins: "\<exists>k'. nat a \<le> k' \<and> k' \<le> nat b \<and> d' ! k = d ! k'" if "nat a \<le> k" "k \<le> nat b" for k
    using pm that by (simp add: perm_in_def)
  have old: "(\<exists>(c, e) \<in> set st. c \<le> int p \<and> int q \<le> e) \<or> (a \<le> int p \<and> int q \<le> b) \<or> \<not> lt (d ! q) (d ! p)" if "p < q" "q < length d" for p q
    using inv that unfolding parts_inv_def by auto
  have "(\<exists>(c, e) \<in> set (ps @ st). c \<le> int p \<and> int q \<le> e) \<or> \<not> lt (d' ! q) (d' ! p)" if pq: "p < q" "q < length d'" for p q
  proof (cases "nat a \<le> p \<and> p \<le> nat b"; cases "nat a \<le> q \<and> q \<le> nat b")
    assume "nat a \<le> p \<and> p \<le> nat b" "nat a \<le> q \<and> q \<le> nat b"
    then show ?thesis using ord[of p q] pq by auto
  next
    assume P: "nat a \<le> p \<and> p \<le> nat b" and Q: "\<not> (nat a \<le> q \<and> q \<le> nat b)"
    then obtain k where k: "nat a \<le> k" "k \<le> nat b" "d' ! p = d ! k" using ins by blast
    have "k < q" "nat b < q" "\<not> (\<exists>(c, e) \<in> set st. c \<le> int k \<and> int q \<le> e)" using k P Q pq ab dis by fastforce+
    then show ?thesis using old[of k q] out[of q] pq len k(3) ab by auto
  next
    assume P: "\<not> (nat a \<le> p \<and> p \<le> nat b)" and Q: "nat a \<le> q \<and> q \<le> nat b"
    then obtain k where k: "nat a \<le> k" "k \<le> nat b" "d' ! q = d ! k" using ins by blast
    have "p < k" "p < nat a" "k < length d" "\<not> (\<exists>(c, e) \<in> set st. c \<le> int p \<and> int k \<le> e)" using k P Q pq ab dis by fastforce+
    then show ?thesis using old[of p k] out[of p] pq len k ab by auto
  next
    assume P: "\<not> (nat a \<le> p \<and> p \<le> nat b)" and Q: "\<not> (nat a \<le> q \<and> q \<le> nat b)"
    then have "\<not> (a \<le> int p \<and> int q \<le> b)" using pq ab by auto
    then show ?thesis using old[of p q] out[of p] out[of q] P Q pq len by auto
  qed
  moreover have "\<forall>(c, e) \<in> set (ps @ st). 0 \<le> c \<and> c < e \<and> e < int (length d')" using st ps(1) ab len by fastforce
  moreover have "disjoint_parts (ps @ st)" using ps st dis unfolding disjoint_parts_append by fastforce
  ultimately show ?thesis by (simp add: parts_inv_def)
qed

lemma pushed_parts_in: "(c, e) \<in> set (pushed_parts a b i j) \<longleftrightarrow> (c, e) = (a, j) \<and> a < j \<or> (c, e) = (i, b) \<and> i < b"
  by (auto simp: pushed_parts_def Let_def)

lemma pushed_parts_disjoint: "j < i \<Longrightarrow> disjoint_parts (pushed_parts a b i j)"
  by (auto simp: pushed_parts_def Let_def)

lemma pushed_parts_weight:
  assumes "j < i" "a < i" "j < b" "a < b"
  shows "parts_weight (pushed_parts a b i j @ st) < parts_weight ((a, b) # st)"
  using assms by (auto simp: parts_weight_def pushed_parts_def Let_def)

lemma pushed_parts_bounded:
  assumes "j < i" "a < i" "j < b" "stack_bounded N ((a, b) # st)"
  shows "stack_bounded N (pushed_parts a b i j @ st)"
proof -
  have le: "(b - a + 1) * 2 ^ length st \<le> int N" using assms(4) by simp
  have one: "m * 2 ^ length st \<le> int N" if "m \<le> b - a + 1" for m
    by (rule order_trans[OF _ le], intro mult_right_mono[OF that]) simp
  have two: "m * (2 * 2 ^ length st) \<le> int N" if "2 * m \<le> b - a + 1" for m
    using one[OF that] by (simp add: algebra_simps)
  show ?thesis using assms one two by (auto simp: pushed_parts_def Let_def)
qed

lemma stack_bounded_room:
  assumes "stack_bounded N ((a, b) # st)" "32 < b - a" "N < 2 ^ 36"
  shows "length st + 2 \<le> 32"
proof (rule ccontr)
  assume "\<not> length st + 2 \<le> 32"
  then have "(2::int) ^ 31 \<le> 2 ^ length st" by (intro power_increasing) auto
  then have "34 * (2::int) ^ 31 \<le> (b - a + 1) * 2 ^ length st" using assms(2) by (intro mult_mono) auto
  then have "34 * (2::int) ^ 31 \<le> int N" using assms(1) by simp
  then show False using assms(3) by simp
qed

context strict_weak
begin

text \<open>The pivot stops both scans, so a partition leaves two smaller parts.\<close>

lemma partition_loop_progress:
  assumes "a \<le> m" "m \<le> b" "partition_loop lt (d ! nat m) a b d a b = (d', i, j)"
  shows "a < i \<and> j < b"
proof -
  define i1 j1 where "i1 = scan_up lt d (d ! nat m) b a" and "j1 = scan_down lt d (d ! nat m) a b"
  have I: "i1 \<le> m" "a \<le> i1"
    using scan_up_spec[of a a b "d ! nat m" d] scan_up_ge[of a lt d "d ! nat m" b] assms(1,2) irrefl unfolding Let_def i1_def by auto
  have J: "m \<le> j1" "j1 \<le> b"
    using scan_down_spec[of b b a d "d ! nat m"] scan_down_le[of lt d "d ! nat m" a b] assms(1,2) irrefl unfolding Let_def j1_def by auto
  have "partition_loop lt (d ! nat m) a b (swap d (nat i1) (nat j1)) (i1 + 1) (j1 - 1) = (d', i, j)"
    using assms I J unfolding partition_loop.simps[of lt "d ! nat m" a b d a b] i1_def[symmetric] j1_def[symmetric] Let_def by simp
  from partition_loop_mono[OF this] show ?thesis using I J by linarith
qed

lemma parts_inv_heapsort:
  assumes "parts_inv lt d [(a, b)]"
  defines "d' \<equiv> take (nat a) d @ HeapSort lt (take (nat (b - a + 1)) (drop (nat a) d)) @ drop (nat (b + 1)) d"
  shows "parts_inv lt d' []" "mset d' = mset d"
proof -
  have ab: "0 \<le> a" "a < b" "b < int (length d)" using assms(1) by (auto simp: parts_inv_def)
  define xs where "xs = HeapSort lt (take (nat b + 1 - nat a) (drop (nat a) d))"
  have xs: "ascending lt xs" "mset xs = mset (take (nat b + 1 - nat a) (drop (nat a) d))"
    unfolding xs_def by (simp_all add: HeapSort_sorts)
  have n: "nat (b - a + 1) = nat b + 1 - nat a" "nat (b + 1) = nat b + 1" using ab by linarith+
  have d: "d' = take (nat a) d @ xs @ drop (nat b + 1) d" unfolding d'_def n xs_def ..
  have pm: "perm_in (nat a) (nat b) d d'" unfolding d using ab xs(2) by (intro perm_in_segment) auto
  have len: "length xs = nat b + 1 - nat a" using arg_cong[OF xs(2), of size] ab by simp
  have "\<not> lt (d' ! q) (d' ! p)" if "nat a \<le> p" "p < q" "q \<le> nat b" for p q
  proof -
    have "d' ! q = xs ! (q - nat a)" "d' ! p = xs ! (p - nat a)" unfolding d using that ab len by (auto simp: nth_append)
    moreover have "p - nat a < q - nat a" "q - nat a < length xs" using that len by linarith+
    ultimately show ?thesis using xs(1) unfolding ascending_def by simp
  qed
  then show "parts_inv lt d' []" using parts_inv_step[OF assms(1) pm, of "[]"] by auto
  show "mset d' = mset d" using pm by (simp add: perm_in_def)
qed

lemma parts_inv_split:
  assumes inv: "parts_inv lt d ((a, b) # st)" and P: "partition_loop lt (d ! nat (a + (b - a) div 2)) a b d a b = (d1, i, j)"
  shows "parts_inv lt d1 (pushed_parts a b i j @ st) \<and> mset d1 = mset d \<and> a < i \<and> j < b"
proof -
  let ?x = "d ! nat (a + (b - a) div 2)"
  have r: "0 \<le> a" "a < b" "b < int (length d)" using inv by (auto simp: parts_inv_def)
  have pr: "a < i" "j < b" "j < i" using partition_loop_progress[OF _ _ P] partition_loop_cross[OF P] r by auto
  have S: "perm_in (nat a) (nat b) d d1" "i \<le> b + 1" "a - 1 \<le> j"
    and lows: "\<And>p. a \<le> p \<Longrightarrow> p < i \<Longrightarrow> \<not> lt ?x (d1 ! nat p)" and highs: "\<And>p. j < p \<Longrightarrow> p \<le> b \<Longrightarrow> \<not> lt (d1 ! nat p) ?x"
    using partition_loop_spec[OF r(1,3) _ _ _ _ _ _ P] r by auto
  have "(\<exists>(c, e) \<in> set (pushed_parts a b i j). c \<le> int p \<and> int q \<le> e) \<or> \<not> lt (d1 ! q) (d1 ! p)" if pq: "nat a \<le> p" "p < q" "q \<le> nat b" for p q
  proof -
    consider "int q \<le> j" | "i \<le> int p" | "j < int q" "int p < i" by linarith
    then show ?thesis
    proof cases
      case 1
      then have "(a, j) \<in> set (pushed_parts a b i j)" "a \<le> int p" using pq r by (auto simp: pushed_parts_in)
      then show ?thesis using 1 by blast
    next
      case 2
      then have "(i, b) \<in> set (pushed_parts a b i j)" "int q \<le> b" using pq r by (auto simp: pushed_parts_in)
      then show ?thesis using 2 by blast
    next
      case 3
      then have "\<not> lt ?x (d1 ! p)" "\<not> lt (d1 ! q) ?x" using lows[of "int p"] highs[of "int q"] pq r by auto
      then show ?thesis using neg_trans by blast
    qed
  qed
  then have "parts_inv lt d1 (pushed_parts a b i j @ st)"
    using pr by (intro parts_inv_step[OF inv S(1)]) (auto simp: pushed_parts_in pushed_parts_disjoint)
  then show ?thesis using S(1) pr by (simp add: perm_in_def)
qed

lemma parts_inv_insertion:
  assumes "parts_inv lt d ((a, b) # st)"
  defines "d' \<equiv> insertion_sort lt d (nat a) (nat a + 1) (nat b)"
  shows "parts_inv lt d' st \<and> mset d' = mset d"
proof -
  have r: "0 \<le> a" "a < b" "b < int (length d)" using assms(1) by (auto simp: parts_inv_def)
  have I: "perm_in (nat a) (nat b) d d'" "\<And>p q. nat a \<le> p \<Longrightarrow> p < q \<Longrightarrow> q \<le> nat b \<Longrightarrow> \<not> lt (d' ! q) (d' ! p)"
    using insertion_sort_spec[of "nat a" "nat a + 1" d "nat b"] r by (auto simp: d'_def)
  have "parts_inv lt d' ([] @ st)" by (rule parts_inv_step[OF assms(1) I(1)]) (use I(2) in auto)
  then show ?thesis using I(1) by (simp add: perm_in_def)
qed

lemma sort_loop_sorts:
  assumes "parts_inv lt d st" "stack_bounded N st" "N < 2 ^ 36"
  shows "\<exists>d'. sort_loop lt d st iDepthLimit = Some d' \<and> ascending lt d' \<and> mset d' = mset d"
  using assms
proof (induction "parts_weight st" arbitrary: d st iDepthLimit rule: less_induct)
  case less
  show ?case
  proof (cases st)
    case Nil
    then show ?thesis using less.prems(1) by (auto simp: sort_loop.simps parts_inv_def ascending_def)
  next
    case (Cons ab st')
    obtain a b where st: "st = (a, b) # st'" using Cons by (cases ab) simp
    note inv = less.prems(1)[unfolded st]
    have r: "0 \<le> a" "a < b" "b < int (length d)" using inv by (auto simp: parts_inv_def)
    define dl where "dl = (if st' = [] then iDepthLimit - 1 else iDepthLimit)"
    note step = sort_loop.simps[of lt d "(a, b) # st'" iDepthLimit, unfolded list.case prod.case Let_def, folded dl_def]
    consider (heap) "st' = [] \<and> dl = 0" | (insertion) "\<not> (st' = [] \<and> dl = 0)" "b - a \<le> 32" | (split) "\<not> (st' = [] \<and> dl = 0)" "32 < b - a" by linarith
    then show ?thesis
    proof cases
      case heap
      then show ?thesis using parts_inv_heapsort[of d a b] inv unfolding st step by (auto simp: parts_inv_def ascending_def)
    next
      case insertion
      let ?d = "insertion_sort lt d (nat a) (nat a + 1) (nat b)"
      have I: "parts_inv lt ?d st'" "mset ?d = mset d" using parts_inv_insertion[OF inv] by simp_all
      have "\<exists>d'. sort_loop lt ?d st' dl = Some d' \<and> ascending lt d' \<and> mset d' = mset ?d"
        using less.prems(2,3) r by (intro less.hyps[OF _ I(1)]) (auto simp: st parts_weight_def)
      then show ?thesis using insertion I(2) unfolding st step if_not_P[OF insertion(1)] by auto
    next
      case split
      obtain d1 i j where P: "partition_loop lt (d ! nat (a + (b - a) div 2)) a b d a b = (d1, i, j)" using prod_cases3 by blast
      have ji: "j < i" by (rule partition_loop_cross[OF P])
      let ?st = "pushed_parts a b i j @ st'"
      have S: "parts_inv lt d1 ?st" "mset d1 = mset d" "a < i" "j < b" using parts_inv_split[OF inv P] by simp_all
      have "length st' + 2 \<le> 32" using stack_bounded_room[of N a b st'] less.prems(2,3) split st by simp
      then have sl: "split_loop lt (d ! nat (a + (b - a) div 2)) d a b a b st' = Some (d1, ?st)" by (rule split_loop_pushes[OF r(2) P])
      have eq: "sort_loop lt d st iDepthLimit = sort_loop lt d1 ?st dl" using split(2) unfolding st step if_not_P[OF split(1)] sl by simp
      have "stack_bounded N ?st" using pushed_parts_bounded[OF ji S(3,4)] less.prems(2) st by simp
      then have "\<exists>d'. sort_loop lt d1 ?st dl = Some d' \<and> ascending lt d' \<and> mset d' = mset d1"
        using pushed_parts_weight[OF ji S(3,4) r(2)] by (intro less.hyps[OF _ S(1) _ less.prems(3)]) (simp_all add: st)
      then show ?thesis using S(2) unfolding eq by simp
    qed
  qed
qed

lemma Sort_sorts:
  assumes "length d < 2 ^ 36"
  shows "\<exists>d'. Sort lt d = Some d' \<and> ascending lt d' \<and> mset d' = mset d"
proof (cases "length d < 2")
  case True
  then show ?thesis by (auto simp: Sort_def ascending_def)
next
  case False
  then have "parts_inv lt d [(0, int (length d) - 1)]" by (auto simp: parts_inv_def)
  then show ?thesis using sort_loop_sorts[of d "[(0, int (length d) - 1)]" "length d"] assms False by (simp add: Sort_def Let_def)
qed

end

interpretation less_order: strict_weak "(<) :: 'a::linorder \<Rightarrow> 'a \<Rightarrow> bool"
  by unfold_locales auto

section \<open>The logarithm counts bits\<close>

lemma Log2constUINT_power: "2 ^ h \<le> n \<Longrightarrow> n < 2 ^ Suc h \<Longrightarrow> Log2constUINT n k = k + int h + 1"
proof (induction h arbitrary: n k)
  case 0
  then show ?case by (simp add: Log2constUINT.simps)
next
  case (Suc h)
  have le: "2 ^ h \<le> n div 2" "n div 2 < 2 ^ Suc h" using Suc.prems by auto
  then have "Log2constUINT (n div 2) (k + 1) = k + 1 + int h + 1" by (rule Suc.IH)
  moreover have "0 < n div 2" by (rule less_le_trans[OF _ le(1)]) simp
  ultimately show ?case using Log2constUINT.simps[of n k] by simp
qed

lemma builtin_clz_highest:
  fixes v :: "'a::len word"
  assumes "bit v h" "\<And>n. h < n \<Longrightarrow> \<not> bit v n"
  shows "builtin_clz v = int LENGTH('a) - 1 - int h"
proof -
  have h: "h < LENGTH('a)" using assms(1) by (rule bit_imp_le_length)
  then have "[0..<LENGTH('a)] = [0..<h] @ h # [Suc h..<LENGTH('a)]"
    using upt_add_eq_append[of 0 h "LENGTH('a) - h"] upt_conv_Cons[of h "LENGTH('a)"] by simp
  then have "takeWhile (\<lambda>n. \<not> bit v n) (rev [0..<LENGTH('a)]) = rev [Suc h..<LENGTH('a)]"
    using assms by (simp add: takeWhile_append)
  then show ?thesis using h by (simp add: builtin_clz_def)
qed

lemma sphLog2const_loop: "sphLog2const u = Log2constUINT (unat u) 0"
proof (cases "unat u = 0")
  case True
  then have "builtin_clz (u OR 1) = int LENGTH('a) - 1 - int 0"
    by (intro builtin_clz_highest) (auto simp: unat_eq_zero bit_simps)
  then show ?thesis using True by (simp add: sphLog2const_def Log2constUINT.simps)
next
  case False
  obtain h where h: "2 ^ h \<le> unat u" "unat u < 2 ^ Suc h" using ex_power_ivl1[of 2 "unat u"] False by auto
  have "unat u div 2 ^ h = 1" using h by (intro div_nat_eqI) auto
  then have "bit (unat u) h" by (simp add: bit_iff_odd)
  then have b: "bit u h" by (simp add: bit_unsigned_iff)
  have "\<not> bit u n" if "h < n" for n
  proof -
    have "(2::nat) ^ Suc h \<le> 2 ^ n" using that by (intro power_increasing) auto
    then have "unat u div 2 ^ n = 0" using h(2) by simp
    then have "\<not> bit (unat u) n" by (simp add: bit_iff_odd)
    then show ?thesis using bit_imp_le_length[of u n] by (auto simp: bit_unsigned_iff)
  qed
  then have "builtin_clz (u OR 1) = int LENGTH('a) - 1 - int h"
    using b by (intro builtin_clz_highest) (auto simp: bit_simps)
  then show ?thesis using Log2constUINT_power[OF h] by (simp add: sphLog2const_def)
qed

section \<open>Repetitions are removed\<close>

lemma uniq_loop_remdups:
  assumes "uniq_loop d iSrc iDst = (d', n)" "0 < iDst" "iDst \<le> iSrc" "iSrc \<le> length d"
  shows "take n d' = butlast (take iDst d) @ remdups_adj (last (take iDst d) # drop iSrc d)"
  using assms
proof (induction "length d - iSrc" arbitrary: d iSrc iDst)
  case 0
  then have "take iDst d \<noteq> []" by auto
  then show ?case using 0 by (simp add: uniq_loop.simps)
next
  case (Suc k)
  have lt: "iSrc < length d" using Suc.hyps(2) by linarith
  have ne: "take iDst d \<noteq> []" using Suc.prems(2) lt by auto
  have la: "last (take iDst d) = d ! (iDst - 1)" using Suc.prems(2,3) lt by (subst last_conv_nth[OF ne]) (simp add: min_def)
  have dr: "drop iSrc d = d ! iSrc # drop (iSrc + 1) d" using lt by (simp add: Cons_nth_drop_Suc)
  show ?case
  proof (cases "d ! (iDst - 1) = d ! iSrc")
    case True
    then have "uniq_loop d (iSrc + 1) iDst = (d', n)" using Suc.prems(1) lt uniq_loop.simps[of d iSrc iDst] by simp
    then have "take n d' = butlast (take iDst d) @ remdups_adj (last (take iDst d) # drop (iSrc + 1) d)"
      using Suc.hyps(2) Suc.prems(2,3) lt by (intro Suc.hyps(1)) auto
    then show ?thesis using True la dr by simp
  next
    case False
    let ?d = "d[iDst := d ! iSrc]"
    have t: "take (iDst + 1) ?d = take iDst d @ [d ! iSrc]" using Suc.prems(3) lt by (simp add: take_Suc_conv_app_nth)
    have "uniq_loop ?d (iSrc + 1) (iDst + 1) = (d', n)" using Suc.prems(1) lt False uniq_loop.simps[of d iSrc iDst] by simp
    then have "take n d' = butlast (take (iDst + 1) ?d) @ remdups_adj (last (take (iDst + 1) ?d) # drop (iSrc + 1) ?d)"
      using Suc.hyps(2) Suc.prems(2,3) lt by (intro Suc.hyps(1)) auto
    then have "take n d' = take iDst d @ remdups_adj (drop iSrc d)" using Suc.prems(3) unfolding t dr by simp
    moreover have "take iDst d = butlast (take iDst d) @ [last (take iDst d)]" using ne by simp
    ultimately show ?thesis using False la dr by simp
  qed
qed

lemma sphUniq_remdups: "sphUniq d = (d', n) \<Longrightarrow> take n d' = remdups_adj d"
proof (cases d)
  case (Cons x xs)
  assume "sphUniq d = (d', n)"
  then have "take n d' = butlast (take 1 d) @ remdups_adj (last (take 1 d) # drop 1 d)"
    using Cons by (intro uniq_loop_remdups) (auto simp: sphUniq_def)
  then show ?thesis using Cons by simp
qed (simp add: sphUniq_def)

lemma strict_sorted_remdups_adj: "sorted xs \<Longrightarrow> sorted_wrt (<) (remdups_adj xs)"
  by (induction xs rule: remdups_adj.induct) (auto simp: less_le)

lemma ascending_less: "ascending (<) d \<longleftrightarrow> sorted (d :: 'a::linorder list)"
  by (auto simp: ascending_def sorted_iff_nth_mono_less not_less)

lemma Vector_Uniq_sorted:
  assumes "length d < 2 ^ 36"
  shows "\<exists>xs. Vector_Uniq True d = Some xs \<and> sorted_wrt (<) xs \<and> set xs = set d"
proof (cases "d = []")
  case False
  obtain d' where d': "Sort (<) d = Some d'" "ascending (<) d'" "mset d' = mset d" using less_order.Sort_sorts[OF assms] by blast
  obtain e n where u: "sphUniq d' = (e, n)" by fastforce
  have "take n e = remdups_adj d'" by (rule sphUniq_remdups[OF u])
  moreover have "sorted_wrt (<) (remdups_adj d')" using d'(2) by (simp add: ascending_less strict_sorted_remdups_adj)
  moreover have "set d' = set d" using d'(3) by (rule mset_eq_setD)
  ultimately show ?thesis using False d'(1) u by (simp add: Vector_Uniq_def)
qed (simp add: Vector_Uniq_def)

section \<open>Properties\<close>

text \<open>C36: the sort ends and sorts. For every strict weak order and every array of fewer than \<open>2 ^ 36\<close> elements the loop returns, never
  puts more than 32 parts on its stack, and leaves a rearrangement of the array in which no element is less than one
  before it; heap sort alone does the same for every array. With the sort, removing repetitions leaves
  the elements of the array in strictly ascending order, and the logarithm that limits the rounds agrees with the portable loop.\<close>

theorem sort_returns_sorted:
  assumes "strict_weak lt" "length d < 2 ^ 36" "length (e :: 'b::linorder list) < 2 ^ 36"
  shows "(\<exists>d'. Sort lt d = Some d' \<and> ascending lt d' \<and> mset d' = mset d) \<and>
    ascending lt (HeapSort lt d) \<and> mset (HeapSort lt d) = mset d \<and>
    (\<exists>xs. Vector_Uniq True e = Some xs \<and> sorted_wrt (<) xs \<and> set xs = set e) \<and>
    sphLog2 u = Log2constUINT (unat u) 0"
  using strict_weak.Sort_sorts[OF assms(1,2)] strict_weak.HeapSort_sorts[OF assms(1)] Vector_Uniq_sorted[OF assms(3)]
  by (simp add: sphLog2_def sphLog2const_loop)

theorem sort_returns_sorted_witness:
  "(\<exists>d'. Sort (\<lambda>x y. fst x < fst y) [(3 :: int, True), (1, False), (2, True)] = Some d' \<and>
      ascending (\<lambda>x y. fst x < fst y) d' \<and> mset d' = mset [(3, True), (1, False), (2, True)]) \<and>
    (\<exists>xs. Vector_Uniq True [5, 2, 5 :: int] = Some xs \<and> sorted_wrt (<) xs \<and> set xs = {2, 5}) \<and> sphLog2 10 = 4"
proof -
  have "strict_weak (\<lambda>x y :: int \<times> bool. fst x < fst y)" by unfold_locales auto
  from sort_returns_sorted[OF this, of "[(3, True), (1, False), (2, True)]" "[5, 2, 5 :: int]" 10]
  show ?thesis by (simp add: Log2constUINT.simps insert_commute)
qed

end
