(* ===== verification/String_Tags.thy ===== *)
theory String_Tags
  imports Sph_Sort
begin

text \<open>
  Splitting strings into words (\<^verbatim>\<open>src/src/sphinxutils.h\<close>, \<^verbatim>\<open>src/src/sphinxutils.cpp\<close>), the 64-bit hash of
  \<^verbatim>\<open>src/src/std/fnv64.h\<close> and \<^verbatim>\<open>src/src/std/fnv64.cpp\<close>, and \<^verbatim>\<open>StringTags_c\<close> of \<^verbatim>\<open>src/src/sphinxfilter.cpp\<close>, which
  compares the sorted hashes of the words of a string with those of a list of tags. A string is its list of
  bytes, a C string the bytes up to and including the zero; \<open>None\<close> is a failed assertion or a read
  past the memory given. Shown: the variants of the hash agree, and the comparison of hashes finds
  the tags when the hash does not collide.
\<close>

section \<open>The hash\<close>

definition SPH_FNV64_SEED :: qword where
  "SPH_FNV64_SEED = 0xcbf29ce484222325"

definition FNV_64_PRIME :: qword where
  "FNV_64_PRIME = 0x100000001b3"

primrec sphFNV64 :: "byte list \<Rightarrow> qword \<Rightarrow> qword" where
  "sphFNV64 [] hval = hval"
| "sphFNV64 (c # s) hval = sphFNV64 s ((hval XOR ucast c) * FNV_64_PRIME)"

primrec sphFNV64_old_for_bench :: "byte list \<Rightarrow> qword \<Rightarrow> qword" where
  "sphFNV64_old_for_bench [] hval = hval"
| "sphFNV64_old_for_bench (c # s) hval =
    (let hval = hval XOR ucast c in
     sphFNV64_old_for_bench s (hval + (push_bit 1 hval + push_bit 4 hval + push_bit 5 hval + push_bit 7 hval + push_bit 8 hval + push_bit 40 hval)))"

primrec sphFNV64cont :: "byte list \<Rightarrow> qword \<Rightarrow> qword option" where
  "sphFNV64cont [] hval = None"
| "sphFNV64cont (c # s) hval = (if c = 0 then Some hval else sphFNV64cont s ((hval XOR ucast c) * FNV_64_PRIME))"

definition sphFNV64_cstr :: "byte list \<Rightarrow> qword option" where
  "sphFNV64_cstr s = sphFNV64cont s SPH_FNV64_SEED"

text \<open>The hash of an integer, by its width.\<close>

definition sphFNV64_1 :: "byte \<Rightarrow> qword \<Rightarrow> qword" where
  "sphFNV64_1 uVal uPrev = (uPrev XOR ucast uVal) * FNV_64_PRIME"

definition sphFNV64_2 :: "16 word \<Rightarrow> qword \<Rightarrow> qword" where
  "sphFNV64_2 uVal uPrev = sphFNV64_1 (ucast (drop_bit 8 uVal)) (sphFNV64_1 (ucast uVal) uPrev)"

definition sphFNV64_4 :: "dword \<Rightarrow> qword \<Rightarrow> qword" where
  "sphFNV64_4 uVal uPrev = sphFNV64_2 (ucast (drop_bit 16 uVal)) (sphFNV64_2 (ucast uVal) uPrev)"

definition sphFNV64_8 :: "qword \<Rightarrow> qword \<Rightarrow> qword" where
  "sphFNV64_8 uVal uPrev = sphFNV64_4 (ucast (drop_bit 32 uVal)) (sphFNV64_4 (ucast uVal) uPrev)"

definition sphFNV64_4x :: "byte \<Rightarrow> qword \<Rightarrow> qword" where
  "sphFNV64_4x uVal uPrev = (uPrev XOR ucast uVal) * 0x9FFAAC085635BC91"

section \<open>Splitting strings\<close>

definition sphIsAlpha :: "byte \<Rightarrow> bool" where
  "sphIsAlpha c \<longleftrightarrow> 48 \<le> c \<and> c \<le> 57 \<or> 97 \<le> c \<and> c \<le> 122 \<or> 65 \<le> c \<and> c \<le> 90 \<or> c = 45 \<or> c = 95"

text \<open>\<^verbatim>\<open>strchr\<close> finds the terminating zero of the boundaries too.\<close>

definition in_bounds :: "byte list \<Rightarrow> byte \<Rightarrow> bool" where
  "in_bounds sBounds c \<longleftrightarrow> c = 0 \<or> c \<in> set (takeWhile (\<lambda>b. b \<noteq> 0) sBounds)"

text \<open>The words handed to the functor, for the bytes a word is made of.\<close>

function SplitApply_T :: "(byte \<Rightarrow> bool) \<Rightarrow> byte list \<Rightarrow> byte list list" where
  "SplitApply_T keep p =
    (let p = dropWhile (\<lambda>c. \<not> keep c) p in
     if p = [] then []
     else takeWhile keep p # SplitApply_T keep (dropWhile keep p))"
  by pat_completeness auto
termination
proof (relation "measure (\<lambda>(k, p). length p)", goal_cases)
  case (2 keep p p')
  obtain c r where p': "p' = c # r" using 2(2) by (cases p') auto
  then have "keep c" using hd_dropWhile[of "\<lambda>c. \<not> keep c" p] 2 by auto
  then have "length (dropWhile keep p') < length p'" using p' length_dropWhile_le[of keep r] by simp
  then show ?case using length_dropWhile_le[of "\<lambda>c. \<not> keep c" p] unfolding 2(1) by simp
qed simp

declare SplitApply_T.simps [simp del]

definition sphSplitApply :: "byte list \<Rightarrow> byte list list" where
  "sphSplitApply sIn = SplitApply_T sphIsAlpha sIn"

definition sphSplitApply_bounds :: "byte list \<Rightarrow> byte list \<Rightarrow> byte list list" where
  "sphSplitApply_bounds sIn sBounds = SplitApply_T (\<lambda>c. \<not> in_bounds sBounds c) sIn"

function Split :: "byte list \<Rightarrow> byte list \<Rightarrow> byte list list" where
  "Split p sBounds =
    (if p = [] then []
     else takeWhile (\<lambda>c. \<not> in_bounds sBounds c) p #
       Split (dropWhile (in_bounds sBounds) (dropWhile (\<lambda>c. \<not> in_bounds sBounds c) p)) sBounds)"
  by pat_completeness auto
termination
proof (relation "measure (\<lambda>(p, b). length p)", goal_cases)
  case (2 p b)
  let ?q = "dropWhile (\<lambda>c. \<not> in_bounds b c) p"
  have "length (dropWhile (in_bounds b) ?q) < length p"
  proof (cases "in_bounds b (hd p)")
    case True
    then have "?q = p" using 2 by (cases p) auto
    then show ?thesis using True 2 length_dropWhile_le[of "in_bounds b" "tl p"] by (cases p) auto
  next
    case False
    then have "length ?q < length p" using 2 length_dropWhile_le[of "\<lambda>c. \<not> in_bounds b c" "tl p"] by (cases p) auto
    then show ?thesis using length_dropWhile_le[of "in_bounds b" ?q] by linarith
  qed
  then show ?case by simp
qed simp

declare Split.simps [simp del]

section \<open>Tags\<close>

fun all_some :: "'a option list \<Rightarrow> 'a list option" where
  "all_some [] = Some []"
| "all_some (x # xs) = do { y \<leftarrow> x; ys \<leftarrow> all_some xs; Some (y # ys) }"

definition StringTags_SetTags :: "byte list list \<Rightarrow> qword list option" where
  "StringTags_SetTags pRef =
    (if pRef = [] then None
     else do {
       dTags \<leftarrow> all_some (map (\<lambda>sRef. sphFNV64_cstr (sRef @ [0])) pRef);
       Vector_Uniq True dTags
     })"

text \<open>The walk over the hashes of the words of a string and of the listed tags, both ascending and without repetitions.\<close>

fun tags_walk :: "'a::linorder list \<Rightarrow> 'a list \<Rightarrow> nat \<Rightarrow> nat" where
  "tags_walk (f # fs) (q # qs) (Suc n) =
    (if q < f then tags_walk (f # fs) qs (Suc n)
     else if f < q then tags_walk fs (q # qs) (Suc n)
     else tags_walk fs qs n)"
| "tags_walk _ _ n = n"

definition StringTags_Match :: "qword list \<Rightarrow> byte list \<Rightarrow> bool \<Rightarrow> bool option" where
  "StringTags_Match dTags tStr bAll = do {
     dMatchTags \<leftarrow> Vector_Uniq True (map (\<lambda>pTag. sphFNV64 pTag SPH_FNV64_SEED) (sphSplitApply tStr));
     Some (tags_walk dMatchTags dTags (if bAll then length dTags else 1) = 0)
   }"

section \<open>The variants of the hash agree\<close>

lemma mult_prime_shifts:
  "x + (push_bit 1 x + push_bit 4 x + push_bit 5 x + push_bit 7 x + push_bit 8 x + push_bit 40 x) = x * FNV_64_PRIME"
  by (simp add: push_bit_eq_mult FNV_64_PRIME_def)

lemma sphFNV64_old: "sphFNV64_old_for_bench s h = sphFNV64 s h"
  by (induction s arbitrary: h) (simp_all only: sphFNV64.simps sphFNV64_old_for_bench.simps Let_def mult_prime_shifts)

lemma sphFNV64cont_cstr: "0 \<notin> set s \<Longrightarrow> sphFNV64cont (s @ 0 # r) h = Some (sphFNV64 s h)"
  by (induction s arbitrary: h) auto

lemma sphFNV64_four: "sphFNV64_4x c h = sphFNV64 [c, 0, 0, 0] h"
proof -
  have "(0x9FFAAC085635BC91 :: qword) = FNV_64_PRIME * FNV_64_PRIME * FNV_64_PRIME * FNV_64_PRIME" by (simp add: FNV_64_PRIME_def)
  then show ?thesis by (simp add: sphFNV64_4x_def mult.assoc)
qed

section \<open>Words\<close>

text \<open>The fields between separators, empty ones included.\<close>

fun fields :: "('a \<Rightarrow> bool) \<Rightarrow> 'a list \<Rightarrow> 'a list list" where
  "fields keep [] = [[]]"
| "fields keep (c # s) = (if keep c then (c # hd (fields keep s)) # tl (fields keep s) else [] # fields keep s)"

lemma fields_takeWhile: "fields keep s = takeWhile keep s # (case dropWhile keep s of [] \<Rightarrow> [] | c # r \<Rightarrow> fields keep r)"
  by (induction s) auto

lemma fields_skip: "filter (\<lambda>w. w \<noteq> []) (fields keep (dropWhile (\<lambda>c. \<not> keep c) s)) = filter (\<lambda>w. w \<noteq> []) (fields keep s)"
  by (induction s) auto

lemma SplitApply_fields: "SplitApply_T keep s = filter (\<lambda>w. w \<noteq> []) (fields keep s)"
proof (induction keep s rule: SplitApply_T.induct)
  case (1 keep p)
  define q where "q = dropWhile (\<lambda>c. \<not> keep c) p"
  show ?case
  proof (cases "q = []")
    case True
    have "filter (\<lambda>w. w \<noteq> []) (fields keep p) = filter (\<lambda>w. w \<noteq> []) (fields keep q)" unfolding q_def by (rule fields_skip[symmetric])
    then show ?thesis using True by (simp add: SplitApply_T.simps[of keep p] q_def[symmetric] Let_def)
  next
    case False
    have ne: "takeWhile keep q \<noteq> []" using False hd_dropWhile[of "\<lambda>c. \<not> keep c" p] unfolding q_def by (auto simp: takeWhile_eq_Nil_iff)
    define r where "r = dropWhile keep q"
    have "r = c # s \<Longrightarrow> \<not> keep c" for c s using hd_dropWhile[of keep q] unfolding r_def by auto
    then have r: "filter (\<lambda>w. w \<noteq> []) (case r of [] \<Rightarrow> [] | c # s \<Rightarrow> fields keep s) = filter (\<lambda>w. w \<noteq> []) (fields keep r)"
      by (cases r) auto
    have "filter (\<lambda>w. w \<noteq> []) (fields keep p) = filter (\<lambda>w. w \<noteq> []) (fields keep q)" unfolding q_def by (rule fields_skip[symmetric])
    also have "\<dots> = takeWhile keep q # filter (\<lambda>w. w \<noteq> []) (fields keep (dropWhile keep q))"
      using ne r unfolding fields_takeWhile[of keep q] r_def by simp
    also have "\<dots> = takeWhile keep q # SplitApply_T keep (dropWhile keep q)" using 1[OF q_def False] by simp
    finally show ?thesis using False by (simp add: SplitApply_T.simps[of keep p] q_def[symmetric] Let_def)
  qed
qed

section \<open>Tags are found\<close>

lemma tags_walk_counts:
  "sorted_wrt (<) fs \<Longrightarrow> sorted_wrt (<) qs \<Longrightarrow> tags_walk fs qs n = n - card (set fs \<inter> set qs)"
proof (induction fs qs n rule: tags_walk.induct)
  case (1 f fs q qs n)
  consider "q < f" | "f < q" | "f = q" by (rule linorder_cases)
  then show ?case
  proof cases
    case 1
    then have "q \<notin> set (f # fs)" using "1.prems"(1) by auto
    then have "set (f # fs) \<inter> set (q # qs) = set (f # fs) \<inter> set qs" by auto
    then show ?thesis using "1.IH"(1)[OF 1] "1.prems" 1 by simp
  next
    case 2
    then have "f \<notin> set (q # qs)" using "1.prems"(2) by auto
    then have "set (f # fs) \<inter> set (q # qs) = set fs \<inter> set (q # qs)" by auto
    then show ?thesis using "1.IH"(2) "1.prems" 2 less_not_sym[OF 2] by simp
  next
    case 3
    then have "f \<notin> set fs" "set (f # fs) \<inter> set (q # qs) = insert f (set fs \<inter> set qs)" using "1.prems" by auto
    then have "card (set (f # fs) \<inter> set (q # qs)) = Suc (card (set fs \<inter> set qs))" by simp
    then show ?thesis using "1.IH"(3) "1.prems" 3 by simp
  qed
qed auto

lemma tags_walk_found:
  assumes "sorted_wrt (<) ms" "sorted_wrt (<) ts" "ts \<noteq> []"
  shows "tags_walk ms ts (if bAll then length ts else 1) = 0 \<longleftrightarrow> (if bAll then set ts \<subseteq> set ms else set ts \<inter> set ms \<noteq> {})"
proof -
  have "card (set ts) = length ts" using assms(2) by (simp add: distinct_card strict_sorted_iff)
  moreover have "card (set ts) \<le> card (set ms \<inter> set ts) \<longleftrightarrow> set ts \<subseteq> set ms"
    using card_seteq[of "set ts" "set ms \<inter> set ts"] by (auto simp: Int_absorb1)
  moreover have "1 \<le> card (set ms \<inter> set ts) \<longleftrightarrow> set ts \<inter> set ms \<noteq> {}" by (auto simp: Suc_le_eq card_gt_0_iff)
  ultimately show ?thesis unfolding tags_walk_counts[OF assms(1,2)] by auto
qed


lemma all_some_map: "(\<And>x. x \<in> set xs \<Longrightarrow> f x = Some (g x)) \<Longrightarrow> all_some (map f xs) = Some (map g xs)"
  by (induction xs) auto

text \<open>C40: a string matches a list of tags when it has all of them, or one of them, among its words, the longest runs of letters, digits,
  \<^verbatim>\<open>-\<close> and \<^verbatim>\<open>_\<close>. The comparison goes through sorted lists of hashes without repetitions, so this holds for tags and
  words whose hashes differ; tags are words without a zero byte.\<close>

theorem string_tags_match:
  assumes "tags \<noteq> []" "\<forall>t \<in> set tags. 0 \<notin> set t"
    and "inj_on (\<lambda>w. sphFNV64 w SPH_FNV64_SEED) (set tags \<union> set (filter (\<lambda>w. w \<noteq> []) (fields sphIsAlpha str)))"
    and "length tags < 2 ^ 36" "length (fields sphIsAlpha str) < 2 ^ 36"
  shows "\<exists>T. StringTags_SetTags tags = Some T \<and>
    StringTags_Match T str True = Some (set tags \<subseteq> set (filter (\<lambda>w. w \<noteq> []) (fields sphIsAlpha str))) \<and>
    StringTags_Match T str False = Some (set tags \<inter> set (filter (\<lambda>w. w \<noteq> []) (fields sphIsAlpha str)) \<noteq> {})"
proof -
  define W where "W = filter (\<lambda>w. w \<noteq> []) (fields sphIsAlpha str)"
  define h where "h w = sphFNV64 w SPH_FNV64_SEED" for w
  have words: "sphSplitApply str = W" by (simp add: sphSplitApply_def SplitApply_fields W_def)
  have "length W \<le> length (fields sphIsAlpha str)" unfolding W_def by (rule length_filter_le)
  then have len: "length (map h W) < 2 ^ 36" "length (map h tags) < 2 ^ 36" using assms(4,5) by (simp_all only: length_map)
  have "all_some (map (\<lambda>r. sphFNV64_cstr (r @ [0])) tags) = Some (map h tags)"
    using assms(2) by (intro all_some_map) (simp add: sphFNV64_cstr_def sphFNV64cont_cstr h_def)
  moreover obtain T where T: "Vector_Uniq True (map h tags) = Some T" "sorted_wrt (<) T" "set T = h ` set tags"
    using Vector_Uniq_sorted[OF len(2)] by auto
  ultimately have set: "StringTags_SetTags tags = Some T" using assms(1) by (simp add: StringTags_SetTags_def)
  obtain M where M: "Vector_Uniq True (map h W) = Some M" "sorted_wrt (<) M" "set M = h ` set W" using Vector_Uniq_sorted[OF len(1)] by auto
  have ne: "T \<noteq> []" using T(3) assms(1) by auto
  have inj: "inj_on h (set tags \<union> set W)" using assms(3) unfolding h_def W_def .
  have match: "StringTags_Match T str b = Some (if b then set T \<subseteq> set M else set T \<inter> set M \<noteq> {})" for b
    using M(1) tags_walk_found[OF M(2) T(2) ne, of b] unfolding StringTags_Match_def words h_def by simp
  have "set T \<subseteq> set M \<longleftrightarrow> set tags \<subseteq> set W" unfolding T(3) M(3) image_subset_iff subset_iff image_iff using inj unfolding inj_on_def by blast
  moreover have "set T \<inter> set M = h ` (set tags \<inter> set W)" unfolding T(3) M(3) by (rule inj_on_image_Int[OF inj, symmetric]) auto
  ultimately show ?thesis using set match[of True] match[of False] unfolding W_def[symmetric] by auto
qed

theorem string_tags_match_witness:
  "\<exists>T. StringTags_SetTags [[98], [97]] = Some T \<and> StringTags_Match T [97, 32, 98, 99] True = Some False \<and>
    StringTags_Match T [97, 32, 98, 99] False = Some True"
  using string_tags_match[of "[[98], [97]]" "[97, 32, 98, 99]"]
  by (simp add: sphIsAlpha_def SPH_FNV64_SEED_def FNV_64_PRIME_def inj_on_def insert_commute)

end
