(* ===== verification/Utf8.thy ===== *)
theory Utf8
  imports Prelude "HOL-Library.Monad_Syntax"
begin

text \<open>
  The UTF-8 codec of \<^verbatim>\<open>src/src/sphinxint.h\<close>: decoding and encoding one code point, the length and the code points of
  a C string. A buffer is the list of its bytes, terminating zero included; reading past it is \<open>None\<close>. Shown: the
  decoder inverts the encoder for every code point below \<open>2 ^ 21\<close>, and conversion of whole strings.
\<close>

section \<open>Decoding\<close>

lemma card_bits_shift:
  fixes v :: byte
  assumes "bit v 7"
  shows "card {i. bit (push_bit 1 v) i} < card {i. bit v i}"
proof -
  have fin: "finite {i. bit v i}" by (rule finite_subset[of _ "{..<8}"]) (auto dest: bit_imp_le_length)
  have "{i. bit (push_bit 1 v) i} \<subseteq> Suc ` ({i. bit v i} - {7})"
  proof
    fix x
    assume "x \<in> {i. bit (push_bit 1 v) i}"
    then have b: "bit (push_bit 1 v) x" by (rule CollectD)
    then have x: "x < LENGTH(8)" by (rule bit_imp_le_length)
    have "1 \<le> x" "bit v (x - 1)" using b unfolding bit_push_bit_word[OF x] by simp_all
    then show "x \<in> Suc ` ({i. bit v i} - {7})" by (intro image_eqI[of _ _ "x - 1"]) (use x in auto)
  qed
  then have "card {i. bit (push_bit 1 v) i} \<le> card (Suc ` ({i. bit v i} - {7}))" using fin by (intro card_mono) auto
  also have "\<dots> = card ({i. bit v i} - {7})" by (simp add: card_image)
  also have "\<dots> < card {i. bit v i}" using fin assms by (intro card_Diff1_less) auto
  finally show ?thesis .
qed

function lead_loop :: "byte \<Rightarrow> nat \<Rightarrow> byte \<times> nat" where
  "lead_loop v iBytes = (if v AND 0x80 \<noteq> 0 then lead_loop (push_bit 1 v) (iBytes + 1) else (v, iBytes))"
  by pat_completeness auto
termination
proof (relation "measure (\<lambda>(v, n). card {i. bit v i})", goal_cases)
  case (2 v n)
  then have "bit v 7" using and_exp_eq_0_iff_not_bit[of v 7] by simp
  then show ?case using card_bits_shift by simp
qed simp

declare lead_loop.simps [simp del]

text \<open>The continuation bytes; a zero byte or one of another kind is not consumed.\<close>

fun tail_loop :: "int \<Rightarrow> nat \<Rightarrow> byte list \<Rightarrow> (int \<times> byte list) option" where
  "tail_loop iCode iBytes [] = None"
| "tail_loop iCode iBytes (b # pBuf) =
    (if b = 0 then Some (0, b # pBuf)
     else if b AND 0xC0 \<noteq> 0x80 then Some (-1, b # pBuf)
     else
       let iCode = iCode * 64 + uint (b AND 0x3F); iBytes = iBytes - 1 in
       if iBytes \<noteq> 0 then tail_loop iCode iBytes pBuf else Some (iCode, pBuf))"

declare tail_loop.simps [simp del]

definition sphUTF8Decode :: "byte list \<Rightarrow> (int \<times> byte list) option" where
  "sphUTF8Decode pBuf =
    (case pBuf of
       [] \<Rightarrow> None
     | v # pBuf \<Rightarrow>
         if v = 0 then Some (0, pBuf)
         else if v < 128 then Some (uint v, pBuf)
         else
           let (v, iBytes) = lead_loop v 0 in
           if iBytes < 2 \<or> iBytes > 4 then Some (-1, pBuf)
           else tail_loop (uint (drop_bit iBytes v)) (iBytes - 1) pBuf)"

section \<open>Encoding\<close>

definition sphUTF8Encode :: "int \<Rightarrow> byte list" where
  "sphUTF8Encode iCode =
    (if iCode < 0x80 then [word_of_int (iCode AND 0x7F)]
     else if iCode < 0x800 then
       [word_of_int ((drop_bit 6 iCode AND 0x1F) OR 0xC0), word_of_int ((iCode AND 0x3F) OR 0x80)]
     else if iCode < 0x10000 then
       [word_of_int ((drop_bit 12 iCode AND 0x0F) OR 0xE0), word_of_int ((drop_bit 6 iCode AND 0x3F) OR 0x80),
        word_of_int ((iCode AND 0x3F) OR 0x80)]
     else
       [word_of_int ((drop_bit 18 iCode AND 0x0F) OR 0xF0), word_of_int ((drop_bit 12 iCode AND 0x3F) OR 0x80),
        word_of_int ((drop_bit 6 iCode AND 0x3F) OR 0x80), word_of_int ((iCode AND 0x3F) OR 0x80)])"

section \<open>Strings\<close>

definition sphIsUTF8 :: "byte list \<Rightarrow> bool" where
  "sphIsUTF8 pStr = list_ex (\<lambda>c. sint c < 0) (takeWhile (\<lambda>c. c \<noteq> 0) pStr)"

partial_function (option) utf8_len_loop :: "byte list \<Rightarrow> nat \<Rightarrow> nat option" where
  "utf8_len_loop pBuf iRes = do {
     (iCode, pBuf) \<leftarrow> sphUTF8Decode pBuf;
     if iCode = 0 then Some iRes
     else utf8_len_loop pBuf (if iCode > 0 then iRes + 1 else iRes)
   }"

definition sphUTF8Len :: "byte list \<Rightarrow> nat option" where
  "sphUTF8Len pStr = utf8_len_loop pStr 0"

text \<open>The code points written before the terminating zero.\<close>

fun wide_loop :: "byte list \<Rightarrow> nat \<Rightarrow> int list option" where
  "wide_loop p iRoom = do {
     (iCode, p) \<leftarrow> sphUTF8Decode p;
     if iCode = 0 then Some []
     else case iRoom of
       0 \<Rightarrow> Some []
     | Suc iRoom \<Rightarrow> do { dst \<leftarrow> wide_loop p iRoom; Some (iCode # dst) }
   }"

declare wide_loop.simps [simp del]

definition sphUTF8ToWideChar :: "byte list \<Rightarrow> nat \<Rightarrow> int list option" where
  "sphUTF8ToWideChar pSrc iMaxLen = wide_loop pSrc iMaxLen"

section \<open>The bytes of a code point\<close>

lemma cont_all: "list_all (\<lambda>y. (y + 128) AND 192 = (128::int) \<and> (y + 128) AND 63 = y \<and> y OR 128 = y + 128) (map int [0..<64])"
  by code_simp

lemma lead2_all: "list_all (\<lambda>x. lead_loop (word_of_int (192 + x)) 0 = (word_of_int (2 ^ 2 * x), 2) \<and> x OR 192 = 192 + x) (map int [0..<32])"
  by code_simp

lemma lead3_all: "list_all (\<lambda>x. lead_loop (word_of_int (224 + x)) 0 = (word_of_int (2 ^ 3 * x), 3) \<and> x OR 224 = 224 + x) (map int [0..<16])"
  by code_simp

lemma lead4_all: "list_all (\<lambda>x. lead_loop (word_of_int (240 + x)) 0 = (word_of_int (2 ^ 4 * x), 4) \<and> x OR 240 = 240 + x) (map int [0..<8])"
  by code_simp

lemma in_ints: "0 \<le> x \<Longrightarrow> x < int n \<Longrightarrow> x \<in> set (map int [0..<n])"
  by (auto simp: image_iff intro!: bexI[of _ "nat x"])

lemma cont_byte: "0 \<le> y \<Longrightarrow> y < 64 \<Longrightarrow> (y + 128) AND 192 = (128::int) \<and> (y + 128) AND 63 = y \<and> y OR 128 = y + 128"
  by (rule bspec[OF cont_all[unfolded list_all_iff] in_ints]) simp_all

lemma lead_bytes:
  "0 \<le> x \<Longrightarrow> x < 32 \<Longrightarrow> lead_loop (word_of_int (192 + x)) 0 = (word_of_int (2 ^ 2 * x), 2) \<and> x OR 192 = 192 + x"
  "0 \<le> x \<Longrightarrow> x < 16 \<Longrightarrow> lead_loop (word_of_int (224 + x)) 0 = (word_of_int (2 ^ 3 * x), 3) \<and> x OR 224 = 224 + x"
  "0 \<le> x \<Longrightarrow> x < 8 \<Longrightarrow> lead_loop (word_of_int (240 + x)) 0 = (word_of_int (2 ^ 4 * x), 4) \<and> x OR 240 = 240 + x"
  by (rule bspec[OF lead2_all[unfolded list_all_iff] in_ints] bspec[OF lead3_all[unfolded list_all_iff] in_ints]
    bspec[OF lead4_all[unfolded list_all_iff] in_ints]; simp)+

lemma and_low: "(c :: int) AND 0x7F = c mod 128" "c AND 0x3F = c mod 64" "c AND 0x1F = c mod 32" "c AND 0x0F = c mod 16"
  using take_bit_eq_mask[of 7 c] take_bit_eq_mask[of 6 c] take_bit_eq_mask[of 5 c] take_bit_eq_mask[of 4 c]
  by (simp_all add: mask_eq_exp_minus_1 take_bit_eq_mod)

lemma uint_byte: "0 \<le> x \<Longrightarrow> x < 256 \<Longrightarrow> uint (word_of_int x :: byte) = x"
  by (simp add: uint_word_of_int)

lemma tail_loop_step:
  assumes "0 \<le> y" "y < 64"
  shows "tail_loop c n (word_of_int (y OR 0x80) # p) = (if n - 1 \<noteq> 0 then tail_loop (c * 64 + y) (n - 1) p else Some (c * 64 + y, p))"
proof -
  note cb = cont_byte[OF assms]
  define b where "b = (word_of_int (y + 128) :: byte)"
  have u: "uint b = y + 128" unfolding b_def using assms by (intro uint_byte) auto
  have "b AND 0xC0 = 0x80" unfolding word_uint_eq_iff uint_and u using cb by simp
  moreover have "uint (b AND 0x3F) = y" unfolding uint_and u using cb by simp
  moreover have "b \<noteq> 0" using u assms by auto
  moreover have "word_of_int (y OR 0x80) = b" unfolding b_def using cb by simp
  ultimately show ?thesis by (simp add: Let_def tail_loop.simps)
qed

lemma decode_lead:
  assumes "lead_loop (word_of_int v) 0 = (word_of_int (2 ^ n * x), n)" "2 \<le> n" "n \<le> 4" "128 \<le> v" "v < 256" "0 \<le> x" "2 ^ n * x < 256"
  shows "sphUTF8Decode (word_of_int v # p) = tail_loop x (n - 1) p"
proof -
  define a r where "a = (word_of_int v :: byte)" and "r = (word_of_int (2 ^ n * x) :: byte)"
  have u: "uint a = v" unfolding a_def by (rule uint_byte) (use assms(4,5) in auto)
  have ur: "uint r = 2 ^ n * x" unfolding r_def by (rule uint_byte) (use assms(6,7) in auto)
  have "a \<noteq> 0" "\<not> a < 128" using u assms(4) by (auto simp: word_less_def)
  moreover have "take_bit 8 (2 ^ n * x) = 2 ^ n * x" using assms(6,7) by (intro take_bit_int_eq_self) auto
  then have "uint (drop_bit n r) = x" unfolding unsigned_drop_bit_eq ur by (simp add: drop_bit_eq_div)
  ultimately show ?thesis using assms(1-3) unfolding a_def[symmetric] r_def[symmetric] by (simp add: sphUTF8Decode_def)
qed

lemma sextets: "(c :: int) div 4096 = c div 64 div 64" "c div 262144 = c div 64 div 64 div 64"
  by (simp_all add: div_mult2_eq[symmetric])

lemma encode_bytes:
  "0x80 \<le> c \<Longrightarrow> c < 0x800 \<Longrightarrow> sphUTF8Encode c = [word_of_int (192 + c div 64), word_of_int (c mod 64 OR 0x80)]"
  "0x800 \<le> c \<Longrightarrow> c < 0x10000 \<Longrightarrow> sphUTF8Encode c =
    [word_of_int (224 + c div 4096), word_of_int (c div 64 mod 64 OR 0x80), word_of_int (c mod 64 OR 0x80)]"
  "0x10000 \<le> c \<Longrightarrow> c < 0x200000 \<Longrightarrow> sphUTF8Encode c =
    [word_of_int (240 + c div 262144), word_of_int (c div 4096 mod 64 OR 0x80), word_of_int (c div 64 mod 64 OR 0x80), word_of_int (c mod 64 OR 0x80)]"
proof -
  assume c: "0x80 \<le> c" "c < 0x800"
  then have x: "0 \<le> c div 64" "c div 64 < 32" by auto
  then have "(drop_bit 6 c AND 0x1F) OR 0xC0 = 192 + c div 64" unfolding and_low drop_bit_eq_div using lead_bytes(1)[OF x] by simp
  then show "sphUTF8Encode c = [word_of_int (192 + c div 64), word_of_int (c mod 64 OR 0x80)]" using c unfolding sphUTF8Encode_def and_low by auto
next
  assume c: "0x800 \<le> c" "c < 0x10000"
  then have x: "0 \<le> c div 4096" "c div 4096 < 16" by auto
  then have "(drop_bit 12 c AND 0x0F) OR 0xE0 = 224 + c div 4096" unfolding and_low drop_bit_eq_div using lead_bytes(2)[OF x] by simp
  then show "sphUTF8Encode c = [word_of_int (224 + c div 4096), word_of_int (c div 64 mod 64 OR 0x80), word_of_int (c mod 64 OR 0x80)]"
    using c unfolding sphUTF8Encode_def and_low by (auto simp: drop_bit_eq_div)
next
  assume c: "0x10000 \<le> c" "c < 0x200000"
  then have x: "0 \<le> c div 262144" "c div 262144 < 8" by auto
  then have "(drop_bit 18 c AND 0x0F) OR 0xF0 = 240 + c div 262144" unfolding and_low drop_bit_eq_div using lead_bytes(3)[OF x] by simp
  then show "sphUTF8Encode c = [word_of_int (240 + c div 262144), word_of_int (c div 4096 mod 64 OR 0x80), word_of_int (c div 64 mod 64 OR 0x80), word_of_int (c mod 64 OR 0x80)]"
    using c unfolding sphUTF8Encode_def and_low by (auto simp: drop_bit_eq_div)
qed

lemma decode_leads:
  "0 \<le> x \<Longrightarrow> x < 32 \<Longrightarrow> sphUTF8Decode (word_of_int (192 + x) # p) = tail_loop x 1 p"
  "0 \<le> x \<Longrightarrow> x < 16 \<Longrightarrow> sphUTF8Decode (word_of_int (224 + x) # p) = tail_loop x 2 p"
  "0 \<le> x \<Longrightarrow> x < 8 \<Longrightarrow> sphUTF8Decode (word_of_int (240 + x) # p) = tail_loop x 3 p"
proof -
  assume x: "0 \<le> x" "x < 32"
  show "sphUTF8Decode (word_of_int (192 + x) # p) = tail_loop x 1 p"
    using decode_lead[OF conjunct1[OF lead_bytes(1)[OF x]]] x by simp
next
  assume x: "0 \<le> x" "x < 16"
  show "sphUTF8Decode (word_of_int (224 + x) # p) = tail_loop x 2 p"
    using decode_lead[OF conjunct1[OF lead_bytes(2)[OF x]]] x by simp
next
  assume x: "0 \<le> x" "x < 8"
  show "sphUTF8Decode (word_of_int (240 + x) # p) = tail_loop x 3 p"
    using decode_lead[OF conjunct1[OF lead_bytes(3)[OF x]]] x by simp
qed

lemma utf8_decode_encode:
  assumes "0 < c" "c < 0x200000"
  shows "sphUTF8Decode (sphUTF8Encode c @ p) = Some (c, p)"
proof -
  have m: "0 \<le> x mod 64" "x mod 64 < 64" for x :: int by simp_all
  consider "c < 0x80" | "0x80 \<le> c" "c < 0x800" | "0x800 \<le> c" "c < 0x10000" | "0x10000 \<le> c" by linarith
  then show ?thesis
  proof cases
    case 1
    define b where "b = (word_of_int c :: byte)"
    have u: "uint b = c" unfolding b_def using 1 assms by (intro uint_byte) auto
    have "b \<noteq> 0" "b < 128" using u 1 assms by (auto simp: word_less_def)
    moreover have "sphUTF8Encode c = [b]" using 1 assms by (simp add: sphUTF8Encode_def and_low b_def)
    ultimately show ?thesis using u by (simp add: sphUTF8Decode_def)
  next
    case 2
    have x: "0 \<le> c div 64" "c div 64 < 32" using 2 by auto
    show ?thesis unfolding encode_bytes(1)[OF 2] append.simps decode_leads(1)[OF x] tail_loop_step[OF m] by simp
  next
    case 3
    have x: "0 \<le> c div 4096" "c div 4096 < 16" using 3 by auto
    show ?thesis unfolding encode_bytes(2)[OF 3] append.simps decode_leads(2)[OF x] tail_loop_step[OF m] by (simp add: sextets)
  next
    case 4
    have x: "0 \<le> c div 262144" "c div 262144 < 8" using 4 assms by auto
    show ?thesis unfolding encode_bytes(3)[OF 4 assms(2)] append.simps decode_leads(3)[OF x] tail_loop_step[OF m] by (simp add: sextets)
  qed
qed

lemma sint_neg_byte: "sint (b :: byte) < 0 \<longleftrightarrow> 128 \<le> uint b"
proof -
  have "sint b < 0 \<longleftrightarrow> bit (uint b) 7" using bit_last_iff[of b] by (simp add: bit_uint_iff)
  then have "sint b < 0 \<longleftrightarrow> odd (uint b div 2 ^ 7)" unfolding bit_iff_odd[of "uint b"] .
  moreover have "0 \<le> uint b" "uint b < 256" using uint_range_size[of b] by (simp_all add: word_size)
  then have "uint b div 2 ^ 7 = (if 128 \<le> uint b then 1 else 0)" by auto
  ultimately show ?thesis by (simp split: if_splits)
qed

lemma cont_high: "128 \<le> uint (word_of_int (x mod 64 OR 0x80) :: byte)"
proof -
  have "0 \<le> x mod 64" "x mod 64 < 64" by simp_all
  then have "x mod 64 OR 0x80 = x mod 64 + 128" "uint (word_of_int (x mod 64 + 128) :: byte) = x mod 64 + 128"
    using cont_byte[of "x mod 64"] by (auto intro!: uint_byte simp del: of_int_add)
  then show ?thesis by (simp del: of_int_add)
qed

lemma lead_high: "192 \<le> a \<Longrightarrow> 0 \<le> y \<Longrightarrow> a + y < 256 \<Longrightarrow> 128 \<le> uint (word_of_int (a + y) :: byte)"
  using uint_byte[of "a + y"] by (simp del: of_int_add)

lemma encode_high:
  assumes "0x80 \<le> c" "c < 0x200000"
  shows "b \<in> set (sphUTF8Encode c) \<Longrightarrow> 128 \<le> uint b"
proof -
  assume b: "b \<in> set (sphUTF8Encode c)"
  consider "c < 0x800" | "0x800 \<le> c" "c < 0x10000" | "0x10000 \<le> c" by linarith
  then show "128 \<le> uint b"
  proof cases
    case 1
    then show ?thesis using b cont_high lead_high[of 192 "c div 64"] assms unfolding encode_bytes(1)[OF assms(1) 1] by (auto simp del: of_int_add)
  next
    case 2
    then show ?thesis using b cont_high lead_high[of 224 "c div 4096"] assms unfolding encode_bytes(2)[OF 2] by (auto simp del: of_int_add)
  next
    case 3
    then show ?thesis using b cont_high lead_high[of 240 "c div 262144"] assms unfolding encode_bytes(3)[OF 3 assms(2)] by (auto simp del: of_int_add)
  qed
qed

lemma encode_low:
  assumes "0 < c" "c < 0x80"
  shows "sphUTF8Encode c = [word_of_int c]" "uint (word_of_int c :: byte) = c"
  using assms uint_byte[of c] by (simp_all add: sphUTF8Encode_def and_low)

lemma encode_bytes_in:
  assumes "0 < c" "c < 0x200000" "b \<in> set (sphUTF8Encode c)"
  shows "b \<noteq> 0 \<and> (sint b < 0 \<longleftrightarrow> 128 \<le> c)"
proof (cases "c < 0x80")
  case True
  then have "uint b = c" using encode_low[OF assms(1) True] assms(3) by auto
  then show ?thesis using True assms(1) by (auto simp: sint_neg_byte)
next
  case False
  then show ?thesis using encode_high[of c b] assms by (auto simp: sint_neg_byte)
qed

lemma encode_nonempty: "sphUTF8Encode c \<noteq> []"
  by (simp add: sphUTF8Encode_def)

definition utf8_string :: "int list \<Rightarrow> byte list" where
  "utf8_string cs = concat (map sphUTF8Encode cs)"

definition codepoints :: "int list \<Rightarrow> bool" where
  "codepoints cs \<longleftrightarrow> (\<forall>c \<in> set cs. 0 < c \<and> c < 0x200000)"

lemma utf8_string_nonzero: "codepoints cs \<Longrightarrow> b \<in> set (utf8_string cs) \<Longrightarrow> b \<noteq> 0"
  using encode_bytes_in by (fastforce simp: utf8_string_def codepoints_def)

lemma takeWhile_cstr: "codepoints cs \<Longrightarrow> takeWhile (\<lambda>c. c \<noteq> 0) (utf8_string cs @ 0 # r) = utf8_string cs"
  using utf8_string_nonzero by (simp add: takeWhile_append)

lemma sphIsUTF8_string: "codepoints cs \<Longrightarrow> sphIsUTF8 (utf8_string cs @ 0 # r) \<longleftrightarrow> (\<exists>c \<in> set cs. 128 \<le> c)"
proof -
  assume cs: "codepoints cs"
  have "(\<exists>b \<in> set (sphUTF8Encode c). sint b < 0) \<longleftrightarrow> 128 \<le> c" if "c \<in> set cs" for c
    using that cs encode_bytes_in[of c] encode_nonempty[of c] hd_in_set[of "sphUTF8Encode c"] unfolding codepoints_def by blast
  then show ?thesis unfolding sphIsUTF8_def takeWhile_cstr[OF cs] by (auto simp: list_ex_iff utf8_string_def)
qed

lemma wide_loop_string: "codepoints cs \<Longrightarrow> wide_loop (utf8_string cs @ 0 # r) n = Some (take n cs)"
proof (induction cs arbitrary: n)
  case Nil
  then show ?case by (simp add: wide_loop.simps utf8_string_def sphUTF8Decode_def)
next
  case (Cons c cs)
  have "sphUTF8Decode (utf8_string (c # cs) @ 0 # r) = Some (c, utf8_string cs @ 0 # r)"
    using utf8_decode_encode[of c] Cons.prems by (simp add: utf8_string_def codepoints_def)
  moreover have "wide_loop (utf8_string cs @ 0 # r) m = Some (take m cs)" for m using Cons by (simp add: codepoints_def)
  ultimately show ?case using Cons.prems by (cases n) (simp_all add: wide_loop.simps[of "utf8_string (c # cs) @ 0 # r"] codepoints_def)
qed

lemma utf8_len_string: "codepoints cs \<Longrightarrow> utf8_len_loop (utf8_string cs @ 0 # r) n = Some (n + length cs)"
proof (induction cs arbitrary: n)
  case Nil
  then show ?case by (simp add: utf8_len_loop.simps utf8_string_def sphUTF8Decode_def)
next
  case (Cons c cs)
  have "sphUTF8Decode (utf8_string (c # cs) @ 0 # r) = Some (c, utf8_string cs @ 0 # r)"
    using utf8_decode_encode[of c] Cons.prems by (simp add: utf8_string_def codepoints_def)
  moreover have "utf8_len_loop (utf8_string cs @ 0 # r) m = Some (m + length cs)" for m using Cons by (simp add: codepoints_def)
  ultimately show ?case using Cons.prems by (simp add: utf8_len_loop.simps[of "utf8_string (c # cs) @ 0 # r"] codepoints_def)
qed

text \<open>C39: decoding inverts encoding. For code points between 1 and \<open>2 ^ 21 - 1\<close> the decoder returns the code point that was encoded
  and leaves what follows it, in one to four bytes none of which is zero; of a string of encoded code points
  the conversion yields the code points, as many as there is room for, the length is their number, and the
  quick check tells whether one of them is not ASCII.\<close>

theorem utf8_roundtrip:
  assumes "codepoints cs" "c \<in> set cs"
  shows "sphUTF8Decode (sphUTF8Encode c @ p) = Some (c, p) \<and> length (sphUTF8Encode c) \<in> {1..4} \<and> 0 \<notin> set (sphUTF8Encode c) \<and>
    sphUTF8ToWideChar (utf8_string cs @ 0 # r) n = Some (take n cs) \<and> sphUTF8Len (utf8_string cs @ 0 # r) = Some (length cs) \<and>
    (sphIsUTF8 (utf8_string cs @ 0 # r) \<longleftrightarrow> (\<exists>c \<in> set cs. 128 \<le> c))"
proof -
  have c: "0 < c" "c < 0x200000" using assms by (auto simp: codepoints_def)
  have "length (sphUTF8Encode c) \<in> {1..4}" by (simp add: sphUTF8Encode_def)
  moreover have "0 \<notin> set (sphUTF8Encode c)" using encode_bytes_in[OF c] by blast
  ultimately show ?thesis
    using utf8_decode_encode[OF c] wide_loop_string[OF assms(1)] utf8_len_string[OF assms(1), of r 0] sphIsUTF8_string[OF assms(1)]
    by (simp add: sphUTF8ToWideChar_def sphUTF8Len_def)
qed

theorem utf8_roundtrip_witness:
  "sphUTF8Decode (sphUTF8Encode 0x20AC @ [1, 2]) = Some (0x20AC, [1, 2]) \<and>
    sphUTF8ToWideChar (utf8_string [0x41, 0x20AC] @ [0]) 9 = Some [0x41, 0x20AC] \<and> sphIsUTF8 (utf8_string [0x41, 0x20AC] @ [0])"
  using utf8_roundtrip[of "[0x41, 0x20AC]" "0x20AC" "[1, 2]" "[]" 9] by (simp add: codepoints_def)

end
