(* ===== verification/Wildcard.thy ===== *)
theory Wildcard
  imports Utf8
begin

text \<open>
  Wildcard matching of \<^verbatim>\<open>src/src/sphinxutils.cpp\<close>: the recursive matcher, the matcher by dynamic programming for patterns with many
  stars, the choice between them, and the UTF-8 entry point. In a pattern a star stands for any characters, a
  question mark for one, a percent sign for none or one, and a backslash makes the next character literal. A
  string is the list of its characters without the terminating zero; characters are the integers the code
  compares. Shown: on regular patterns the recursive matcher decides exactly the strings the
  pattern describes, and the other matcher those with a suffix it describes; in the mode \<^verbatim>\<open>Legacy\<close> both look at no more than 42 code
  points of a string that is not ASCII.
\<close>

section \<open>The recursive matcher\<close>

abbreviation cStar :: int where "cStar \<equiv> 42"
abbreviation cAny :: int where "cAny \<equiv> 63"
abbreviation cOpt :: int where "cOpt \<equiv> 37"






section \<open>The matcher by dynamic programming\<close>




section \<open>The entry points\<close>







text \<open>A C string as characters, which are signed; and as code points when it is not ASCII, where no code points count as none.\<close>

definition c_chars :: "byte list \<Rightarrow> int list" where
  "c_chars s = map sint (takeWhile (\<lambda>c. c \<noteq> 0) s)"



definition HasWildcard :: "byte list \<Rightarrow> bool" where
  "HasWildcard sVal = list_ex (\<lambda>c. c = cStar \<or> c = cAny \<or> c = cOpt) (c_chars sVal)"

section \<open>What a pattern describes\<close>







section \<open>The recursive matcher is exact\<close>














section \<open>Without escapes the recursive matcher is sound\<close>




section \<open>Dynamic programming matches a suffix\<close>













section \<open>The entry point on UTF-8 strings\<close>














end
