(* ===== verification/Crc32.thy ===== *)
theory Crc32
  imports Prelude
begin

text \<open>
  The checksum of \<^verbatim>\<open>src/src/std/crc32.cpp\<close> and \<^verbatim>\<open>crc32_impl.h\<close>, which the schema uses as its hash of attribute
  names. Shown: the table holds the remainders of the reflected polynomial 0xEDB88320, so a table step is
  eight steps of the bitwise division, and a checksum may be computed piece by piece.
\<close>

section \<open>Model\<close>

definition g_dCRC32 :: "dword list" where
  "g_dCRC32 =
   [0x00000000, 0x77073096, 0xee0e612c, 0x990951ba, 0x076dc419, 0x706af48f, 0xe963a535, 0x9e6495a3,
    0x0edb8832, 0x79dcb8a4, 0xe0d5e91e, 0x97d2d988, 0x09b64c2b, 0x7eb17cbd, 0xe7b82d07, 0x90bf1d91,
    0x1db71064, 0x6ab020f2, 0xf3b97148, 0x84be41de, 0x1adad47d, 0x6ddde4eb, 0xf4d4b551, 0x83d385c7,
    0x136c9856, 0x646ba8c0, 0xfd62f97a, 0x8a65c9ec, 0x14015c4f, 0x63066cd9, 0xfa0f3d63, 0x8d080df5,
    0x3b6e20c8, 0x4c69105e, 0xd56041e4, 0xa2677172, 0x3c03e4d1, 0x4b04d447, 0xd20d85fd, 0xa50ab56b,
    0x35b5a8fa, 0x42b2986c, 0xdbbbc9d6, 0xacbcf940, 0x32d86ce3, 0x45df5c75, 0xdcd60dcf, 0xabd13d59,
    0x26d930ac, 0x51de003a, 0xc8d75180, 0xbfd06116, 0x21b4f4b5, 0x56b3c423, 0xcfba9599, 0xb8bda50f,
    0x2802b89e, 0x5f058808, 0xc60cd9b2, 0xb10be924, 0x2f6f7c87, 0x58684c11, 0xc1611dab, 0xb6662d3d,
    0x76dc4190, 0x01db7106, 0x98d220bc, 0xefd5102a, 0x71b18589, 0x06b6b51f, 0x9fbfe4a5, 0xe8b8d433,
    0x7807c9a2, 0x0f00f934, 0x9609a88e, 0xe10e9818, 0x7f6a0dbb, 0x086d3d2d, 0x91646c97, 0xe6635c01,
    0x6b6b51f4, 0x1c6c6162, 0x856530d8, 0xf262004e, 0x6c0695ed, 0x1b01a57b, 0x8208f4c1, 0xf50fc457,
    0x65b0d9c6, 0x12b7e950, 0x8bbeb8ea, 0xfcb9887c, 0x62dd1ddf, 0x15da2d49, 0x8cd37cf3, 0xfbd44c65,
    0x4db26158, 0x3ab551ce, 0xa3bc0074, 0xd4bb30e2, 0x4adfa541, 0x3dd895d7, 0xa4d1c46d, 0xd3d6f4fb,
    0x4369e96a, 0x346ed9fc, 0xad678846, 0xda60b8d0, 0x44042d73, 0x33031de5, 0xaa0a4c5f, 0xdd0d7cc9,
    0x5005713c, 0x270241aa, 0xbe0b1010, 0xc90c2086, 0x5768b525, 0x206f85b3, 0xb966d409, 0xce61e49f,
    0x5edef90e, 0x29d9c998, 0xb0d09822, 0xc7d7a8b4, 0x59b33d17, 0x2eb40d81, 0xb7bd5c3b, 0xc0ba6cad,
    0xedb88320, 0x9abfb3b6, 0x03b6e20c, 0x74b1d29a, 0xead54739, 0x9dd277af, 0x04db2615, 0x73dc1683,
    0xe3630b12, 0x94643b84, 0x0d6d6a3e, 0x7a6a5aa8, 0xe40ecf0b, 0x9309ff9d, 0x0a00ae27, 0x7d079eb1,
    0xf00f9344, 0x8708a3d2, 0x1e01f268, 0x6906c2fe, 0xf762575d, 0x806567cb, 0x196c3671, 0x6e6b06e7,
    0xfed41b76, 0x89d32be0, 0x10da7a5a, 0x67dd4acc, 0xf9b9df6f, 0x8ebeeff9, 0x17b7be43, 0x60b08ed5,
    0xd6d6a3e8, 0xa1d1937e, 0x38d8c2c4, 0x4fdff252, 0xd1bb67f1, 0xa6bc5767, 0x3fb506dd, 0x48b2364b,
    0xd80d2bda, 0xaf0a1b4c, 0x36034af6, 0x41047a60, 0xdf60efc3, 0xa867df55, 0x316e8eef, 0x4669be79,
    0xcb61b38c, 0xbc66831a, 0x256fd2a0, 0x5268e236, 0xcc0c7795, 0xbb0b4703, 0x220216b9, 0x5505262f,
    0xc5ba3bbe, 0xb2bd0b28, 0x2bb45a92, 0x5cb36a04, 0xc2d7ffa7, 0xb5d0cf31, 0x2cd99e8b, 0x5bdeae1d,
    0x9b64c2b0, 0xec63f226, 0x756aa39c, 0x026d930a, 0x9c0906a9, 0xeb0e363f, 0x72076785, 0x05005713,
    0x95bf4a82, 0xe2b87a14, 0x7bb12bae, 0x0cb61b38, 0x92d28e9b, 0xe5d5be0d, 0x7cdcefb7, 0x0bdbdf21,
    0x86d3d2d4, 0xf1d4e242, 0x68ddb3f8, 0x1fda836e, 0x81be16cd, 0xf6b9265b, 0x6fb077e1, 0x18b74777,
    0x88085ae6, 0xff0f6a70, 0x66063bca, 0x11010b5c, 0x8f659eff, 0xf862ae69, 0x616bffd3, 0x166ccf45,
    0xa00ae278, 0xd70dd2ee, 0x4e048354, 0x3903b3c2, 0xa7672661, 0xd06016f7, 0x4969474d, 0x3e6e77db,
    0xaed16a4a, 0xd9d65adc, 0x40df0b66, 0x37d83bf0, 0xa9bcae53, 0xdebb9ec5, 0x47b2cf7f, 0x30b5ffe9,
    0xbdbdf21c, 0xcabac28a, 0x53b39330, 0x24b4a3a6, 0xbad03605, 0xcdd70693, 0x54de5729, 0x23d967bf,
    0xb3667a2e, 0xc4614ab8, 0x5d681b02, 0x2a6f2b94, 0xb40bbe37, 0xc30c8ea1, 0x5a05df1b, 0x2d02ef8d]"

definition CRC32_start :: "byte \<Rightarrow> dword" where
  "CRC32_start uByte = 0xFFFFFF XOR g_dCRC32 ! unat (0xFF XOR uByte)"

definition CRC32_next :: "dword \<Rightarrow> byte \<Rightarrow> dword" where
  "CRC32_next uPrevCRC uByte = drop_bit 8 uPrevCRC XOR g_dCRC32 ! unat ((uPrevCRC XOR ucast uByte) AND 0xFF)"

text \<open>\<^verbatim>\<open>sphCRC32\<close> of a zero-terminated string, given with what follows it, and of a block of memory.\<close>

fun crc32_loop :: "dword \<Rightarrow> byte list \<Rightarrow> dword option" where
  "crc32_loop uCRC [] = None"
| "crc32_loop uCRC (b # p) = (if b = 0 then Some uCRC else crc32_loop (CRC32_next uCRC b) p)"

definition sphCRC32_str :: "byte list \<Rightarrow> dword option" where
  "sphCRC32_str s = map_option (\<lambda>uCRC. NOT uCRC) (crc32_loop (NOT 0) s)"

fun crc32_block_loop :: "dword \<Rightarrow> byte list \<Rightarrow> dword" where
  "crc32_block_loop uCRC [] = uCRC"
| "crc32_block_loop uCRC (b # p) = crc32_block_loop (CRC32_next uCRC b) p"

definition sphCRC32 :: "byte list \<Rightarrow> dword \<Rightarrow> dword" where
  "sphCRC32 s uPrevCRC = NOT (crc32_block_loop (NOT uPrevCRC) s)"

section \<open>The polynomial\<close>

definition crc_bit :: "dword \<Rightarrow> dword" where
  "crc_bit c = (if bit c 0 then drop_bit 1 c XOR 0xEDB88320 else drop_bit 1 c)"

lemma crc_bit_xor: "crc_bit (a XOR b) = crc_bit a XOR crc_bit b"
  by (rule bit_eqI) (auto simp: crc_bit_def bit_xor_iff bit_drop_bit_eq)

lemma crc_bits_xor: "(crc_bit ^^ n) (a XOR b) = (crc_bit ^^ n) a XOR (crc_bit ^^ n) b"
  by (induction n) (simp_all add: crc_bit_xor)

lemma crc_bits_high: "take_bit n a = 0 \<Longrightarrow> (crc_bit ^^ n) a = drop_bit n a"
proof (induction n)
  case (Suc n)
  have b: "\<not> bit a k" if "k < Suc n" for k
    using Suc.prems that bit_take_bit_iff[of "Suc n" a k] by simp
  have "take_bit n a = 0" by (rule bit_eqI) (use b in \<open>auto simp: bit_take_bit_iff\<close>)
  then have "(crc_bit ^^ n) a = drop_bit n a" by (rule Suc.IH)
  moreover have "\<not> bit (drop_bit n a) 0" using b[of n] by (simp add: bit_drop_bit_eq)
  ultimately show ?case using crc_bit_def[of "drop_bit n a"] by (simp add: drop_bit_drop_bit)
qed simp

text \<open>The table is linear, so its entries at the powers of two decide the others.\<close>

lemma table_linear: "list_all (\<lambda>n. take n (drop n g_dCRC32) = map (\<lambda>x. x XOR g_dCRC32 ! n) (take n g_dCRC32)) [1, 2, 4, 8, 16, 32, 64, 128]"
  by (simp add: g_dCRC32_def)

lemma crc_bits_8: "(crc_bit ^^ 8) x = crc_bit (crc_bit (crc_bit (crc_bit (crc_bit (crc_bit (crc_bit (crc_bit x)))))))"
  by (simp add: numeral_eq_Suc)

lemmas crc_bit_numeral = crc_bit_def[of 1] crc_bit_def[of "numeral n" for n]

lemma table_basis: "list_all (\<lambda>n. g_dCRC32 ! n = (crc_bit ^^ 8) (word_of_nat n)) [1, 2, 4, 8, 16, 32, 64, 128]"
  by (simp add: g_dCRC32_def crc_bits_8 crc_bit_numeral)

lemma word_of_nat_high:
  assumes "j < 2 ^ i" "i < 8"
  shows "word_of_nat (2 ^ i + j) = (2 ^ i XOR word_of_nat j :: dword)"
proof -
  have "bit j i = False" using assms(1) by (simp add: bit_iff_odd)
  then have "(2 ^ i :: dword) AND word_of_nat j = 0"
    by (intro bit_eqI) (auto simp: bit_and_iff bit_exp_iff Bit_Operations.bit_of_nat_iff)
  then show ?thesis by (simp add: disjunctive_add_eq_xor)
qed

lemma table_nth:
  assumes "k < 2 ^ i" "i \<le> 8"
  shows "g_dCRC32 ! k = (crc_bit ^^ 8) (word_of_nat k)"
  using assms
proof (induction i arbitrary: k)
  case 0
  have "crc_bit 0 = 0" by (simp add: crc_bit_def)
  then show ?case using 0 by (simp add: g_dCRC32_def crc_bits_8)
next
  case (Suc i)
  show ?case
  proof (cases "k < 2 ^ i")
    case True
    then show ?thesis using Suc by simp
  next
    case False
    then obtain j where j: "k = 2 ^ i + j" "j < 2 ^ i" using Suc.prems by (metis add_less_cancel_left le_Suc_ex mult_2 not_less power_Suc)
    have "i = 0 \<or> i = 1 \<or> i = 2 \<or> i = 3 \<or> i = 4 \<or> i = 5 \<or> i = 6 \<or> i = 7" using Suc.prems by linarith
    then have i: "(2::nat) ^ i \<in> set [1, 2, 4, 8, 16, 32, 64, 128]" "i < 8" by auto
    have l: "length g_dCRC32 = 256" by (simp add: g_dCRC32_def)
    have "(2::nat) ^ i \<le> 128" using i(1) by auto
    then have n: "take (2 ^ i) (drop (2 ^ i) g_dCRC32) ! j = g_dCRC32 ! k" "take (2 ^ i) g_dCRC32 ! j = g_dCRC32 ! j" "j < length (take (2 ^ i) g_dCRC32)"
      using j l by auto
    have "take (2 ^ i) (drop (2 ^ i) g_dCRC32) = map (\<lambda>x. x XOR g_dCRC32 ! (2 ^ i)) (take (2 ^ i) g_dCRC32)"
      "g_dCRC32 ! (2 ^ i) = (crc_bit ^^ 8) (word_of_nat (2 ^ i))"
      using bspec[OF table_linear[unfolded list_all_iff] i(1)] bspec[OF table_basis[unfolded list_all_iff] i(1)] .
    then have "g_dCRC32 ! k = g_dCRC32 ! j XOR (crc_bit ^^ 8) (2 ^ i)" using n nth_map[OF n(3)] by (simp flip: n(1))
    moreover have "g_dCRC32 ! j = (crc_bit ^^ 8) (word_of_nat j)" using Suc j(2) by simp
    ultimately show ?thesis using j word_of_nat_high[OF j(2) i(2)] by (simp add: crc_bits_xor xor.commute)
  qed
qed

text \<open>A table step divides the next byte by the polynomial.\<close>

lemma CRC32_next_bits: "CRC32_next c b = (crc_bit ^^ 8) (c XOR ucast b)"
proof -
  define x where "x = c XOR ucast b"
  have m: "(0xFF :: dword) = mask 8" by (simp add: mask_eq_exp_minus_1)
  have lo: "unat (x AND 0xFF) < 2 ^ 8"
    using word_and_le1[of x "0xFF"] by (simp add: word_le_nat_alt)
  have "g_dCRC32 ! unat (x AND 0xFF) = (crc_bit ^^ 8) (x AND 0xFF)" using table_nth[OF lo] by simp
  moreover have "take_bit 8 (x AND NOT 0xFF) = 0"
    unfolding m by (rule bit_eqI) (auto simp: bit_take_bit_iff bit_and_iff bit_not_iff bit_mask_iff)
  moreover have "drop_bit 8 (x AND NOT 0xFF) = drop_bit 8 x" unfolding m
    by (rule bit_eqI) (auto simp: bit_drop_bit_eq bit_and_iff bit_not_iff bit_mask_iff dest: bit_imp_le_length)
  moreover have "x = (x AND NOT 0xFF) XOR (x AND 0xFF)"
    unfolding m by (rule bit_eqI) (auto simp: bit_xor_iff bit_and_iff bit_not_iff)
  then have "(crc_bit ^^ 8) x = (crc_bit ^^ 8) (x AND NOT 0xFF) XOR (crc_bit ^^ 8) (x AND 0xFF)" by (metis crc_bits_xor)
  moreover have "drop_bit 8 x = drop_bit 8 c"
    unfolding x_def by (rule bit_eqI) (auto simp: bit_drop_bit_eq bit_xor_iff bit_ucast_iff dest: bit_imp_le_length)
  ultimately show ?thesis unfolding CRC32_next_def x_def[symmetric] by (simp only: crc_bits_high)
qed

lemma CRC32_start_next: "CRC32_start b = CRC32_next (NOT 0) b"
proof -
  have m: "(0xFF :: dword) = mask 8" "(0xFF :: byte) = mask 8" by (simp_all add: mask_eq_exp_minus_1)
  have "(NOT 0 XOR ucast b :: dword) AND 0xFF = ucast (0xFF XOR b)"
    unfolding m by (rule bit_eqI) (auto simp: bit_xor_iff bit_and_iff bit_not_iff bit_mask_iff bit_ucast_iff dest: bit_imp_le_length)
  then have "unat ((NOT 0 XOR ucast b :: dword) AND 0xFF) = unat (0xFF XOR b)"
    using unsigned_less[of "0xFF XOR b", where 'a = nat] by (simp only: unsigned_ucast_eq) (simp add: take_bit_nat_eq_self)
  moreover have "drop_bit 8 (NOT 0 :: dword) = 0xFFFFFF" by (simp add: mask_eq_exp_minus_1)
  ultimately show ?thesis unfolding CRC32_start_def CRC32_next_def by (simp only:)
qed

lemma crc32_block_append: "crc32_block_loop c (p @ q) = crc32_block_loop (crc32_block_loop c p) q"
  by (induction c p rule: crc32_block_loop.induct) simp_all

lemma crc32_block_bits: "crc32_block_loop c s = foldl (\<lambda>c b. (crc_bit ^^ 8) (c XOR ucast b)) c s"
  by (induction c s rule: crc32_block_loop.induct) (simp_all add: CRC32_next_bits)

lemma sphCRC32_append: "sphCRC32 (p @ q) uPrev = sphCRC32 q (sphCRC32 p uPrev)"
  by (simp add: sphCRC32_def crc32_block_append)

lemma sphCRC32_str_block:
  assumes "0 \<notin> set s"
  shows "sphCRC32_str (s @ 0 # rest) = Some (sphCRC32 s 0)"
proof -
  have "crc32_loop c (s @ 0 # rest) = Some (crc32_block_loop c s)" for c
    using assms by (induction s arbitrary: c) auto
  then show ?thesis by (simp add: sphCRC32_str_def sphCRC32_def)
qed

end
