(* ===== verification/Schema.thy ===== *)
theory Schema
  imports Row_Attr Crc32
begin

text \<open>
  Table schemas: the columns of \<^verbatim>\<open>src/src/schema/columninfo.h\<close>, the placement of attributes in rows by
  \<^verbatim>\<open>CSphSchemaHelper::InsertAttr\<close> of \<^verbatim>\<open>helper.cpp\<close> and the class \<^verbatim>\<open>CSphSchema\<close> of \<^verbatim>\<open>schema.cpp\<close>, with its hash of attribute
  names. A column has the fields these operations read; a failed assertion and an access outside an array are None.
  The theories Schema_Layout and Schema_Hash show what the operations keep.
\<close>

section \<open>Columns\<close>

datatype ESphAttr = SPH_ATTR_NONE | SPH_ATTR_INTEGER | SPH_ATTR_TIMESTAMP | SPH_ATTR_BOOL | SPH_ATTR_FLOAT | SPH_ATTR_BIGINT
  | SPH_ATTR_STRING | SPH_ATTR_POLY2D | SPH_ATTR_STRINGPTR | SPH_ATTR_TOKENCOUNT | SPH_ATTR_JSON | SPH_ATTR_DOUBLE
  | SPH_ATTR_UINT64 | SPH_ATTR_FLOAT_VECTOR | SPH_ATTR_FLOAT_VECTOR_ARRAY | SPH_ATTR_UINT32SET | SPH_ATTR_INT64SET
  | SPH_ATTR_MAPARG | SPH_ATTR_FACTORS | SPH_ATTR_JSON_FIELD | SPH_ATTR_FACTORS_JSON | SPH_ATTR_UINT32SET_PTR
  | SPH_ATTR_INT64SET_PTR | SPH_ATTR_JSON_PTR | SPH_ATTR_JSON_FIELD_PTR | SPH_ATTR_STORED_FIELD | SPH_ATTR_FLOAT_VECTOR_PTR
  | SPH_ATTR_TDIGEST_PTR | SPH_ATTR_FLOAT_VECTOR_ARRAY_PTR

datatype ESphWordpart = SPH_WORDPART_WHOLE | SPH_WORDPART_PREFIX | SPH_WORDPART_INFIX

record CSphColumnInfo =
  m_sName :: string
  m_eAttrType :: ESphAttr
  m_eAggrInputType :: ESphAttr
  m_eWordpart :: ESphWordpart
  m_tLocator :: CSphAttrLocator
  m_uFieldFlags :: dword
  m_uAttrFlags :: dword
  m_uNext :: nat

definition FIELD_STORED :: dword where
  "FIELD_STORED = 1"

definition ATTR_COLUMNAR :: dword where
  "ATTR_COLUMNAR = 1"

definition sphIsBlobType :: "ESphAttr \<Rightarrow> bool" where
  "sphIsBlobType eAttr \<longleftrightarrow> eAttr \<in> {SPH_ATTR_STRING, SPH_ATTR_JSON, SPH_ATTR_UINT32SET, SPH_ATTR_INT64SET, SPH_ATTR_FLOAT_VECTOR,
    SPH_ATTR_FLOAT_VECTOR_ARRAY}"

definition sphIsDataPtrAttr :: "ESphAttr \<Rightarrow> bool" where
  "sphIsDataPtrAttr eAttr \<longleftrightarrow> eAttr \<in> {SPH_ATTR_STRINGPTR, SPH_ATTR_TDIGEST_PTR, SPH_ATTR_FACTORS, SPH_ATTR_FACTORS_JSON,
    SPH_ATTR_UINT32SET_PTR, SPH_ATTR_INT64SET_PTR, SPH_ATTR_FLOAT_VECTOR_PTR, SPH_ATTR_FLOAT_VECTOR_ARRAY_PTR, SPH_ATTR_JSON_PTR,
    SPH_ATTR_JSON_FIELD_PTR}"

definition IsDataPtr :: "CSphColumnInfo \<Rightarrow> bool" where
  "IsDataPtr tCol = sphIsDataPtrAttr (m_eAttrType tCol)"

definition IsColumnar :: "CSphColumnInfo \<Rightarrow> bool" where
  "IsColumnar tCol \<longleftrightarrow> m_uAttrFlags tCol AND ATTR_COLUMNAR \<noteq> 0"

definition sphIsBlobAttr :: "CSphColumnInfo \<Rightarrow> bool" where
  "sphIsBlobAttr tAttr \<longleftrightarrow> \<not> IsColumnar tAttr \<and> sphIsBlobType (m_eAttrType tAttr)"

definition ColumnInfo_eq :: "CSphColumnInfo \<Rightarrow> CSphColumnInfo \<Rightarrow> bool" where
  "ColumnInfo_eq l r \<longleftrightarrow> m_sName l = m_sName r \<and> m_eAttrType l = m_eAttrType r \<and> m_eAggrInputType l = m_eAggrInputType r \<and>
    m_iBitCount (m_tLocator l) = m_iBitCount (m_tLocator r) \<and> m_iBitOffset (m_tLocator l) = m_iBitOffset (m_tLocator r) \<and>
    m_bDynamic (m_tLocator l) = m_bDynamic (m_tLocator r)"

definition char_lower :: "char \<Rightarrow> char" where
  "char_lower c = (if 65 \<le> (of_char c :: nat) \<and> (of_char c :: nat) \<le> 90 then char_of ((of_char c :: nat) + 32) else c)"

fun lower_loop :: "bool \<Rightarrow> string \<Rightarrow> string" where
  "lower_loop bQuoted [] = []"
| "lower_loop bQuoted (c # sVal) =
    (if c = CHR ''.'' \<or> c = CHR '','' \<or> c = CHR ''['' then c # sVal
     else let c = if bQuoted then c else char_lower c
          in c # lower_loop (if c = CHR 0x27 then \<not> bQuoted else bQuoted) sVal)"

definition sphColumnToLowercase :: "string \<Rightarrow> string" where
  "sphColumnToLowercase sVal = lower_loop False sVal"

text \<open>A column made by the constructor, which turns the name into lower case, with the default locator.\<close>

definition CSphColumnInfo_new :: "string \<Rightarrow> ESphAttr \<Rightarrow> CSphColumnInfo" where
  "CSphColumnInfo_new sName eType =
    \<lparr>m_sName = sphColumnToLowercase sName, m_eAttrType = eType, m_eAggrInputType = SPH_ATTR_NONE, m_eWordpart = SPH_WORDPART_WHOLE,
     m_tLocator = \<lparr>m_iBitOffset = -1, m_iBitCount = -1, m_iBlobAttrId = -1, m_iBlobRowOffset = 1, m_nBlobAttrs = 0, m_bDynamic = True\<rparr>,
     m_uFieldFlags = 2, m_uAttrFlags = 0, m_uNext = 0xFFFF\<rparr>"

section \<open>Placing an attribute\<close>

record DataPtrAttr_t =
  m_iRowitem :: int
  m_eType :: ESphAttr

definition ROWITEMPTR_BITS :: int where
  "ROWITEMPTR_BITS = 64"

definition sphGetDocidName :: string where
  "sphGetDocidName = ''id''"

definition attr_bits :: "CSphColumnInfo \<Rightarrow> int" where
  "attr_bits tCol =
    (let iBits = ROWITEM_BITS;
         iBits = if m_iBitCount (m_tLocator tCol) > 0 then m_iBitCount (m_tLocator tCol) else iBits;
         iBits = if m_eAttrType tCol = SPH_ATTR_BOOL then 1 else iBits;
         iBits = if m_eAttrType tCol \<in> {SPH_ATTR_BIGINT, SPH_ATTR_UINT64, SPH_ATTR_JSON_FIELD, SPH_ATTR_DOUBLE} then 64 else iBits
     in if IsDataPtr tCol then ROWITEMPTR_BITS else iBits)"

text \<open>The bits of an attribute: whole items at the end, or the first item with enough bits left.\<close>

fun find_item :: "int list \<Rightarrow> int \<Rightarrow> nat" where
  "find_item [] iBits = 0"
| "find_item (u # dUsed) iBits = (if u + iBits \<le> ROWITEM_BITS then 0 else Suc (find_item dUsed iBits))"

definition alloc_bits :: "int list \<Rightarrow> int \<Rightarrow> int \<times> int list" where
  "alloc_bits dUsed iBits =
    (if iBits \<ge> ROWITEM_BITS then
       (int (length dUsed) * ROWITEM_BITS, dUsed @ replicate (nat ((iBits + ROWITEM_BITS - 1) div ROWITEM_BITS)) ROWITEM_BITS)
     else
       let iItem = find_item dUsed iBits;
           dUsed = if iItem = length dUsed then dUsed @ [0] else dUsed
       in (int iItem * ROWITEM_BITS + dUsed ! iItem, dUsed[iItem := dUsed ! iItem + iBits]))"

fun number_blobs :: "int \<Rightarrow> CSphColumnInfo list \<Rightarrow> CSphColumnInfo list" where
  "number_blobs iBlobAttrId [] = []"
| "number_blobs iBlobAttrId (c # dAttrs) =
    (if sphIsBlobAttr c then c\<lparr>m_tLocator := (m_tLocator c)\<lparr>m_iBlobAttrId := iBlobAttrId\<rparr>\<rparr> # number_blobs (iBlobAttrId + 1) dAttrs
     else c # number_blobs iBlobAttrId dAttrs)"

definition count_blobs :: "CSphColumnInfo list \<Rightarrow> int" where
  "count_blobs dAttrs = int (length (filter sphIsBlobAttr dAttrs))"

definition set_blob_counts :: "int \<Rightarrow> bool \<Rightarrow> CSphColumnInfo \<Rightarrow> CSphColumnInfo" where
  "set_blob_counts iBlobs bColumnarID c =
    (if sphIsBlobAttr c
     then c\<lparr>m_tLocator := (m_tLocator c)\<lparr>m_nBlobAttrs := iBlobs, m_iBlobRowOffset := if bColumnarID then 0 else 1\<rparr>\<rparr> else c)"

definition list_insert :: "nat \<Rightarrow> 'a \<Rightarrow> 'a list \<Rightarrow> 'a list" where
  "list_insert i x xs = take i xs @ x # drop i xs"

definition SchemaHelper_InsertAttr ::
  "DataPtrAttr_t list \<Rightarrow> CSphColumnInfo list \<Rightarrow> int list \<Rightarrow> int \<Rightarrow> CSphColumnInfo \<Rightarrow> bool
    \<Rightarrow> (DataPtrAttr_t list \<times> CSphColumnInfo list \<times> int list) option" where
  "SchemaHelper_InsertAttr dPtrs dAttrs dUsed iPos tCol bDynamic =
    (if \<not> (0 \<le> iPos \<and> iPos \<le> int (length dAttrs)) \<or> m_eAttrType tCol = SPH_ATTR_NONE \<or> IsDataPtr tCol \<and> \<not> bDynamic then None
     else
       let iBits = attr_bits tCol;
           dPtrs = if IsDataPtr tCol then dPtrs @ [\<lparr>m_iRowitem = int (length dUsed), m_eType = m_eAttrType tCol\<rparr>] else dPtrs;
           tLoc = (m_tLocator tCol)\<lparr>m_iBitCount := iBits, m_bDynamic := bDynamic\<rparr>;
           put = (\<lambda>l. list_insert (nat iPos) (tCol\<lparr>m_tLocator := l\<rparr>) dAttrs)
       in if IsColumnar tCol then Some (dPtrs, put (tLoc\<lparr>m_iBitOffset := 0\<rparr>), dUsed)
          else if sphIsBlobAttr tCol then
            let dAttrs = put (tLoc\<lparr>m_iBitCount := 0, m_iBitOffset := 0\<rparr>);
                bColumnarID = (dAttrs \<noteq> [] \<and> m_sName (dAttrs ! 0) = sphGetDocidName \<and> IsColumnar (dAttrs ! 0))
            in Some (dPtrs, map (set_blob_counts (count_blobs dAttrs) bColumnarID) (number_blobs 0 dAttrs), dUsed)
          else let (iBitOffset, dUsed) = alloc_bits dUsed iBits in Some (dPtrs, put (tLoc\<lparr>m_iBitOffset := iBitOffset\<rparr>), dUsed))"

definition DescribePtrRow :: "DataPtrAttr_t list \<Rightarrow> int \<Rightarrow> DataPtrAttr_t option" where
  "DescribePtrRow dPtrs iRowitem = find (\<lambda>tPtr. m_iRowitem tPtr = iRowitem) dPtrs"

section \<open>Schemas\<close>

record CSphSchema =
  m_dDataPtrAttrs :: "DataPtrAttr_t list"
  m_dDynamicUsed :: "int list"
  m_dBuckets :: "nat list"
  m_iFirstFieldLenAttr :: int
  m_iLastFieldLenAttr :: int
  m_iRowSize :: int
  m_dFields :: "CSphColumnInfo list"
  m_dAttrs :: "CSphColumnInfo list"
  m_dStaticUsed :: "int list"

definition HASH_THRESH :: nat where
  "HASH_THRESH = 32"

definition BUCKET_COUNT :: nat where
  "BUCKET_COUNT = 256"

definition CSphSchema_new :: CSphSchema where
  "CSphSchema_new = \<lparr>m_dDataPtrAttrs = [], m_dDynamicUsed = [], m_dBuckets = replicate BUCKET_COUNT 0xFFFF, m_iFirstFieldLenAttr = -1,
    m_iLastFieldLenAttr = -1, m_iRowSize = 0, m_dFields = [], m_dAttrs = [], m_dStaticUsed = []\<rparr>"

definition GetDynamicSize :: "CSphSchema \<Rightarrow> int" where
  "GetDynamicSize s = int (length (m_dDynamicUsed s))"

definition GetStaticSize :: "CSphSchema \<Rightarrow> int" where
  "GetStaticSize s = int (length (m_dStaticUsed s))"

definition GetRowSize :: "CSphSchema \<Rightarrow> int" where
  "GetRowSize s = GetStaticSize s + GetDynamicSize s"

definition ResetSchemaHelper :: "CSphSchema \<Rightarrow> CSphSchema" where
  "ResetSchemaHelper s = s\<lparr>m_dDataPtrAttrs := [], m_dDynamicUsed := []\<rparr>"

definition CSphSchema_Reset :: "CSphSchema \<Rightarrow> CSphSchema" where
  "CSphSchema_Reset s = (ResetSchemaHelper s)\<lparr>m_dFields := [], m_dAttrs := [], m_dBuckets := replicate BUCKET_COUNT 0xFFFF,
    m_dStaticUsed := [], m_iRowSize := 0\<rparr>"

subsection \<open>The hash of names\<close>

definition name_crc :: "string \<Rightarrow> dword" where
  "name_crc sName = (case sphCRC32_str (map of_char sName @ [0]) of Some c \<Rightarrow> c | None \<Rightarrow> 0)"

definition GetBucketPos :: "string \<Rightarrow> nat" where
  "GetBucketPos sName = unat (name_crc sName) mod BUCKET_COUNT"

text \<open>Putting attribute i at the head of its bucket.\<close>

definition hash_push :: "nat \<Rightarrow> CSphSchema \<Rightarrow> CSphSchema" where
  "hash_push i s =
    (let b = GetBucketPos (m_sName (m_dAttrs s ! i)) in
     s\<lparr>m_dAttrs := (m_dAttrs s)[i := (m_dAttrs s ! i)\<lparr>m_uNext := m_dBuckets s ! b\<rparr>], m_dBuckets := (m_dBuckets s)[b := i mod 0x10000]\<rparr>)"

definition RebuildHash :: "CSphSchema \<Rightarrow> CSphSchema" where
  "RebuildHash s =
    (if length (m_dAttrs s) < HASH_THRESH then s
     else fold hash_push [0..<length (m_dAttrs s)] (s\<lparr>m_dBuckets := replicate BUCKET_COUNT 0xFFFF\<rparr>))"

definition shift_pos :: "int \<Rightarrow> int \<Rightarrow> nat \<Rightarrow> nat" where
  "shift_pos iStartIndex iAddVal uPos = (if uPos \<noteq> 0xFFFF \<and> int uPos > iStartIndex then nat ((int uPos + iAddVal) mod 0x10000) else uPos)"

definition UpdateHash :: "int \<Rightarrow> int \<Rightarrow> CSphSchema \<Rightarrow> CSphSchema" where
  "UpdateHash iStartIndex iAddVal s =
    (if length (m_dAttrs s) < HASH_THRESH then s
     else s\<lparr>m_dAttrs := map (\<lambda>c. c\<lparr>m_uNext := shift_pos iStartIndex iAddVal (m_uNext c)\<rparr>) (m_dAttrs s),
            m_dBuckets := map (shift_pos iStartIndex iAddVal) (m_dBuckets s)\<rparr>)"

partial_function (option) walk_chain :: "CSphColumnInfo list \<Rightarrow> string \<Rightarrow> nat \<Rightarrow> nat option" where
  "walk_chain dAttrs sName uPos =
    (if uPos = 0xFFFF then Some uPos
     else if uPos \<ge> length dAttrs then None
     else if m_sName (dAttrs ! uPos) = sName then Some uPos
     else walk_chain dAttrs sName (m_uNext (dAttrs ! uPos)))"

definition short_of :: "nat \<Rightarrow> int" where
  "short_of u = (if u < 0x8000 then int u else int u - 0x10000)"

fun scan_names :: "string \<Rightarrow> int \<Rightarrow> CSphColumnInfo list \<Rightarrow> int" where
  "scan_names sName i [] = -1"
| "scan_names sName i (c # dAttrs) = (if m_sName c = sName then i else scan_names sName (i + 1) dAttrs)"

definition GetAttrIndex :: "string \<Rightarrow> CSphSchema \<Rightarrow> int option" where
  "GetAttrIndex sName s =
    (if length (m_dAttrs s) \<ge> HASH_THRESH
     then map_option short_of (walk_chain (m_dAttrs s) sName (m_dBuckets s ! GetBucketPos sName))
     else Some (scan_names sName 0 (m_dAttrs s)))"

definition GetAttr_name :: "string \<Rightarrow> CSphSchema \<Rightarrow> CSphColumnInfo option option" where
  "GetAttr_name sName s = do {
     iIndex \<leftarrow> GetAttrIndex sName s;
     if iIndex \<ge> 0 then (if nat iIndex < length (m_dAttrs s) then Some (Some (m_dAttrs s ! nat iIndex)) else None) else Some None
   }"

subsection \<open>Changing a schema\<close>

definition store_attr :: "bool \<Rightarrow> DataPtrAttr_t list \<times> CSphColumnInfo list \<times> int list \<Rightarrow> CSphSchema \<Rightarrow> CSphSchema" where
  "store_attr bDynamic r s =
    (let s = s\<lparr>m_dDataPtrAttrs := fst r, m_dAttrs := fst (snd r)\<rparr>
     in if bDynamic then s\<lparr>m_dDynamicUsed := snd (snd r)\<rparr> else s\<lparr>m_dStaticUsed := snd (snd r)\<rparr>)"

definition update_field_lens :: "int \<Rightarrow> CSphColumnInfo \<Rightarrow> CSphSchema \<Rightarrow> CSphSchema" where
  "update_field_lens iPos tCol s =
    (if m_eAttrType tCol = SPH_ATTR_TOKENCOUNT
     then s\<lparr>m_iFirstFieldLenAttr := (if m_iFirstFieldLenAttr s = -1 then iPos else min (m_iFirstFieldLenAttr s) iPos),
            m_iLastFieldLenAttr := max (m_iLastFieldLenAttr s) iPos\<rparr>
     else s)"

definition hash_attr :: "int \<Rightarrow> CSphSchema \<Rightarrow> CSphSchema" where
  "hash_attr iPos s =
    (if length (m_dAttrs s) = HASH_THRESH then RebuildHash s
     else if length (m_dAttrs s) > HASH_THRESH then hash_push (nat iPos) s
     else s)"

definition CSphSchema_InsertAttr :: "int \<Rightarrow> CSphColumnInfo \<Rightarrow> bool \<Rightarrow> CSphSchema \<Rightarrow> CSphSchema option" where
  "CSphSchema_InsertAttr iPos tCol bDynamic s =
    (let s = if iPos \<noteq> int (length (m_dAttrs s)) then UpdateHash (iPos - 1) 1 s else s in
     map_option
       (\<lambda>r. let s = hash_attr iPos (update_field_lens iPos tCol (store_attr bDynamic r s)) in s\<lparr>m_iRowSize := GetRowSize s\<rparr>)
       (SchemaHelper_InsertAttr (m_dDataPtrAttrs s) (m_dAttrs s) (if bDynamic then m_dDynamicUsed s else m_dStaticUsed s) iPos tCol bDynamic))"

definition CSphSchema_AddAttr :: "CSphColumnInfo \<Rightarrow> bool \<Rightarrow> CSphSchema \<Rightarrow> CSphSchema option" where
  "CSphSchema_AddAttr tCol bDynamic s = CSphSchema_InsertAttr (int (length (m_dAttrs s))) tCol bDynamic s"

fun add_attrs :: "(CSphColumnInfo \<Rightarrow> bool) \<Rightarrow> CSphColumnInfo list \<Rightarrow> CSphSchema \<Rightarrow> CSphSchema option" where
  "add_attrs dyn [] s = Some s"
| "add_attrs dyn (c # cs) s = do { s \<leftarrow> CSphSchema_AddAttr c (dyn c) s; add_attrs dyn cs s }"

definition list_remove :: "nat \<Rightarrow> 'a list \<Rightarrow> 'a list" where
  "list_remove i xs = take i xs @ drop (Suc i) xs"

definition CSphSchema_RemoveAttr :: "string \<Rightarrow> bool \<Rightarrow> CSphSchema \<Rightarrow> CSphSchema option" where
  "CSphSchema_RemoveAttr szAttr bDynamic s = do {
     iIndex \<leftarrow> GetAttrIndex szAttr s;
     if iIndex < 0 then Some s
     else let dBackup = m_dAttrs s;
              s = if bDynamic then s\<lparr>m_dDynamicUsed := []\<rparr> else s\<lparr>m_dStaticUsed := []\<rparr>;
              s = (ResetSchemaHelper s)\<lparr>m_iFirstFieldLenAttr := -1, m_iLastFieldLenAttr := -1, m_dAttrs := []\<rparr>
          in add_attrs (\<lambda>_. bDynamic) (list_remove (nat iIndex) dBackup) s
   }"

definition RebuildLocators :: "CSphSchema \<Rightarrow> CSphSchema option" where
  "RebuildLocators s =
    (let dBackup = m_dAttrs s;
         s = (ResetSchemaHelper (s\<lparr>m_dDynamicUsed := [], m_dStaticUsed := []\<rparr>))\<lparr>m_dAttrs := [], m_iFirstFieldLenAttr := -1, m_iLastFieldLenAttr := -1\<rparr>
     in add_attrs (\<lambda>c. m_bDynamic (m_tLocator c)) dBackup s)"

subsection \<open>Fields and comparison\<close>

definition strcasecmp_eq :: "string \<Rightarrow> string \<Rightarrow> bool" where
  "strcasecmp_eq a b \<longleftrightarrow> map char_lower a = map char_lower b"

fun scan_fields :: "string \<Rightarrow> int \<Rightarrow> CSphColumnInfo list \<Rightarrow> int" where
  "scan_fields sName i [] = -1"
| "scan_fields sName i (c # dFields) = (if strcasecmp_eq (m_sName c) sName then i else scan_fields sName (i + 1) dFields)"

definition GetFieldIndex :: "string \<Rightarrow> CSphSchema \<Rightarrow> int" where
  "GetFieldIndex sName s = scan_fields sName 0 (m_dFields s)"

definition AddField :: "CSphColumnInfo \<Rightarrow> CSphSchema \<Rightarrow> CSphSchema" where
  "AddField tField s = s\<lparr>m_dFields := m_dFields s @ [tField]\<rparr>"

definition RemoveField_at :: "int \<Rightarrow> CSphSchema \<Rightarrow> CSphSchema option" where
  "RemoveField_at iIdx s =
    (if iIdx \<ge> 0 then if nat iIdx < length (m_dFields s) then Some (s\<lparr>m_dFields := list_remove (nat iIdx) (m_dFields s)\<rparr>) else None
     else Some s)"

definition RemoveField :: "string \<Rightarrow> CSphSchema \<Rightarrow> CSphSchema option" where
  "RemoveField szFieldName s = RemoveField_at (GetFieldIndex szFieldName s) s"

text \<open>The error message of \<^verbatim>\<open>CompareTo\<close>, which names the position it stopped at; none when the schemas match.\<close>

datatype SchemaError = AttrCountMismatch int int | AttrMismatch nat | FieldCountMismatch int int | FieldMismatch nat | FieldFlagMismatch nat

definition attr_mismatch :: "bool \<Rightarrow> CSphColumnInfo \<Rightarrow> CSphColumnInfo \<Rightarrow> bool" where
  "attr_mismatch bFullComparison tAttr1 tAttr2 \<longleftrightarrow>
    (if bFullComparison then \<not> ColumnInfo_eq tAttr1 tAttr2
     else m_sName tAttr1 \<noteq> m_sName tAttr2 \<or> m_eAttrType tAttr1 \<noteq> m_eAttrType tAttr2 \<or> m_eWordpart tAttr1 \<noteq> m_eWordpart tAttr2 \<or>
       m_iBitCount (m_tLocator tAttr1) \<noteq> m_iBitCount (m_tLocator tAttr2) \<or> m_iBitOffset (m_tLocator tAttr1) \<noteq> m_iBitOffset (m_tLocator tAttr2))"

fun compare_attrs :: "bool \<Rightarrow> nat \<Rightarrow> CSphColumnInfo list \<Rightarrow> CSphColumnInfo list \<Rightarrow> SchemaError option" where
  "compare_attrs bFull i (r # rs) (c # cs) = (if attr_mismatch bFull r c then Some (AttrMismatch i) else compare_attrs bFull (i + 1) rs cs)"
| "compare_attrs bFull i _ _ = None"

fun compare_fields :: "bool \<Rightarrow> nat \<Rightarrow> CSphColumnInfo list \<Rightarrow> CSphColumnInfo list \<Rightarrow> SchemaError option" where
  "compare_fields bLoad i (r # rs) (c # cs) =
    (if m_sName r \<noteq> m_sName c then Some (FieldMismatch i)
     else let uFlags1 = m_uFieldFlags r; uFlags2 = m_uFieldFlags c;
              uFlags1 = if bLoad then uFlags1 AND NOT FIELD_STORED else uFlags1;
              uFlags2 = if bLoad then uFlags2 AND NOT FIELD_STORED else uFlags2
          in if uFlags1 \<noteq> uFlags2 then Some (FieldFlagMismatch i) else compare_fields bLoad (i + 1) rs cs)"
| "compare_fields bLoad i _ _ = None"

definition CompareTo :: "CSphSchema \<Rightarrow> CSphSchema \<Rightarrow> bool \<Rightarrow> bool \<Rightarrow> SchemaError option" where
  "CompareTo s rhs bFullComparison bIndexLoadCheck =
    (if length (m_dAttrs s) \<noteq> length (m_dAttrs rhs) then Some (AttrCountMismatch (int (length (m_dAttrs s))) (int (length (m_dAttrs rhs))))
     else case compare_attrs bFullComparison 0 (m_dAttrs rhs) (m_dAttrs s) of
       Some e \<Rightarrow> Some e
     | None \<Rightarrow>
       if length (m_dFields rhs) \<noteq> length (m_dFields s) then Some (FieldCountMismatch (int (length (m_dFields s))) (int (length (m_dFields rhs))))
       else compare_fields bIndexLoadCheck 0 (m_dFields rhs) (m_dFields s))"

text \<open>\<^verbatim>\<open>sphFixupLocator\<close> moves a locator from one schema to the attribute of the same name in another.\<close>

fun fixup_loop :: "CSphAttrLocator \<Rightarrow> CSphColumnInfo list \<Rightarrow> CSphSchema \<Rightarrow> CSphAttrLocator option" where
  "fixup_loop tLocator [] new = Some tLocator"
| "fixup_loop tLocator (c # cs) new =
    (if Locator_eq tLocator (m_tLocator c)
     then do {
       pAttr \<leftarrow> GetAttr_name (m_sName c) new;
       case pAttr of Some a \<Rightarrow> Some (m_tLocator a) | None \<Rightarrow> fixup_loop tLocator cs new
     } else fixup_loop tLocator cs new)"

definition sphFixupLocator :: "CSphAttrLocator \<Rightarrow> CSphSchema option \<Rightarrow> CSphSchema option \<Rightarrow> CSphAttrLocator option" where
  "sphFixupLocator tLocator pOldSchema pNewSchema =
    (case pOldSchema of
       None \<Rightarrow> Some tLocator
     | Some old \<Rightarrow>
       if m_iBlobAttrId tLocator = -1 \<and> m_iBitCount tLocator = -1 then Some tLocator
       else case pNewSchema of None \<Rightarrow> None | Some new \<Rightarrow> fixup_loop tLocator (m_dAttrs old) new)"

end
