(* ===== verification/Schema_Layout.thy ===== *)
theory Schema_Layout
  imports Schema
begin

text \<open>
  Where the attributes of a schema lie in its rows: every attribute kept in the row has bits of its own inside
  the row, pointer attributes are described exactly, blob attributes are numbered in order.
\<close>

section \<open>Bits of a row\<close>

definition used_ok :: "int list \<Rightarrow> bool" where
  "used_ok dUsed \<longleftrightarrow> (\<forall>u\<in>set dUsed. 0 \<le> u \<and> u \<le> 32)"

definition used_bits :: "int list \<Rightarrow> nat set" where
  "used_bits dUsed = {i. i div 32 < length dUsed \<and> int (i mod 32) < dUsed ! (i div 32)}"

definition bits_ok :: "int \<Rightarrow> bool" where
  "bits_ok b \<longleftrightarrow> 0 < b \<and> b \<le> 32 \<or> b = 64"

lemma used_bits_below: "used_bits dUsed \<subseteq> {..<32 * length dUsed}"
  by (auto simp: used_bits_def)

lemma used_bits_append: "used_bits (xs @ ys) = used_bits xs \<union> {i. length xs \<le> i div 32 \<and> i - 32 * length xs \<in> used_bits ys}"
proof (rule set_eqI)
  fix i
  have "i div 32 < length xs + length ys \<longleftrightarrow> (i - 32 * length xs) div 32 < length ys" "(i - 32 * length xs) div 32 = i div 32 - length xs"
    "(i - 32 * length xs) mod 32 = i mod 32" if "length xs \<le> i div 32"
  proof -
    have "32 * length xs \<le> 32 * (i div 32)" "32 * (i div 32) \<le> i" using that by simp_all
    then obtain j where "i = 32 * length xs + j" using le_Suc_ex[of "32 * length xs" i] by fastforce
    then show "i div 32 < length xs + length ys \<longleftrightarrow> (i - 32 * length xs) div 32 < length ys" "(i - 32 * length xs) div 32 = i div 32 - length xs"
      "(i - 32 * length xs) mod 32 = i mod 32" by auto
  qed
  then show "i \<in> used_bits (xs @ ys) \<longleftrightarrow> i \<in> used_bits xs \<union> {i. length xs \<le> i div 32 \<and> i - 32 * length xs \<in> used_bits ys}"
    by (cases "length xs \<le> i div 32") (auto simp: used_bits_def nth_append)
qed

lemma used_bits_replicate: "used_bits (replicate n 32) = {..<32 * n}"
  by (auto simp: used_bits_def)

lemma used_bits_zero: "used_bits [0] = {}"
  by (auto simp: used_bits_def)

lemma used_bits_update:
  assumes "k < length dUsed" "0 \<le> dUsed ! k" "0 \<le> b" "dUsed ! k + b \<le> 32"
  shows "used_bits (dUsed[k := dUsed ! k + b]) = used_bits dUsed \<union> {32 * k + nat (dUsed ! k) ..< 32 * k + nat (dUsed ! k) + nat b}"
proof (rule set_eqI)
  fix i :: nat
  show "i \<in> used_bits (dUsed[k := dUsed ! k + b]) \<longleftrightarrow> i \<in> used_bits dUsed \<union> {32 * k + nat (dUsed ! k) ..< 32 * k + nat (dUsed ! k) + nat b}"
  proof (cases "i div 32 = k")
    case True
    obtain m where m: "i = 32 * k + m" "m < 32" using mult_div_mod_eq[of 32 i] True mod_less_divisor[of 32 i] by (metis zero_less_numeral)
    obtain u n where un: "dUsed ! k = int u" "b = int n" using assms(2,3) zero_le_imp_eq_int by metis
    show ?thesis using assms un by (simp add: used_bits_def m) linarith
  next
    case False
    have "i div 32 = k" if "32 * k + nat (dUsed ! k) \<le> i" "i < 32 * k + nat (dUsed ! k) + nat b"
      using that assms by (intro div_nat_eqI) auto
    then show ?thesis using assms False by (auto simp: used_bits_def)
  qed
qed

lemma find_item_le: "find_item dUsed b \<le> length dUsed"
  by (induction dUsed b rule: find_item.induct) auto

lemma find_item_fits: "find_item dUsed b < length dUsed \<Longrightarrow> dUsed ! find_item dUsed b + b \<le> 32"
  by (induction dUsed b rule: find_item.induct) (auto simp: ROWITEM_BITS_def split: if_splits)

text \<open>New bits are bits nothing else uses.\<close>

lemma alloc_bits_fresh:
  assumes "used_ok dUsed" "bits_ok b" "alloc_bits dUsed b = (off, dUsed')" "m_iBitOffset l = off" "m_iBitCount l = b"
  shows "used_ok dUsed'" "length dUsed \<le> length dUsed'" "loc_ok (replicate (length dUsed') 0) l" "loc_bits l \<inter> used_bits dUsed = {}"
    "used_bits dUsed' = used_bits dUsed \<union> loc_bits l"
proof -
  let ?n = "length dUsed"
  have "used_ok dUsed' \<and> ?n \<le> length dUsed' \<and> loc_ok (replicate (length dUsed') 0) l \<and> loc_bits l \<inter> used_bits dUsed = {} \<and>
    used_bits dUsed' = used_bits dUsed \<union> loc_bits l"
  proof (cases "b \<ge> 32")
    case True
    then obtain k where k: "b = int (32 * k)" "k \<in> {1, 2}" using assms(2) that[of 1] that[of 2] by (auto simp: bits_ok_def)
    have e: "(b + 31) div 32 = int k" using k by auto
    have off: "off = int (32 * ?n)" "dUsed' = dUsed @ replicate k 32"
      using assms(3) True e by (auto simp: alloc_bits_def ROWITEM_BITS_def)
    have lb: "loc_bits l = {32 * ?n ..< 32 * ?n + 32 * k}" unfolding loc_bits_def assms(4,5) off(1) k(1) nat_int ..
    have "{i. ?n \<le> i div 32 \<and> i - 32 * ?n \<in> {..<32 * k}} = {32 * ?n ..< 32 * ?n + 32 * k}" by auto
    then have "used_bits dUsed' = used_bits dUsed \<union> loc_bits l" unfolding off(2) lb by (simp only: used_bits_append used_bits_replicate)
    moreover have "used_ok dUsed'" using assms(1) off by (auto simp: used_ok_def)
    moreover have "loc_ok (replicate (length dUsed') 0) l" using assms(4,5) off k by (auto simp: loc_ok_def)
    moreover have "loc_bits l \<inter> used_bits dUsed = {}" using used_bits_below[of dUsed] lb by auto
    ultimately show ?thesis using off by simp
  next
    case False
    define i where "i = find_item dUsed b"
    define d where "d = (if i = ?n then dUsed @ [0] else dUsed)"
    have b: "0 < b" "b < 32" using assms(2) False by (auto simp: bits_ok_def)
    have i: "i < length d" "d ! i + b \<le> 32" "?n \<le> length d" using find_item_le[of dUsed b] find_item_fits[of dUsed b] b by (auto simp: d_def i_def)
    have d: "used_ok d" "used_bits d = used_bits dUsed" using assms(1) by (auto simp: d_def used_ok_def used_bits_append used_bits_zero)
    have u: "0 \<le> d ! i" using d(1) i(1) by (auto simp: used_ok_def)
    have off: "off = int (32 * i) + d ! i" "dUsed' = d[i := d ! i + b]"
      using assms(3) False by (auto simp: alloc_bits_def ROWITEM_BITS_def d_def i_def Let_def)
    have "nat off = 32 * i + nat (d ! i)" using off u by linarith
    then have lb: "loc_bits l = {32 * i + nat (d ! i) ..< 32 * i + nat (d ! i) + nat b}" using assms(4,5) by (simp add: loc_bits_def)
    have "used_bits dUsed' = used_bits dUsed \<union> loc_bits l"
      using used_bits_update[OF i(1) u _ i(2)] b off d lb by simp
    moreover have "used_ok dUsed'" using d(1) i u b off by (auto simp: used_ok_def dest!: set_update_subset_insert[THEN subsetD])
    moreover have "loc_ok (replicate (length dUsed') 0) l"
    proof -
      have "off mod 32 = d ! i" "int (32 * i) + 32 \<le> int (32 * length d)" using off u i b by auto
      then show ?thesis using assms(4,5) off u i b by (auto simp: loc_ok_def)
    qed
    moreover have "loc_bits l \<inter> used_bits d = {}"
    proof -
      have "j \<notin> used_bits d" if "j \<in> loc_bits l" for j
      proof -
        have "j div 32 = i" using that lb i b u by (intro div_nat_eqI) auto
        moreover have "32 * i + j mod 32 = j" "32 * i + nat (d ! i) \<le> j" using mult_div_mod_eq[of 32 j] calculation that lb by auto
        then have "int (j mod 32) \<ge> d ! i" using u by linarith
        ultimately show ?thesis by (simp add: used_bits_def)
      qed
      then show ?thesis by blast
    qed
    ultimately show ?thesis using i(3) off d by simp
  qed
  then show "used_ok dUsed'" "?n \<le> length dUsed'" "loc_ok (replicate (length dUsed') 0) l" "loc_bits l \<inter> used_bits dUsed = {}"
    "used_bits dUsed' = used_bits dUsed \<union> loc_bits l" by blast+
qed

section \<open>Attributes of a schema\<close>

text \<open>What a column handed to a schema must be: of a type, a width the accessors can read, and a pointer only in the row.\<close>

definition col_ok :: "CSphColumnInfo \<Rightarrow> bool" where
  "col_ok c \<longleftrightarrow> m_eAttrType c \<noteq> SPH_ATTR_NONE \<and> (m_iBitCount (m_tLocator c) \<le> 32 \<or> m_iBitCount (m_tLocator c) = 64) \<and>
    (IsDataPtr c \<longrightarrow> \<not> IsColumnar c)"

definition in_row :: "CSphColumnInfo \<Rightarrow> bool" where
  "in_row c \<longleftrightarrow> \<not> IsColumnar c \<and> \<not> sphIsBlobAttr c"

definition fits :: "int list \<Rightarrow> int list \<Rightarrow> CSphColumnInfo \<Rightarrow> bool" where
  "fits dyn stat c \<longleftrightarrow> (in_row c \<longrightarrow>
    (let used = if m_bDynamic (m_tLocator c) then dyn else stat in
     loc_ok (replicate (length used) 0) (m_tLocator c) \<and> loc_bits (m_tLocator c) \<subseteq> used_bits used))"

definition apart :: "CSphColumnInfo \<Rightarrow> CSphColumnInfo \<Rightarrow> bool" where
  "apart a b \<longleftrightarrow> (in_row a \<and> in_row b \<and> m_bDynamic (m_tLocator a) = m_bDynamic (m_tLocator b) \<longrightarrow>
    loc_bits (m_tLocator a) \<inter> loc_bits (m_tLocator b) = {})"

definition ptr_desc :: "CSphColumnInfo \<Rightarrow> DataPtrAttr_t" where
  "ptr_desc c = \<lparr>m_iRowitem = m_iBitOffset (m_tLocator c) div 32, m_eType = m_eAttrType c\<rparr>"

definition ptr_ok :: "CSphColumnInfo \<Rightarrow> bool" where
  "ptr_ok c \<longleftrightarrow> (IsDataPtr c \<longrightarrow> m_bDynamic (m_tLocator c) \<and> m_iBitCount (m_tLocator c) = 64)"

definition blobs_numbered :: "CSphColumnInfo list \<Rightarrow> bool" where
  "blobs_numbered dAttrs \<longleftrightarrow>
    (let dLocs = map m_tLocator (filter sphIsBlobAttr dAttrs) in
     map m_iBlobAttrId dLocs = map int [0..<length dLocs] \<and> (\<forall>l\<in>set dLocs. m_nBlobAttrs l = int (length dLocs)))"

definition rows_ok :: "DataPtrAttr_t list \<Rightarrow> CSphColumnInfo list \<Rightarrow> int list \<Rightarrow> int list \<Rightarrow> bool" where
  "rows_ok dPtrs dAttrs dyn stat \<longleftrightarrow> used_ok dyn \<and> used_ok stat \<and> (\<forall>c\<in>set dAttrs. col_ok c \<and> fits dyn stat c \<and> ptr_ok c) \<and>
    sorted_wrt apart dAttrs \<and> mset dPtrs = image_mset ptr_desc (filter_mset IsDataPtr (mset dAttrs))"

definition layout_ok :: "CSphSchema \<Rightarrow> bool" where
  "layout_ok s \<longleftrightarrow> rows_ok (m_dDataPtrAttrs s) (m_dAttrs s) (m_dDynamicUsed s) (m_dStaticUsed s) \<and> blobs_numbered (m_dAttrs s)"

lemma apart_sym: "apart a b = apart b a"
  by (auto simp: apart_def)

lemma fits_mono:
  assumes "fits d st c" "length d \<le> length d'" "length st \<le> length st'" "used_bits d \<subseteq> used_bits d'" "used_bits st \<subseteq> used_bits st'"
  shows "fits d' st' c"
  using assms by (auto simp: fits_def loc_ok_def Let_def split: if_splits)

lemma list_insert_set [simp]: "set (list_insert i x xs) = insert x (set xs)"
  using append_take_drop_id[of i xs] by (metis list_insert_def list.set(2) set_append Un_insert_right)

lemma list_insert_mset [simp]: "mset (list_insert i x xs) = add_mset x (mset xs)"
  using arg_cong[OF append_take_drop_id[of i xs], of mset, unfolded mset_append] by (simp add: list_insert_def)

lemma list_insert_map: "map f (list_insert i x xs) = list_insert i (f x) (map f xs)"
  by (simp add: list_insert_def take_map drop_map)

lemma list_insert_length [simp]: "length (list_insert i x xs) = Suc (length xs)"
  by (simp add: list_insert_def)

lemma sorted_wrt_insert:
  assumes "sorted_wrt apart xs" "\<forall>y\<in>set xs. apart x y"
  shows "sorted_wrt apart (list_insert i x xs)"
proof -
  have "sorted_wrt apart (take i xs @ drop i xs)" "\<forall>y\<in>set (take i xs) \<union> set (drop i xs). apart x y"
    using assms by (auto dest: in_set_takeD in_set_dropD)
  then show ?thesis unfolding list_insert_def sorted_wrt_append by (auto simp: apart_sym[of _ x])
qed

text \<open>Numbering the blob attributes leaves the others alone.\<close>

definition same_row :: "CSphColumnInfo \<Rightarrow> CSphColumnInfo \<Rightarrow> bool" where
  "same_row a b \<longleftrightarrow> m_sName b = m_sName a \<and> m_eAttrType b = m_eAttrType a \<and> m_uAttrFlags b = m_uAttrFlags a \<and>
    m_iBitCount (m_tLocator b) = m_iBitCount (m_tLocator a) \<and> m_bDynamic (m_tLocator b) = m_bDynamic (m_tLocator a) \<and>
    m_iBitOffset (m_tLocator b) = m_iBitOffset (m_tLocator a)"

lemma same_row_preds:
  assumes "same_row a b"
  shows "sphIsBlobAttr b = sphIsBlobAttr a" "IsColumnar b = IsColumnar a" "IsDataPtr b = IsDataPtr a" "in_row b = in_row a"
    "col_ok b = col_ok a" "ptr_ok b = ptr_ok a" "ptr_desc b = ptr_desc a" "fits d st b = fits d st a" "loc_bits (m_tLocator b) = loc_bits (m_tLocator a)"
  using assms by (auto simp: same_row_def sphIsBlobAttr_def IsColumnar_def IsDataPtr_def in_row_def col_ok_def ptr_ok_def ptr_desc_def fits_def
      loc_ok_def loc_bits_def)

lemma renumber_same: "list_all2 same_row xs (map (set_blob_counts n b) (number_blobs k xs))"
  by (induction k xs rule: number_blobs.induct) (auto simp: same_row_def set_blob_counts_def)

lemma same_rows_ok:
  assumes "list_all2 same_row xs ys" "rows_ok dPtrs xs dyn stat"
  shows "rows_ok dPtrs ys dyn stat"
proof -
  have "map ptr_desc (filter IsDataPtr ys) = map ptr_desc (filter IsDataPtr xs)"
    using assms(1) by (induction rule: list_all2_induct) (auto simp: same_row_preds)
  then have "image_mset ptr_desc (filter_mset IsDataPtr (mset ys)) = image_mset ptr_desc (filter_mset IsDataPtr (mset xs))"
    by (metis mset_filter mset_map)
  moreover have n: "length ys = length xs" "i < length xs \<Longrightarrow> same_row (xs ! i) (ys ! i)" for i
    using assms(1) by (auto simp: list_all2_conv_all_nth)
  have "apart (ys ! i) (ys ! j) = apart (xs ! i) (xs ! j)" if "i < length xs" "j < length xs" for i j
    using same_row_preds[OF n(2)[OF that(1)]] same_row_preds[OF n(2)[OF that(2)]] n(2)[OF that(1)] n(2)[OF that(2)] by (simp add: apart_def same_row_def)
  then have "sorted_wrt apart ys" using assms(2) n(1) by (auto simp: rows_ok_def sorted_wrt_iff_nth_less)
  moreover have "\<forall>c\<in>set ys. col_ok c \<and> fits dyn stat c \<and> ptr_ok c"
    unfolding all_set_conv_all_nth n(1)
  proof (intro allI impI)
    fix i assume i: "i < length xs"
    then have "xs ! i \<in> set xs" by simp
    then show "col_ok (ys ! i) \<and> fits dyn stat (ys ! i) \<and> ptr_ok (ys ! i)"
      using assms(2) same_row_preds[OF n(2)[OF i]] by (simp add: rows_ok_def)
  qed
  ultimately show ?thesis using assms(2) by (simp add: rows_ok_def)
qed

lemma number_blobs_ids: "map (\<lambda>c. m_iBlobAttrId (m_tLocator c)) (filter sphIsBlobAttr (number_blobs k xs)) =
  map (\<lambda>j. k + int j) [0..<length (filter sphIsBlobAttr xs)]"
proof (induction k xs rule: number_blobs.induct)
  case (2 k c xs)
  have "sphIsBlobAttr (c\<lparr>m_tLocator := l\<rparr>) = sphIsBlobAttr c" for l by (simp add: sphIsBlobAttr_def IsColumnar_def)
  moreover have "map (\<lambda>j. k + int j) [0..<Suc n] = k # map (\<lambda>j. k + 1 + int j) [0..<n]" for n
    by (simp add: upt_conv_Cons map_Suc_upt[symmetric] del: upt_Suc)
  ultimately show ?case using 2 by (simp del: upt_Suc)
qed simp

lemma renumber_numbered: "blobs_numbered (map (set_blob_counts (count_blobs xs) b) (number_blobs 0 xs))"
proof -
  let ?f = "set_blob_counts (count_blobs xs) b"
  have p: "sphIsBlobAttr (?f c) = sphIsBlobAttr c" "m_iBlobAttrId (m_tLocator (?f c)) = m_iBlobAttrId (m_tLocator c)" for c
    by (auto simp: set_blob_counts_def sphIsBlobAttr_def IsColumnar_def)
  have l: "length (filter sphIsBlobAttr (number_blobs 0 xs)) = length (filter sphIsBlobAttr xs)"
    using arg_cong[OF number_blobs_ids[of 0 xs], of length] by simp
  have "filter sphIsBlobAttr (map ?f ys) = map ?f (filter sphIsBlobAttr ys)" for ys using p by (induction ys) auto
  then show ?thesis using number_blobs_ids[of 0 xs] l p
    by (auto simp: blobs_numbered_def comp_def set_blob_counts_def count_blobs_def)
qed

lemma attr_bits_ok: "col_ok c \<Longrightarrow> bits_ok (attr_bits c)"
  by (auto simp: col_ok_def bits_ok_def attr_bits_def ROWITEM_BITS_def ROWITEMPTR_BITS_def Let_def)

lemma blobs_numbered_insert:
  assumes "\<not> sphIsBlobAttr x"
  shows "blobs_numbered (list_insert i x xs) = blobs_numbered xs"
proof -
  have "filter sphIsBlobAttr (list_insert i x xs) = filter sphIsBlobAttr (take i xs @ drop i xs)"
    using assms by (simp only: list_insert_def filter_append) simp
  then show ?thesis by (simp add: blobs_numbered_def)
qed

text \<open>Adding a column to rows that are in order.\<close>

lemma rows_ok_insert:
  assumes "rows_ok dPtrs dAttrs dyn stat" "col_ok x" "ptr_ok x" "used_ok dyn'" "used_ok stat'" "fits dyn' stat' x"
    "length dyn \<le> length dyn'" "length stat \<le> length stat'" "used_bits dyn \<subseteq> used_bits dyn'" "used_bits stat \<subseteq> used_bits stat'"
    "in_row x \<Longrightarrow> loc_bits (m_tLocator x) \<inter> used_bits (if m_bDynamic (m_tLocator x) then dyn else stat) = {}"
    "mset dPtrs' = mset dPtrs + (if IsDataPtr x then {#ptr_desc x#} else {#})"
  shows "rows_ok dPtrs' (list_insert i x dAttrs) dyn' stat'"
proof -
  have "apart x c" if "c \<in> set dAttrs" for c
  proof -
    have "fits dyn stat c" using assms(1) that by (simp add: rows_ok_def)
    then show ?thesis using assms(11) by (auto simp: fits_def apart_def Let_def disjoint_iff split: if_splits)
  qed
  moreover have "fits dyn' stat' c" if "c \<in> set dAttrs" for c
    using fits_mono[OF _ assms(7-10)] assms(1) that by (simp add: rows_ok_def)
  ultimately show ?thesis using assms(1-6,12) by (auto simp: rows_ok_def sorted_wrt_insert)
qed

lemma helper_insert_ok:
  assumes "rows_ok dPtrs dAttrs dyn stat" "blobs_numbered dAttrs" "col_ok tCol"
    "SchemaHelper_InsertAttr dPtrs dAttrs (if b then dyn else stat) iPos tCol b = Some (dPtrs', dAttrs', dUsed')"
  shows "rows_ok dPtrs' dAttrs' (if b then dUsed' else dyn) (if b then stat else dUsed') \<and> blobs_numbered dAttrs'"
proof -
  let ?u = "if b then dyn else stat"
  let ?l = "(m_tLocator tCol)\<lparr>m_iBitCount := attr_bits tCol, m_bDynamic := b\<rparr>"
  let ?p = "if IsDataPtr tCol then dPtrs @ [\<lparr>m_iRowitem = int (length ?u), m_eType = m_eAttrType tCol\<rparr>] else dPtrs"
  have u: "used_ok dyn" "used_ok stat" using assms(1) by (auto simp: rows_ok_def)
  have g: "IsDataPtr tCol \<Longrightarrow> b" using assms(4) by (auto simp: SchemaHelper_InsertAttr_def split: if_splits)
  have pr: "IsColumnar (tCol\<lparr>m_tLocator := l\<rparr>) = IsColumnar tCol" "sphIsBlobAttr (tCol\<lparr>m_tLocator := l\<rparr>) = sphIsBlobAttr tCol"
    "IsDataPtr (tCol\<lparr>m_tLocator := l\<rparr>) = IsDataPtr tCol" "in_row (tCol\<lparr>m_tLocator := l\<rparr>) = in_row tCol" for l
    by (auto simp: IsColumnar_def sphIsBlobAttr_def IsDataPtr_def in_row_def)
  have bits: "bits_ok (attr_bits tCol)" by (rule attr_bits_ok[OF assms(3)])
  consider (col) "IsColumnar tCol" | (blob) "sphIsBlobAttr tCol" "\<not> IsColumnar tCol" | (row) "in_row tCol" by (auto simp: in_row_def)
  then show ?thesis
  proof cases
    case col
    let ?x = "tCol\<lparr>m_tLocator := ?l\<lparr>m_iBitOffset := 0\<rparr>\<rparr>"
    have nb: "\<not> sphIsBlobAttr ?x" "\<not> in_row ?x" "\<not> IsDataPtr tCol" using col pr assms(3) by (auto simp: sphIsBlobAttr_def in_row_def col_ok_def)
    have r: "dPtrs' = dPtrs" "dAttrs' = list_insert (nat iPos) ?x dAttrs" "dUsed' = ?u"
      using assms(4) col nb(3) by (auto simp: SchemaHelper_InsertAttr_def Let_def split: if_splits)
    have "col_ok ?x" "ptr_ok ?x" "fits dyn stat ?x" "\<not> IsDataPtr ?x"
      using assms(3) bits nb pr by (auto simp: col_ok_def bits_ok_def ptr_ok_def fits_def)
    then have "rows_ok dPtrs (list_insert (nat iPos) ?x dAttrs) dyn stat"
      by (intro rows_ok_insert[OF assms(1)]) (use u nb in auto)
    moreover have "(if b then dUsed' else dyn) = dyn" "(if b then stat else dUsed') = stat" by (auto simp: r)
    ultimately show ?thesis using assms(2) nb r(1,2) by (simp only: blobs_numbered_insert simp_thms)
  next
    case blob
    let ?x = "tCol\<lparr>m_tLocator := ?l\<lparr>m_iBitCount := 0, m_iBitOffset := 0\<rparr>\<rparr>"
    have nb: "\<not> in_row ?x" "\<not> IsDataPtr tCol" using blob pr
      by (auto simp: sphIsBlobAttr_def sphIsBlobType_def IsDataPtr_def sphIsDataPtrAttr_def in_row_def)
    obtain n c where r: "dPtrs' = dPtrs" "dAttrs' = map (set_blob_counts (count_blobs (list_insert (nat iPos) ?x dAttrs)) c)
        (number_blobs 0 (list_insert (nat iPos) ?x dAttrs))" "dUsed' = ?u"
      using assms(4) blob nb(2) by (auto simp: SchemaHelper_InsertAttr_def Let_def split: if_splits)
    have "col_ok ?x" "ptr_ok ?x" "fits dyn stat ?x" "\<not> IsDataPtr ?x"
      using assms(3) bits nb pr by (auto simp: col_ok_def bits_ok_def ptr_ok_def fits_def)
    then have "rows_ok dPtrs (list_insert (nat iPos) ?x dAttrs) dyn stat"
      by (intro rows_ok_insert[OF assms(1)]) (use u nb in auto)
    moreover have "(if b then dUsed' else dyn) = dyn" "(if b then stat else dUsed') = stat" by (auto simp: r)
    ultimately show ?thesis using same_rows_ok[OF renumber_same] r(1,2) renumber_numbered by (simp only:)
  next
    case row
    obtain off used where al: "alloc_bits ?u (attr_bits tCol) = (off, used)" by fastforce
    let ?x = "tCol\<lparr>m_tLocator := ?l\<lparr>m_iBitOffset := off\<rparr>\<rparr>"
    have r: "dPtrs' = ?p" "dAttrs' = list_insert (nat iPos) ?x dAttrs" "dUsed' = used"
      using assms(4) row al by (auto simp: SchemaHelper_InsertAttr_def Let_def in_row_def split: if_splits)
    have ab: "attr_bits tCol = 64" if "IsDataPtr tCol" using that by (simp add: attr_bits_def Let_def ROWITEMPTR_BITS_def)
    have "off = int (length ?u) * 32" if "IsDataPtr tCol" using al ab[OF that] by (auto simp: alloc_bits_def ROWITEM_BITS_def)
    then have pd: "IsDataPtr tCol \<Longrightarrow> ptr_desc ?x = \<lparr>m_iRowitem = int (length ?u), m_eType = m_eAttrType tCol\<rparr>" by (simp add: ptr_desc_def)
    note fr = alloc_bits_fresh[OF _ bits al, of "?l\<lparr>m_iBitOffset := off\<rparr>"]
    have fr: "used_ok used" "length ?u \<le> length used" "loc_ok (replicate (length used) 0) (?l\<lparr>m_iBitOffset := off\<rparr>)"
      "loc_bits (?l\<lparr>m_iBitOffset := off\<rparr>) \<inter> used_bits ?u = {}" "used_bits used = used_bits ?u \<union> loc_bits (?l\<lparr>m_iBitOffset := off\<rparr>)"
      using u by (intro fr; simp)+
    have "col_ok ?x" using assms(3) bits pr by (auto simp: col_ok_def bits_ok_def)
    moreover have "ptr_ok ?x" using g ab pr by (auto simp: ptr_ok_def)
    moreover have "fits (if b then used else dyn) (if b then stat else used) ?x" using fr by (auto simp: fits_def)
    ultimately have "rows_ok ?p (list_insert (nat iPos) ?x dAttrs) (if b then used else dyn) (if b then stat else used)"
      using fr u pr pd by (intro rows_ok_insert[OF assms(1)]) (auto split: if_splits)
    moreover have "\<not> sphIsBlobAttr ?x" using row pr by (simp add: in_row_def)
    ultimately show ?thesis using assms(2) r by (simp only: blobs_numbered_insert simp_thms)
  qed
qed

section \<open>Operations\<close>

text \<open>The hash links do not matter for the layout.\<close>

definition same_layout :: "CSphSchema \<Rightarrow> CSphSchema \<Rightarrow> bool" where
  "same_layout s t \<longleftrightarrow> list_all2 (\<lambda>a b. same_row a b \<and> m_iBlobAttrId (m_tLocator b) = m_iBlobAttrId (m_tLocator a) \<and>
      m_nBlobAttrs (m_tLocator b) = m_nBlobAttrs (m_tLocator a)) (m_dAttrs s) (m_dAttrs t) \<and>
    m_dDataPtrAttrs t = m_dDataPtrAttrs s \<and> m_dDynamicUsed t = m_dDynamicUsed s \<and> m_dStaticUsed t = m_dStaticUsed s"

lemma same_layout_refl: "same_layout s s"
  by (auto simp: same_layout_def same_row_def list_all2_conv_all_nth)

lemma same_layout_trans: "same_layout s t \<Longrightarrow> same_layout t u \<Longrightarrow> same_layout s u"
  by (auto simp: same_layout_def list_all2_conv_all_nth same_row_def)

lemma same_layout_ok:
  assumes "same_layout s t" "layout_ok s"
  shows "layout_ok t"
proof -
  have l: "list_all2 same_row (m_dAttrs s) (m_dAttrs t)" using assms(1) by (auto simp: same_layout_def elim: list_all2_mono)
  have "map (\<lambda>c. (m_iBlobAttrId (m_tLocator c), m_nBlobAttrs (m_tLocator c))) (filter sphIsBlobAttr (m_dAttrs t)) =
      map (\<lambda>c. (m_iBlobAttrId (m_tLocator c), m_nBlobAttrs (m_tLocator c))) (filter sphIsBlobAttr (m_dAttrs s))" (is "map ?f ?t = map ?f ?s")
  proof -
    have "list_all2 (\<lambda>a b. same_row a b \<and> m_iBlobAttrId (m_tLocator b) = m_iBlobAttrId (m_tLocator a) \<and>
      m_nBlobAttrs (m_tLocator b) = m_nBlobAttrs (m_tLocator a)) (m_dAttrs s) (m_dAttrs t)" using assms(1) by (simp add: same_layout_def)
    then show ?thesis by (induction rule: list_all2_induct) (auto simp: same_row_preds)
  qed
  note m = this
  have "map (m_iBlobAttrId \<circ> m_tLocator) ?t = map (m_iBlobAttrId \<circ> m_tLocator) ?s" "map (m_nBlobAttrs \<circ> m_tLocator) ?t = map (m_nBlobAttrs \<circ> m_tLocator) ?s"
    "length ?t = length ?s"
    using arg_cong[OF m, of "map fst"] arg_cong[OF m, of "map snd"] arg_cong[OF m, of length] by (simp_all add: comp_def)
  moreover from this(2) have "(\<lambda>c. m_nBlobAttrs (m_tLocator c)) ` set ?t = (\<lambda>c. m_nBlobAttrs (m_tLocator c)) ` set ?s"
    by (metis (no_types, lifting) comp_apply image_cong list.set_map)
  ultimately have "blobs_numbered (m_dAttrs t) = blobs_numbered (m_dAttrs s)"
    by (auto simp: blobs_numbered_def Let_def)
  then show ?thesis using same_rows_ok[OF l] assms by (simp add: layout_ok_def same_layout_def)
qed

lemma hash_push_same: "i < length (m_dAttrs s) \<Longrightarrow> same_layout s (hash_push i s)"
  by (auto simp: same_layout_def hash_push_def Let_def list_all2_conv_all_nth same_row_def nth_list_update)

lemma hash_push_length [simp]: "length (m_dAttrs (hash_push i s)) = length (m_dAttrs s)"
  by (simp add: hash_push_def Let_def)

lemma fold_push_same: "\<forall>i\<in>set is. i < length (m_dAttrs s) \<Longrightarrow> same_layout s (fold hash_push is s)"
  by (induction "is" arbitrary: s) (auto intro: same_layout_refl same_layout_trans hash_push_same)

lemma RebuildHash_same: "same_layout s (RebuildHash s)"
proof -
  have "same_layout s (s\<lparr>m_dBuckets := b\<rparr>)" for b by (simp add: same_layout_def list_all2_conv_all_nth same_row_def)
  then show ?thesis unfolding RebuildHash_def
    by (auto intro!: same_layout_refl same_layout_trans[OF _ fold_push_same])
qed

lemma UpdateHash_same: "same_layout s (UpdateHash i n s)"
  by (auto simp: same_layout_def UpdateHash_def list_all2_conv_all_nth same_row_def)

text \<open>The stages of an insertion.\<close>

lemma InsertAttr_stages:
  assumes "CSphSchema_InsertAttr iPos tCol b s = Some s'"
  obtains t r where "t = (if iPos \<noteq> int (length (m_dAttrs s)) then UpdateHash (iPos - 1) 1 s else s)"
    "SchemaHelper_InsertAttr (m_dDataPtrAttrs t) (m_dAttrs t) (if b then m_dDynamicUsed t else m_dStaticUsed t) iPos tCol b = Some r"
    "s' = (hash_attr iPos (update_field_lens iPos tCol (store_attr b r t)))
      \<lparr>m_iRowSize := GetRowSize (hash_attr iPos (update_field_lens iPos tCol (store_attr b r t)))\<rparr>"
  using assms that unfolding CSphSchema_InsertAttr_def Let_def map_option_eq_Some by blast

lemma helper_insert_shape:
  assumes "SchemaHelper_InsertAttr dPtrs dAttrs dUsed iPos tCol b = Some (dPtrs', dAttrs', dUsed')"
  shows "0 \<le> iPos" "iPos \<le> int (length dAttrs)" "map m_sName dAttrs' = list_insert (nat iPos) (m_sName tCol) (map m_sName dAttrs)"
    "map m_uNext dAttrs' = list_insert (nat iPos) (m_uNext tCol) (map m_uNext dAttrs)"
    "map m_eAttrType dAttrs' = list_insert (nat iPos) (m_eAttrType tCol) (map m_eAttrType dAttrs)"
    "map m_uAttrFlags dAttrs' = list_insert (nat iPos) (m_uAttrFlags tCol) (map m_uAttrFlags dAttrs)"
proof -
  have nb: "map f (map (set_blob_counts n c) (number_blobs k xs)) = map f xs" if "\<And>a l. f (a\<lparr>m_tLocator := l\<rparr>) = f a" for f :: "CSphColumnInfo \<Rightarrow> 'x" and n c k xs
    by (induction k xs rule: number_blobs.induct) (auto simp: that set_blob_counts_def)
  show "0 \<le> iPos" "iPos \<le> int (length dAttrs)" using assms by (auto simp: SchemaHelper_InsertAttr_def split: if_splits)
  have "map f dAttrs' = list_insert (nat iPos) (f tCol) (map f dAttrs)" if "\<And>a l. f (a\<lparr>m_tLocator := l\<rparr>) = f a" for f :: "CSphColumnInfo \<Rightarrow> 'x"
    using assms nb[OF that] by (auto simp: SchemaHelper_InsertAttr_def Let_def list_insert_map that split: if_splits prod.splits simp del: map_map)
  note this[of m_sName] this[of m_uNext] this[of m_eAttrType] this[of m_uAttrFlags]
  then show "map m_sName dAttrs' = list_insert (nat iPos) (m_sName tCol) (map m_sName dAttrs)"
    "map m_uNext dAttrs' = list_insert (nat iPos) (m_uNext tCol) (map m_uNext dAttrs)"
    "map m_eAttrType dAttrs' = list_insert (nat iPos) (m_eAttrType tCol) (map m_eAttrType dAttrs)"
    "map m_uAttrFlags dAttrs' = list_insert (nat iPos) (m_uAttrFlags tCol) (map m_uAttrFlags dAttrs)" by simp_all
qed

lemma hash_attr_same: "nat iPos < length (m_dAttrs s) \<Longrightarrow> same_layout s (hash_attr iPos s)"
  by (simp add: hash_attr_def RebuildHash_same hash_push_same same_layout_refl)

lemma stored_fields:
  "m_dDataPtrAttrs (update_field_lens iPos tCol (store_attr b (p, a, u) t)) = p"
  "m_dAttrs (update_field_lens iPos tCol (store_attr b (p, a, u) t)) = a"
  "m_dBuckets (update_field_lens iPos tCol (store_attr b (p, a, u) t)) = m_dBuckets t"
  "m_dDynamicUsed (update_field_lens iPos tCol (store_attr b (p, a, u) t)) = (if b then u else m_dDynamicUsed t)"
  "m_dStaticUsed (update_field_lens iPos tCol (store_attr b (p, a, u) t)) = (if b then m_dStaticUsed t else u)"
  by (simp_all add: update_field_lens_def store_attr_def Let_def)

lemma InsertAttr_layout:
  assumes "layout_ok s" "col_ok tCol" "CSphSchema_InsertAttr iPos tCol b s = Some s'"
  shows "layout_ok s'"
  using assms(3)
proof (cases rule: InsertAttr_stages)
  case (1 t r)
  obtain dPtrs dAttrs dUsed where r: "r = (dPtrs, dAttrs, dUsed)" by (cases r) auto
  let ?u = "update_field_lens iPos tCol (store_attr b r t)"
  have t: "layout_ok t" using same_layout_ok[OF UpdateHash_same assms(1)] assms(1) 1 by simp
  note ins = 1(2)[unfolded r]
  have "rows_ok dPtrs dAttrs (if b then dUsed else m_dDynamicUsed t) (if b then m_dStaticUsed t else dUsed) \<and> blobs_numbered dAttrs"
    using t helper_insert_ok[OF _ _ assms(2) ins] by (simp add: layout_ok_def)
  then have u: "layout_ok ?u" by (simp add: stored_fields layout_ok_def r)
  have "length dAttrs = Suc (length (m_dAttrs t))" using arg_cong[OF helper_insert_shape(3)[OF ins], of length] by simp
  then have "nat iPos < length (m_dAttrs ?u)" using helper_insert_shape(1,2)[OF ins] by (simp add: stored_fields r)
  then have "layout_ok (hash_attr iPos ?u)" using same_layout_ok[OF hash_attr_same u] by simp
  then show ?thesis using 1(3) by (simp add: layout_ok_def)
qed

lemma add_attrs_layout:
  assumes "layout_ok s" "\<forall>c\<in>set cs. col_ok c" "add_attrs dyn cs s = Some s'"
  shows "layout_ok s'"
  using assms
  by (induction cs arbitrary: s) (auto simp: CSphSchema_AddAttr_def bind_Some_conv intro: InsertAttr_layout)

lemma layout_empty: "layout_ok s'" if "m_dAttrs s' = []" "m_dDataPtrAttrs s' = []" "used_ok (m_dDynamicUsed s')" "used_ok (m_dStaticUsed s')"
  using that by (simp add: layout_ok_def rows_ok_def blobs_numbered_def)

lemma layout_cols: "layout_ok s \<Longrightarrow> c \<in> set (m_dAttrs s) \<Longrightarrow> col_ok c"
  by (simp add: layout_ok_def rows_ok_def)

lemma RemoveAttr_layout:
  assumes "layout_ok s" "CSphSchema_RemoveAttr sName b s = Some s'"
  shows "layout_ok s'"
proof -
  obtain i where i: "GetAttrIndex sName s = Some i" using assms(2) by (auto simp: CSphSchema_RemoveAttr_def bind_Some_conv)
  show ?thesis
  proof (cases "i < 0")
    case True
    then show ?thesis using assms i by (simp add: CSphSchema_RemoveAttr_def)
  next
    case False
    define t where "t = (ResetSchemaHelper (if b then s\<lparr>m_dDynamicUsed := []\<rparr> else s\<lparr>m_dStaticUsed := []\<rparr>))
        \<lparr>m_iFirstFieldLenAttr := -1, m_iLastFieldLenAttr := -1, m_dAttrs := []\<rparr>"
    have "add_attrs (\<lambda>_. b) (list_remove (nat i) (m_dAttrs s)) t = Some s'"
      using assms(2) i False by (simp add: CSphSchema_RemoveAttr_def t_def Let_def)
    moreover have "used_ok (m_dStaticUsed s)" using assms(1) by (simp add: layout_ok_def rows_ok_def)
    then have "layout_ok t" by (intro layout_empty) (simp_all add: t_def ResetSchemaHelper_def used_ok_def)
    moreover have "\<forall>c\<in>set (list_remove (nat i) (m_dAttrs s)). col_ok c"
      using layout_cols[OF assms(1)] by (auto simp: list_remove_def dest: in_set_takeD in_set_dropD)
    ultimately show ?thesis using add_attrs_layout by blast
  qed
qed

lemma RebuildLocators_layout:
  assumes "layout_ok s" "RebuildLocators s = Some s'"
  shows "layout_ok s'"
proof -
  define t where "t = (ResetSchemaHelper (s\<lparr>m_dDynamicUsed := [], m_dStaticUsed := []\<rparr>))\<lparr>m_dAttrs := [], m_iFirstFieldLenAttr := -1, m_iLastFieldLenAttr := -1\<rparr>"
  have "add_attrs (\<lambda>c. m_bDynamic (m_tLocator c)) (m_dAttrs s) t = Some s'" using assms(2) by (simp add: RebuildLocators_def t_def Let_def)
  moreover have "layout_ok t" by (intro layout_empty) (simp_all add: t_def ResetSchemaHelper_def used_ok_def)
  ultimately show ?thesis using add_attrs_layout layout_cols[OF assms(1)] by blast
qed

text \<open>Schemas the operations build from an empty one.\<close>

inductive schema_reach :: "CSphSchema \<Rightarrow> bool" where
  new: "schema_reach CSphSchema_new"
| insert: "schema_reach s \<Longrightarrow> col_ok tCol \<Longrightarrow> CSphSchema_InsertAttr iPos tCol bDynamic s = Some s' \<Longrightarrow> schema_reach s'"
| remove: "schema_reach s \<Longrightarrow> CSphSchema_RemoveAttr szAttr bDynamic s = Some s' \<Longrightarrow> schema_reach s'"
| rebuild: "schema_reach s \<Longrightarrow> RebuildLocators s = Some s' \<Longrightarrow> schema_reach s'"
| reset: "schema_reach s \<Longrightarrow> schema_reach (CSphSchema_Reset s)"
| add_field: "schema_reach s \<Longrightarrow> schema_reach (AddField tField s)"
| remove_field: "schema_reach s \<Longrightarrow> RemoveField szField s = Some s' \<Longrightarrow> schema_reach s'"

lemma reach_layout: "schema_reach s \<Longrightarrow> layout_ok s"
proof (induction rule: schema_reach.induct)
  case new
  show ?case by (intro layout_empty) (simp_all add: CSphSchema_new_def used_ok_def)
next
  case (reset s)
  show ?case by (intro layout_empty) (simp_all add: CSphSchema_Reset_def ResetSchemaHelper_def used_ok_def)
next
  case (remove_field s szField s')
  then show ?case by (auto simp: RemoveField_def RemoveField_at_def layout_ok_def split: if_splits)
next
  case (add_field s tField)
  then show ?case by (simp add: AddField_def layout_ok_def)
qed (auto intro: InsertAttr_layout RemoveAttr_layout RebuildLocators_layout)

lemma add_attrs_reach:
  assumes "schema_reach s" "list_all col_ok cs" "add_attrs dyn cs s = Some s'"
  shows "schema_reach s'"
  using assms by (induction cs arbitrary: s) (auto simp: CSphSchema_AddAttr_def bind_Some_conv intro: schema_reach.insert)

text \<open>An insertion at a position of the list is never refused.\<close>

lemma InsertAttr_progress:
  assumes "0 \<le> iPos" "iPos \<le> int (length (m_dAttrs s))" "m_eAttrType tCol \<noteq> SPH_ATTR_NONE" "IsDataPtr tCol \<Longrightarrow> b"
  shows "\<exists>s'. CSphSchema_InsertAttr iPos tCol b s = Some s'"
proof -
  have "\<exists>r. SchemaHelper_InsertAttr p a u iPos tCol b = Some r" if "length a = length (m_dAttrs s)" for p a u
    using assms that by (auto simp: SchemaHelper_InsertAttr_def Let_def split: prod.splits)
  moreover have "length (m_dAttrs (UpdateHash i n s)) = length (m_dAttrs s)" for i n by (simp add: UpdateHash_def)
  ultimately show ?thesis unfolding CSphSchema_InsertAttr_def Let_def map_option_eq_Some by (auto simp del: split_paired_Ex)
qed

section \<open>Rows of a schema\<close>

text \<open>The number of items of the part of the row that holds an attribute.\<close>

definition part_size :: "CSphSchema \<Rightarrow> CSphColumnInfo \<Rightarrow> nat" where
  "part_size s c = length (if m_bDynamic (m_tLocator c) then m_dDynamicUsed s else m_dStaticUsed s)"

lemma layout_loc_ok:
  assumes "layout_ok s" "c \<in> set (m_dAttrs s)" "in_row c" "length pRow = part_size s c"
  shows "loc_ok pRow (m_tLocator c)"
proof -
  have "fits (m_dDynamicUsed s) (m_dStaticUsed s) c" using assms(1,2) by (simp add: layout_ok_def rows_ok_def)
  then show ?thesis using assms(3,4) by (auto simp: fits_def part_size_def loc_ok_def Let_def)
qed

lemma layout_apart:
  assumes "layout_ok s" "i < length (m_dAttrs s)" "j < length (m_dAttrs s)" "i \<noteq> j" "in_row (m_dAttrs s ! i)" "in_row (m_dAttrs s ! j)"
    "m_bDynamic (m_tLocator (m_dAttrs s ! i)) = m_bDynamic (m_tLocator (m_dAttrs s ! j))"
  shows "loc_bits (m_tLocator (m_dAttrs s ! i)) \<inter> loc_bits (m_tLocator (m_dAttrs s ! j)) = {}"
proof -
  have "sorted_wrt apart (m_dAttrs s)" using assms(1) by (simp add: layout_ok_def rows_ok_def)
  then have "apart (m_dAttrs s ! i) (m_dAttrs s ! j)"
    using assms(2,3,4) apart_sym[of "m_dAttrs s ! i" "m_dAttrs s ! j"] by (cases "i < j") (auto simp: sorted_wrt_iff_nth_less)
  then show ?thesis using assms(5-7) by (simp add: apart_def)
qed

lemma data_ptr_not_blob: "IsDataPtr c \<Longrightarrow> \<not> sphIsBlobAttr c"
  by (auto simp: sphIsBlobAttr_def sphIsBlobType_def IsDataPtr_def sphIsDataPtrAttr_def)

lemma layout_ptr:
  assumes "layout_ok s" "c \<in> set (m_dAttrs s)" "IsDataPtr c"
  shows "DescribePtrRow (m_dDataPtrAttrs s) (m_iBitOffset (m_tLocator c) div 32) = Some (ptr_desc c)"
proof -
  let ?k = "m_iBitOffset (m_tLocator c) div 32"
  have row: "in_row a" "m_bDynamic (m_tLocator a)" "m_iBitCount (m_tLocator a) = 64" if "a \<in> set (m_dAttrs s)" "IsDataPtr a" for a
  proof -
    have "col_ok a" "ptr_ok a" using assms(1) that(1) by (simp_all add: layout_ok_def rows_ok_def)
    then show "in_row a" "m_bDynamic (m_tLocator a)" "m_iBitCount (m_tLocator a) = 64"
      using that(2) data_ptr_not_blob[OF that(2)] by (simp_all add: ptr_ok_def col_ok_def in_row_def)
  qed
  have set: "set (m_dDataPtrAttrs s) = ptr_desc ` {a \<in> set (m_dAttrs s). IsDataPtr a}"
  proof -
    have "mset (m_dDataPtrAttrs s) = image_mset ptr_desc (filter_mset IsDataPtr (mset (m_dAttrs s)))"
      using assms(1) by (simp add: layout_ok_def rows_ok_def)
    from arg_cong[OF this, of set_mset] show ?thesis by simp
  qed
  have uniq: "a = c" if a: "a \<in> set (m_dAttrs s)" "IsDataPtr a" "m_iBitOffset (m_tLocator a) div 32 = ?k" for a
  proof (rule ccontr)
    assume "a \<noteq> c"
    obtain i j where ij: "i < length (m_dAttrs s)" "j < length (m_dAttrs s)" "m_dAttrs s ! i = a" "m_dAttrs s ! j = c"
      using a(1) assms(2) by (metis in_set_conv_nth)
    then have "loc_bits (m_tLocator a) \<inter> loc_bits (m_tLocator c) = {}"
      using layout_apart[OF assms(1) ij(1,2)] row[OF a(1,2)] row[OF assms(2,3)] \<open>a \<noteq> c\<close> by auto
    moreover have off: "m_iBitOffset (m_tLocator x) = 32 * (m_iBitOffset (m_tLocator x) div 32)" if "x \<in> set (m_dAttrs s)" "IsDataPtr x" for x
      using layout_loc_ok[OF assms(1) that(1) row(1)[OF that], of "replicate (part_size s x) 0"] row(3)[OF that] by (auto simp: loc_ok_def)
    have "m_iBitOffset (m_tLocator a) = m_iBitOffset (m_tLocator c)" using off[OF a(1,2)] off[OF assms(2,3)] a(3) by linarith
    ultimately show False using row(3)[OF a(1,2)] row(3)[OF assms(2,3)] by (simp add: loc_bits_def)
  qed
  have "ptr_desc c \<in> set (m_dDataPtrAttrs s)" using set assms(2,3) by blast
  moreover have only: "x = ptr_desc c" if x: "x \<in> set (m_dDataPtrAttrs s)" "m_iRowitem x = ?k" for x
  proof -
    obtain a where "a \<in> set (m_dAttrs s)" "IsDataPtr a" "x = ptr_desc a" using x(1) set by blast
    then show ?thesis using uniq[of a] x(2) by (simp add: ptr_desc_def)
  qed
  ultimately obtain x where "find (\<lambda>t. m_iRowitem t = ?k) (m_dDataPtrAttrs s) = Some x" "x \<in> set (m_dDataPtrAttrs s)" "m_iRowitem x = ?k"
    by (cases "find (\<lambda>t. m_iRowitem t = ?k) (m_dDataPtrAttrs s)") (auto simp: find_None_iff find_Some_iff ptr_desc_def)
  then show ?thesis using only by (simp add: DescribePtrRow_def)
qed

text \<open>C30: in a schema built from an empty one by inserting, removing and relocating columns, every attribute kept in the row can
  be written in each row of the size the schema gives and reads back cut to its width; every other attribute of that row
  keeps its value, which can be read; and a pointer attribute is described, with its type, at the item its pointer is
  kept in.\<close>

theorem schema_rows_typed:
  assumes "schema_reach s" "i < length (m_dAttrs s)" "in_row (m_dAttrs s ! i)" "length pRow = part_size s (m_dAttrs s ! i)"
  shows "\<exists>r. sphSetRowAttr pRow (m_tLocator (m_dAttrs s ! i)) v = Some r \<and> length r = length pRow \<and>
    sphGetRowAttr r (m_tLocator (m_dAttrs s ! i)) = Some (take_bit (nat (m_iBitCount (m_tLocator (m_dAttrs s ! i)))) v) \<and>
    (\<forall>j<length (m_dAttrs s). j \<noteq> i \<and> in_row (m_dAttrs s ! j) \<and>
        m_bDynamic (m_tLocator (m_dAttrs s ! j)) = m_bDynamic (m_tLocator (m_dAttrs s ! i)) \<longrightarrow>
      (\<exists>x. sphGetRowAttr pRow (m_tLocator (m_dAttrs s ! j)) = Some x \<and> sphGetRowAttr r (m_tLocator (m_dAttrs s ! j)) = Some x)) \<and>
    (IsDataPtr (m_dAttrs s ! i) \<longrightarrow>
      DescribePtrRow (m_dDataPtrAttrs s) (CalcRowitem (m_tLocator (m_dAttrs s ! i))) =
        Some \<lparr>m_iRowitem = CalcRowitem (m_tLocator (m_dAttrs s ! i)), m_eType = m_eAttrType (m_dAttrs s ! i)\<rparr>)"
proof -
  note ok = reach_layout[OF assms(1)]
  let ?l = "m_tLocator (m_dAttrs s ! i)"
  have l: "loc_ok pRow ?l" using layout_loc_ok[OF ok _ assms(3,4)] assms(2) by simp
  obtain r where r: "sphSetRowAttr pRow ?l v = Some r" "length r = length pRow" using set_item_bits[OF l, of v] by blast
  have "\<exists>x. sphGetRowAttr pRow (m_tLocator (m_dAttrs s ! j)) = Some x \<and> sphGetRowAttr r (m_tLocator (m_dAttrs s ! j)) = Some x"
    if j: "j < length (m_dAttrs s)" "j \<noteq> i" "in_row (m_dAttrs s ! j)" "m_bDynamic (m_tLocator (m_dAttrs s ! j)) = m_bDynamic ?l" for j
  proof -
    have lj: "loc_ok pRow (m_tLocator (m_dAttrs s ! j))" using layout_loc_ok[OF ok _ j(3)] j assms(4) by (simp add: part_size_def)
    then show ?thesis using set_then_get_other[OF l lj layout_apart[OF ok assms(2) j(1)] r(1)] get_bits[OF lj] j assms(3) by fastforce
  qed
  moreover have "DescribePtrRow (m_dDataPtrAttrs s) (CalcRowitem ?l) = Some \<lparr>m_iRowitem = CalcRowitem ?l, m_eType = m_eAttrType (m_dAttrs s ! i)\<rparr>"
    if "IsDataPtr (m_dAttrs s ! i)"
  proof -
    have "ptr_ok (m_dAttrs s ! i)" using ok assms(2) by (simp add: layout_ok_def rows_ok_def)
    then have "CalcRowitem ?l = m_iBitOffset ?l div 32"
      using that l by (auto simp: CalcRowitem_def IsBitfield_def ROWITEM_BITS_def ptr_ok_def loc_ok_def)
    then show ?thesis using layout_ptr[OF ok _ that] assms(2) by (simp add: ptr_desc_def)
  qed
  ultimately show ?thesis using r set_then_get[OF l r(1)] by blast
qed

lemmas schema_eval = CSphSchema_AddAttr_def CSphSchema_InsertAttr_def SchemaHelper_InsertAttr_def store_attr_def update_field_lens_def
  hash_attr_def HASH_THRESH_def Let_def attr_bits_def IsDataPtr_def sphIsDataPtrAttr_def sphIsBlobAttr_def sphIsBlobType_def IsColumnar_def
  list_insert_def alloc_bits_def ROWITEM_BITS_def ROWITEMPTR_BITS_def CSphColumnInfo_new_def CSphSchema_new_def GetRowSize_def GetStaticSize_def
  GetDynamicSize_def UpdateHash_def GetAttrIndex_def CSphSchema_RemoveAttr_def ResetSchemaHelper_def list_remove_def sphColumnToLowercase_def char_lower_def

definition two_cols :: "CSphColumnInfo list" where
  "two_cols = [CSphColumnInfo_new ''id'' SPH_ATTR_BIGINT, CSphColumnInfo_new ''flag'' SPH_ATTR_BOOL]"

definition two_attrs :: CSphSchema where
  "two_attrs = the (add_attrs (\<lambda>_. True) two_cols CSphSchema_new)"

lemma two_attrs_built: "add_attrs (\<lambda>_. True) two_cols CSphSchema_new = Some two_attrs"
  by (simp add: two_attrs_def two_cols_def schema_eval)

lemma two_attrs_attrs: "m_dAttrs two_attrs =
  [(two_cols ! 0)\<lparr>m_tLocator := loc_at 0 64\<rparr>, (two_cols ! 1)\<lparr>m_tLocator := loc_at 64 1\<rparr>]" "m_dDynamicUsed two_attrs = [32, 32, 1]"
  by (simp_all add: two_attrs_def two_cols_def schema_eval numeral_2_eq_2)

theorem schema_rows_typed_witness:
  "\<exists>r. sphSetRowAttr [5, 0, 0] (m_tLocator (m_dAttrs two_attrs ! 1)) 3 = Some r \<and>
    sphGetRowAttr r (m_tLocator (m_dAttrs two_attrs ! 1)) = Some 1 \<and> sphGetRowAttr r (m_tLocator (m_dAttrs two_attrs ! 0)) = Some 5"
proof -
  have "list_all col_ok two_cols" by (simp add: two_cols_def col_ok_def CSphColumnInfo_new_def IsDataPtr_def sphIsDataPtrAttr_def)
  then have "schema_reach two_attrs" by (rule add_attrs_reach[OF schema_reach.new _ two_attrs_built])
  note typed = schema_rows_typed[OF this, of 1 "[5, 0, 0]" 3]
  have l: "m_tLocator (m_dAttrs two_attrs ! 0) = loc_at 0 64" "m_tLocator (m_dAttrs two_attrs ! 1) = loc_at 64 1" "length (m_dAttrs two_attrs) = 2"
    by (simp_all add: two_attrs_attrs)
  have r: "in_row (m_dAttrs two_attrs ! 0)" "in_row (m_dAttrs two_attrs ! 1)" "part_size two_attrs (m_dAttrs two_attrs ! 1) = 3"
    by (simp_all add: two_attrs_attrs part_size_def in_row_def IsColumnar_def sphIsBlobAttr_def sphIsBlobType_def two_cols_def CSphColumnInfo_new_def)
  have "sphGetRowAttr [5, 0, 0] (loc_at 0 64) = Some 5" by (simp add: sphGetRowAttr_def row_pair_def row_item_def ROWITEM_BITS_def)
  moreover obtain r where "sphSetRowAttr [5, 0, 0] (loc_at 64 1) 3 = Some r" "sphGetRowAttr r (loc_at 64 1) = Some (take_bit (nat 1) 3)"
    "\<forall>j<2. j \<noteq> 1 \<and> in_row (m_dAttrs two_attrs ! j) \<and> m_bDynamic (m_tLocator (m_dAttrs two_attrs ! j)) = True \<longrightarrow>
      (\<exists>x. sphGetRowAttr [5, 0, 0] (m_tLocator (m_dAttrs two_attrs ! j)) = Some x \<and> sphGetRowAttr r (m_tLocator (m_dAttrs two_attrs ! j)) = Some x)"
    using typed unfolding l r(3) using r by auto
  moreover from this(3)[rule_format, of 0]
  have "\<exists>x. sphGetRowAttr [5, 0, 0] (loc_at 0 64) = Some x \<and> sphGetRowAttr r (loc_at 0 64) = Some x" unfolding l using r by simp
  ultimately show ?thesis unfolding l by auto
qed

text \<open>Two remarks on the cached numbers: removing the only attribute leaves the cached row size as it was, and inserting before a
  field length attribute leaves the cached position of the latter as it was.\<close>

lemma remove_only_keeps_row_size:
  "map_option (\<lambda>s. (m_iRowSize s, GetRowSize s)) (do {
     s \<leftarrow> CSphSchema_AddAttr (CSphColumnInfo_new ''id'' SPH_ATTR_BIGINT) False CSphSchema_new;
     CSphSchema_RemoveAttr ''id'' False s
   }) = Some (2, 0)"
  by (simp add: schema_eval)

lemma insert_keeps_field_len_position:
  "map_option (\<lambda>s. (m_iFirstFieldLenAttr s, map m_eAttrType (m_dAttrs s))) (do {
     s \<leftarrow> CSphSchema_AddAttr (CSphColumnInfo_new ''title_len'' SPH_ATTR_TOKENCOUNT) False CSphSchema_new;
     CSphSchema_InsertAttr 0 (CSphColumnInfo_new ''id'' SPH_ATTR_BIGINT) False s
   }) = Some (0, [SPH_ATTR_BIGINT, SPH_ATTR_TOKENCOUNT])"
  by (simp add: schema_eval)

end
