(* ===== verification/Schema_Hash.thy ===== *)
theory Schema_Hash
  imports Schema_Layout
begin

text \<open>
  Finding attributes by name. From 32 attributes on a schema keeps chains of positions, linked through the columns,
  one per bucket of the name's checksum; insertions in the middle shift the positions. Shown: the chains hold exactly
  the positions of the attributes, so looking a name up finds an attribute of that name when there is one.
\<close>

section \<open>Chains\<close>

fun linked :: "nat list \<Rightarrow> nat \<Rightarrow> nat list \<Rightarrow> bool" where
  "linked nx u [] \<longleftrightarrow> u = 0xFFFF"
| "linked nx u (i # c) \<longleftrightarrow> u = i \<and> i < length nx \<and> i \<noteq> 0xFFFF \<and> linked nx (nx ! i) c"

definition hash_part :: "string list \<Rightarrow> nat list \<Rightarrow> nat list \<Rightarrow> nat set \<Rightarrow> bool" where
  "hash_part nm nx bk S \<longleftrightarrow> length bk = BUCKET_COUNT \<and> length nx = length nm \<and> S \<subseteq> {..<length nm} \<and>
    (\<forall>b<BUCKET_COUNT. \<exists>c. linked nx (bk ! b) c \<and> set c = {i \<in> S. GetBucketPos (nm ! i) = b})"

lemma bucket_less: "GetBucketPos sName < BUCKET_COUNT"
  by (simp add: GetBucketPos_def BUCKET_COUNT_def)

lemma linked_update: "i \<notin> set c \<Longrightarrow> linked (nx[i := v]) u c = linked nx u c"
  by (induction c arbitrary: u) auto

lemma hash_part_push:
  assumes "hash_part nm nx bk S" "i < length nm" "i \<notin> S" "i \<noteq> 0xFFFF" "b = GetBucketPos (nm ! i)"
  shows "hash_part nm (nx[i := bk ! b]) (bk[b := i]) (insert i S)"
proof -
  have b: "b < BUCKET_COUNT" using assms(5) bucket_less by simp
  have l: "length bk = BUCKET_COUNT" "length nx = length nm" using assms(1) by (auto simp: hash_part_def)
  have "\<exists>c. linked (nx[i := bk ! b]) (bk[b := i] ! k) c \<and> set c = {j \<in> insert i S. GetBucketPos (nm ! j) = k}" if k: "k < BUCKET_COUNT" for k
  proof -
    obtain c where c: "linked nx (bk ! k) c" "set c = {j \<in> S. GetBucketPos (nm ! j) = k}" using assms(1) k by (auto simp: hash_part_def)
    have i: "i \<notin> set c" using c(2) assms(3) by auto
    show ?thesis
    proof (cases "k = b")
      case True
      have "linked (nx[i := bk ! b]) (bk[b := i] ! k) (i # c)" using True c(1) i l b assms(2,4) by (simp add: linked_update)
      moreover have "set (i # c) = {j \<in> insert i S. GetBucketPos (nm ! j) = k}" using c(2) True assms(5) by auto
      ultimately show ?thesis by blast
    next
      case False
      have "linked (nx[i := bk ! b]) (bk[b := i] ! k) c" using False c(1) i by (simp add: linked_update)
      moreover have "set c = {j \<in> insert i S. GetBucketPos (nm ! j) = k}" using c(2) False assms(5) by auto
      ultimately show ?thesis by blast
    qed
  qed
  then show ?thesis using assms(1,2) l by (simp add: hash_part_def)
qed

text \<open>A column inserted at position p moves the later positions by one.\<close>

lemma list_insert_nth:
  assumes "p \<le> length xs" "i < length xs"
  shows "list_insert p y xs ! (if p \<le> i then i + 1 else i) = xs ! i"
  using assms by (auto simp: list_insert_def nth_append min_def nth_Cons')

lemma shift_pos_at:
  assumes "i < 0xFFFF"
  shows "shift_pos (int p - 1) 1 i = (if p \<le> i then i + 1 else i)"
  using assms by (auto simp: shift_pos_def nat_add_distrib)

lemma shift_pos_end: "shift_pos a n 0xFFFF = 0xFFFF"
  by (simp add: shift_pos_def)

lemma linked_shift:
  assumes "linked nx u c" "p \<le> length nx" "length nx < 0xFFFF"
  shows "linked (list_insert p y (map (shift_pos (int p - 1) 1) nx)) (shift_pos (int p - 1) 1 u) (map (shift_pos (int p - 1) 1) c)"
  using assms
proof (induction c arbitrary: u)
  case Nil
  then show ?case by (simp add: shift_pos_end)
next
  case (Cons i c)
  let ?f = "shift_pos (int p - 1) 1"
  have i: "i < length nx" "?f i = (if p \<le> i then i + 1 else i)" using Cons.prems shift_pos_at[of i p] by auto
  have "list_insert p y (map ?f nx) ! ?f i = ?f (nx ! i)" using list_insert_nth[of p "map ?f nx" i y] i Cons.prems by simp
  moreover have "linked (list_insert p y (map ?f nx)) (?f (nx ! i)) (map ?f c)" using Cons by simp
  ultimately show ?case using i Cons.prems by auto
qed

lemma hash_part_shift:
  assumes "hash_part nm nx bk {..<length nm}" "p \<le> length nm" "length nm < 0xFFFF"
  shows "hash_part (list_insert p x nm) (list_insert p y (map (shift_pos (int p - 1) 1) nx)) (map (shift_pos (int p - 1) 1) bk)
    ({..<Suc (length nm)} - {p})"
proof -
  let ?f = "shift_pos (int p - 1) 1" and ?n = "length nm"
  have l: "length bk = BUCKET_COUNT" "length nx = ?n" using assms(1) by (auto simp: hash_part_def)
  have f: "i < ?n \<Longrightarrow> ?f i = (if p \<le> i then i + 1 else i)" for i using shift_pos_at[of i p] assms(3) by simp
  have nmf: "i < ?n \<Longrightarrow> list_insert p x nm ! ?f i = nm ! i" for i using list_insert_nth[of p nm i x] f[of i] assms(2) by simp
  have im: "?f ` {i. i < ?n \<and> P (nm ! i)} = {j \<in> {..<Suc ?n} - {p}. P (list_insert p x nm ! j)}" for P
  proof (intro set_eqI iffI)
    fix j assume j: "j \<in> {j \<in> {..<Suc ?n} - {p}. P (list_insert p x nm ! j)}"
    define i where "i = (if p < j then j - 1 else j)"
    have "i < ?n" "?f i = j" using j assms(2) f[of i] by (auto simp: i_def)
    then show "j \<in> ?f ` {i. i < ?n \<and> P (nm ! i)}" using j nmf[of i] by force
  next
    fix j assume "j \<in> ?f ` {i. i < ?n \<and> P (nm ! i)}"
    then obtain i where i: "j = ?f i" "i < ?n" "P (nm ! i)" by blast
    have "?f i < Suc ?n" "?f i \<noteq> p" using f[OF i(2)] i(2) by auto
    then show "j \<in> {j \<in> {..<Suc ?n} - {p}. P (list_insert p x nm ! j)}" using i nmf[OF i(2)] by simp
  qed
  have "\<exists>c. linked (list_insert p y (map ?f nx)) (map ?f bk ! k) c \<and> set c = {j \<in> {..<Suc ?n} - {p}. GetBucketPos (list_insert p x nm ! j) = k}"
    if k: "k < BUCKET_COUNT" for k
  proof -
    obtain c where c: "linked nx (bk ! k) c" "set c = {j \<in> {..<?n}. GetBucketPos (nm ! j) = k}" using assms(1) k by (auto simp: hash_part_def)
    have "set (map ?f c) = {j \<in> {..<Suc ?n} - {p}. GetBucketPos (list_insert p x nm ! j) = k}"
      using im[of "\<lambda>s. GetBucketPos s = k"] c(2) by simp
    then show ?thesis using linked_shift[OF c(1), of p y] assms(2,3) l k by auto
  qed
  then show ?thesis using l by (auto simp: hash_part_def)
qed

lemma linked_append: "linked nx u c \<Longrightarrow> linked (nx @ [y]) u c"
  by (induction c arbitrary: u) (auto simp: nth_append)

lemma hash_part_append:
  assumes "hash_part nm nx bk {..<length nm}"
  shows "hash_part (nm @ [x]) (nx @ [y]) bk {..<length nm}"
proof -
  have "{i \<in> {..<length nm}. GetBucketPos ((nm @ [x]) ! i) = b} = {i \<in> {..<length nm}. GetBucketPos (nm ! i) = b}" for b
    by (auto simp: nth_append)
  then show ?thesis using assms linked_append[of nx _ _ y] by (fastforce simp: hash_part_def)
qed

lemma walk_chain_linked:
  assumes "linked (map m_uNext dAttrs) u c"
  shows "\<exists>r. walk_chain dAttrs sName u = Some r \<and>
    (r = 0xFFFF \<and> (\<forall>i\<in>set c. m_sName (dAttrs ! i) \<noteq> sName) \<or> r \<in> set c \<and> m_sName (dAttrs ! r) = sName)"
  using assms
proof (induction c arbitrary: u)
  case Nil
  then show ?case by (simp add: walk_chain.simps)
next
  case (Cons i c)
  have i: "u = i" "i < length dAttrs" "i \<noteq> 0xFFFF" "linked (map m_uNext dAttrs) (m_uNext (dAttrs ! i)) c" using Cons.prems by auto
  have "\<exists>r. walk_chain dAttrs sName (m_uNext (dAttrs ! i)) = Some r \<and>
    (r = 0xFFFF \<and> (\<forall>i\<in>set c. m_sName (dAttrs ! i) \<noteq> sName) \<or> r \<in> set c \<and> m_sName (dAttrs ! r) = sName)" by (rule Cons.IH[OF i(4)])
  then show ?case using i walk_chain.simps[of dAttrs sName u] by (cases "m_sName (dAttrs ! i) = sName") auto
qed

section \<open>Schemas\<close>

definition hash_on :: "CSphSchema \<Rightarrow> nat set \<Rightarrow> bool" where
  "hash_on s S \<longleftrightarrow> hash_part (map m_sName (m_dAttrs s)) (map m_uNext (m_dAttrs s)) (m_dBuckets s) S"

definition hash_ok :: "CSphSchema \<Rightarrow> bool" where
  "hash_ok s \<longleftrightarrow> length (m_dBuckets s) = BUCKET_COUNT \<and>
    (HASH_THRESH \<le> length (m_dAttrs s) \<and> length (m_dAttrs s) \<le> 0xFFFF \<longrightarrow> hash_on s {..<length (m_dAttrs s)})"

lemma hash_push_names [simp]: "map m_sName (m_dAttrs (hash_push i s)) = map m_sName (m_dAttrs s)"
proof (cases "i < length (m_dAttrs s)")
  case True
  then show ?thesis by (simp add: hash_push_def Let_def map_update list_update_same_conv)
qed (simp add: hash_push_def Let_def list_update_beyond)

lemma hash_on_push:
  assumes "hash_on s S" "i < length (m_dAttrs s)" "i \<notin> S" "i < 0xFFFF"
  shows "hash_on (hash_push i s) (insert i S)"
proof -
  let ?b = "GetBucketPos (m_sName (m_dAttrs s ! i))"
  have "map m_uNext (m_dAttrs (hash_push i s)) = (map m_uNext (m_dAttrs s))[i := m_dBuckets s ! ?b]"
    "m_dBuckets (hash_push i s) = (m_dBuckets s)[?b := i]"
    using assms(4) by (simp_all add: hash_push_def Let_def map_update)
  then show ?thesis using hash_part_push[of "map m_sName (m_dAttrs s)" "map m_uNext (m_dAttrs s)" "m_dBuckets s" S i ?b] assms
    by (simp add: hash_on_def)
qed

lemma fold_push_on:
  assumes "hash_on s {}" "k \<le> length (m_dAttrs s)" "length (m_dAttrs s) \<le> 0xFFFF"
  shows "hash_on (fold hash_push [0..<k] s) {..<k} \<and> length (m_dAttrs (fold hash_push [0..<k] s)) = length (m_dAttrs s)"
  using assms(2)
proof (induction k)
  case (Suc k)
  then show ?case using hash_on_push[of "fold hash_push [0..<k] s" "{..<k}" k] assms(3) by (simp add: lessThan_Suc)
qed (use assms in simp)

lemma RebuildHash_on:
  assumes "length (m_dAttrs s) \<le> 0xFFFF" "HASH_THRESH \<le> length (m_dAttrs s)"
  shows "hash_on (RebuildHash s) {..<length (m_dAttrs s)}"
proof -
  have "hash_on (s\<lparr>m_dBuckets := replicate BUCKET_COUNT 0xFFFF\<rparr>) {}"
    unfolding hash_on_def hash_part_def by (auto intro!: exI[of _ "[]"])
  from fold_push_on[OF this, of "length (m_dAttrs s)"] show ?thesis using assms by (simp add: RebuildHash_def)
qed

lemma buckets_kept [simp]:
  "length (m_dBuckets (hash_push i s)) = length (m_dBuckets s)"
  "length (m_dBuckets (fold hash_push c t)) = length (m_dBuckets t)"
  "length (m_dAttrs (fold hash_push c t)) = length (m_dAttrs t)"
  by (simp add: hash_push_def Let_def, (induction c arbitrary: t; simp add: hash_push_def Let_def)+)

lemma list_insert_end: "list_insert (length xs) x xs = xs @ [x]"
  by (simp add: list_insert_def)

lemma InsertAttr_hash:
  assumes "hash_ok s" "CSphSchema_InsertAttr iPos tCol b s = Some s'"
  shows "hash_ok s' \<and> map m_sName (m_dAttrs s') = list_insert (nat iPos) (m_sName tCol) (map m_sName (m_dAttrs s))"
  using assms(2)
proof (cases rule: InsertAttr_stages)
  case (1 t r)
  obtain dPtrs dAttrs dUsed where r: "r = (dPtrs, dAttrs, dUsed)" by (cases r) auto
  let ?u = "update_field_lens iPos tCol (store_attr b r t)" and ?n = "length (m_dAttrs s)"
  note sh = helper_insert_shape[OF 1(2)[unfolded r]]
  have nm: "map m_sName (m_dAttrs t) = map m_sName (m_dAttrs s)" "length (m_dAttrs t) = ?n" "length (m_dBuckets t) = length (m_dBuckets s)"
    by (auto simp: 1(1) UpdateHash_def)
  have pos: "0 \<le> iPos" "nat iPos \<le> ?n" using sh(1,2) nm(2) by auto
  have u: "m_dAttrs ?u = dAttrs" "m_dBuckets ?u = m_dBuckets t" by (simp_all add: stored_fields r)
  have len: "length dAttrs = Suc ?n" using arg_cong[OF sh(3), of length] nm by simp
  have bk: "length (m_dBuckets s) = BUCKET_COUNT" using assms(1) by (simp add: hash_ok_def)
  have "hash_on (hash_attr iPos ?u) {..<Suc ?n}" if big: "HASH_THRESH \<le> Suc ?n" "Suc ?n \<le> 0xFFFF"
  proof (cases "Suc ?n = HASH_THRESH")
    case True
    then show ?thesis using RebuildHash_on[of ?u] big u len by (simp add: hash_attr_def)
  next
    case False
    then have s: "hash_on s {..<?n}" "HASH_THRESH \<le> ?n" using big assms(1) by (auto simp: hash_ok_def)
    have "hash_on ?u ({..<Suc ?n} - {nat iPos})"
    proof (cases "iPos = int ?n")
      case True
      have "t = s" using 1(1) True by simp
      then show ?thesis using hash_part_append[OF s(1)[unfolded hash_on_def, folded length_map[of m_sName]]] sh(3,4) u True
        by (simp add: hash_on_def list_insert_end[of "map _ _", simplified] lessThan_Suc)
    next
      case False
      have t: "t = UpdateHash (iPos - 1) 1 s" using 1(1) False by simp
      have "map m_uNext (m_dAttrs t) = map (shift_pos (int (nat iPos) - 1) 1) (map m_uNext (m_dAttrs s))"
        "m_dBuckets t = map (shift_pos (int (nat iPos) - 1) 1) (m_dBuckets s)" using s(2) pos by (auto simp: t UpdateHash_def)
      then show ?thesis
        using hash_part_shift[OF s(1)[unfolded hash_on_def, folded length_map[of m_sName]], of "nat iPos" "m_sName tCol" "m_uNext tCol"] sh(3,4) u nm pos big
        by (simp add: hash_on_def)
    qed
    moreover have "insert (nat iPos) ({..<Suc ?n} - {nat iPos}) = {..<Suc ?n}" using pos by auto
    ultimately have "hash_on (hash_push (nat iPos) ?u) {..<Suc ?n}"
      using hash_on_push[of ?u "{..<Suc ?n} - {nat iPos}" "nat iPos"] pos u len big by simp
    then show ?thesis using False big u len by (simp add: hash_attr_def)
  qed
  moreover have "length (m_dBuckets (hash_attr iPos ?u)) = BUCKET_COUNT" using bk nm u by (simp add: hash_attr_def RebuildHash_def)
  moreover have "length (m_dAttrs (hash_attr iPos ?u)) = Suc ?n" using len u by (simp add: hash_attr_def RebuildHash_def)
  moreover have "map m_sName (m_dAttrs (fold hash_push c v)) = map m_sName (m_dAttrs v)" for c v by (induction c arbitrary: v) simp_all
  then have "map m_sName (m_dAttrs (hash_attr iPos ?u)) = map m_sName dAttrs" using u by (simp add: hash_attr_def RebuildHash_def)
  ultimately show ?thesis using 1(3) sh(3) nm by (simp add: hash_ok_def hash_on_def)
qed

lemma add_attrs_hash:
  assumes "hash_ok s" "add_attrs dyn cs s = Some s'"
  shows "hash_ok s' \<and> map m_sName (m_dAttrs s') = map m_sName (m_dAttrs s) @ map m_sName cs"
  using assms
proof (induction cs arbitrary: s)
  case (Cons c cs)
  obtain t where t: "CSphSchema_InsertAttr (int (length (m_dAttrs s))) c (dyn c) s = Some t" "add_attrs dyn cs t = Some s'"
    using Cons.prems(2) by (auto simp: CSphSchema_AddAttr_def bind_Some_conv)
  have "hash_ok t" "map m_sName (m_dAttrs t) = map m_sName (m_dAttrs s) @ [m_sName c]"
    using InsertAttr_hash[OF Cons.prems(1) t(1)] list_insert_end[of "map m_sName (m_dAttrs s)"] by simp_all
  then show ?case using Cons.IH[OF _ t(2)] by simp
qed simp

lemma add_attrs_progress:
  assumes "\<forall>c\<in>set cs. m_eAttrType c \<noteq> SPH_ATTR_NONE \<and> (IsDataPtr c \<longrightarrow> dyn c)"
  shows "\<exists>s'. add_attrs dyn cs s = Some s'"
  using assms
proof (induction cs arbitrary: s)
  case (Cons c cs)
  then obtain t where "CSphSchema_InsertAttr (int (length (m_dAttrs s))) c (dyn c) s = Some t"
    using InsertAttr_progress[of "int (length (m_dAttrs s))" s c "dyn c"] by auto
  then show ?case using Cons by (simp add: CSphSchema_AddAttr_def)
qed simp

lemma hash_ok_small: "length (m_dBuckets s) = BUCKET_COUNT \<Longrightarrow> m_dAttrs s = [] \<Longrightarrow> hash_ok s"
  by (simp add: hash_ok_def HASH_THRESH_def)

text \<open>Removal starts over with an empty list of attributes.\<close>

lemma RemoveAttr_stages:
  assumes "GetAttrIndex sName s = Some i" "0 \<le> i"
  obtains t where "m_dAttrs t = []" "m_dBuckets t = m_dBuckets s"
    "CSphSchema_RemoveAttr sName b s = add_attrs (\<lambda>_. b) (list_remove (nat i) (m_dAttrs s)) t"
  using that[of "(ResetSchemaHelper (if b then s\<lparr>m_dDynamicUsed := []\<rparr> else s\<lparr>m_dStaticUsed := []\<rparr>))
      \<lparr>m_iFirstFieldLenAttr := -1, m_iLastFieldLenAttr := -1, m_dAttrs := []\<rparr>"] assms
  by (simp add: CSphSchema_RemoveAttr_def ResetSchemaHelper_def)

lemma RemoveAttr_hash:
  assumes "hash_ok s" "CSphSchema_RemoveAttr sName b s = Some s'"
  shows "hash_ok s'"
proof -
  obtain i where i: "GetAttrIndex sName s = Some i" using assms(2) by (auto simp: CSphSchema_RemoveAttr_def bind_Some_conv)
  show ?thesis
  proof (cases "i < 0")
    case True
    then show ?thesis using assms i by (simp add: CSphSchema_RemoveAttr_def)
  next
    case False
    then have "0 \<le> i" by simp
    from i this show ?thesis
    proof (rule RemoveAttr_stages)
      fix t assume "m_dAttrs t = []" "m_dBuckets t = m_dBuckets s"
        "CSphSchema_RemoveAttr sName b s = add_attrs (\<lambda>_. b) (list_remove (nat i) (m_dAttrs s)) t"
      then show "hash_ok s'" using assms add_attrs_hash[of t] hash_ok_small[of t] by (simp add: hash_ok_def)
    qed
  qed
qed

lemma reach_hash: "schema_reach s \<Longrightarrow> hash_ok s"
proof (induction rule: schema_reach.induct)
  case (rebuild s s')
  define t where "t = (ResetSchemaHelper (s\<lparr>m_dDynamicUsed := [], m_dStaticUsed := []\<rparr>))\<lparr>m_dAttrs := [], m_iFirstFieldLenAttr := -1, m_iLastFieldLenAttr := -1\<rparr>"
  have "add_attrs (\<lambda>c. m_bDynamic (m_tLocator c)) (m_dAttrs s) t = Some s'" using rebuild by (simp add: RebuildLocators_def t_def Let_def)
  moreover have "hash_ok t" using rebuild by (intro hash_ok_small) (simp_all add: t_def ResetSchemaHelper_def hash_ok_def)
  ultimately show ?case using add_attrs_hash by blast
next
  case (remove_field s szField s')
  then show ?case by (auto simp: RemoveField_def RemoveField_at_def hash_ok_def hash_on_def split: if_splits)
next
  case (add_field s tField)
  then show ?case by (simp add: AddField_def hash_ok_def hash_on_def)
next
  case new
  show ?case by (rule hash_ok_small) (simp_all add: CSphSchema_new_def)
next
  case (reset s)
  show ?case by (rule hash_ok_small) (simp_all add: CSphSchema_Reset_def)
qed (use InsertAttr_hash RemoveAttr_hash in blast)+

section \<open>Lookup\<close>

lemma scan_names_first:
  "scan_names sName k cs = -1 \<and> sName \<notin> m_sName ` set cs \<or>
   (\<exists>i<length cs. scan_names sName k cs = k + int i \<and> m_sName (cs ! i) = sName \<and> (\<forall>j<i. m_sName (cs ! j) \<noteq> sName))"
proof (induction cs arbitrary: k)
  case (Cons c cs)
  show ?case
  proof (cases "m_sName c = sName")
    case True
    then show ?thesis by (intro disjI2 exI[of _ 0]) simp
  next
    case False
    from Cons[of "k + 1"] show ?thesis
    proof
      assume "scan_names sName (k + 1) cs = - 1 \<and> sName \<notin> m_sName ` set cs"
      then show ?thesis using False by simp
    next
      assume "\<exists>i<length cs. scan_names sName (k + 1) cs = k + 1 + int i \<and> m_sName (cs ! i) = sName \<and> (\<forall>j<i. m_sName (cs ! j) \<noteq> sName)"
      then obtain i where "i < length cs" "scan_names sName (k + 1) cs = k + 1 + int i" "m_sName (cs ! i) = sName" "\<forall>j<i. m_sName (cs ! j) \<noteq> sName" by blast
      then show ?thesis using False by (intro disjI2 exI[of _ "Suc i"]) (auto simp: nth_Cons')
    qed
  qed
qed simp

lemma GetAttrIndex_exact:
  assumes "hash_ok s" "length (m_dAttrs s) \<le> 0x8000"
  shows "\<exists>i. GetAttrIndex sName s = Some i \<and> (i = -1 \<and> sName \<notin> m_sName ` set (m_dAttrs s) \<or>
    0 \<le> i \<and> nat i < length (m_dAttrs s) \<and> m_sName (m_dAttrs s ! nat i) = sName)"
proof (cases "HASH_THRESH \<le> length (m_dAttrs s)")
  case False
  then show ?thesis using scan_names_first[of sName 0 "m_dAttrs s"] by (auto simp: GetAttrIndex_def)
next
  case True
  let ?b = "GetBucketPos sName"
  have h: "hash_on s {..<length (m_dAttrs s)}" using assms True by (simp add: hash_ok_def)
  then obtain c where c: "linked (map m_uNext (m_dAttrs s)) (m_dBuckets s ! ?b) c"
      "set c = {i \<in> {..<length (m_dAttrs s)}. GetBucketPos (map m_sName (m_dAttrs s) ! i) = ?b}"
    using bucket_less[of sName] by (auto simp: hash_on_def hash_part_def)
  obtain r where r: "walk_chain (m_dAttrs s) sName (m_dBuckets s ! ?b) = Some r"
      "r = 0xFFFF \<and> (\<forall>i\<in>set c. m_sName (m_dAttrs s ! i) \<noteq> sName) \<or> r \<in> set c \<and> m_sName (m_dAttrs s ! r) = sName"
    using walk_chain_linked[OF c(1)] by blast
  from r(2) show ?thesis
  proof
    assume a: "r = 0xFFFF \<and> (\<forall>i\<in>set c. m_sName (m_dAttrs s ! i) \<noteq> sName)"
    have "sName \<notin> m_sName ` set (m_dAttrs s)"
    proof
      assume "sName \<in> m_sName ` set (m_dAttrs s)"
      then obtain i where "i < length (m_dAttrs s)" "m_sName (m_dAttrs s ! i) = sName" by (auto simp: in_set_conv_nth)
      then show False using a c(2) by auto
    qed
    then show ?thesis using r(1) a True by (simp add: GetAttrIndex_def short_of_def)
  next
    assume a: "r \<in> set c \<and> m_sName (m_dAttrs s ! r) = sName"
    then have "r < length (m_dAttrs s)" using c(2) by auto
    then show ?thesis using r(1) a True assms(2) by (simp add: GetAttrIndex_def short_of_def)
  qed
qed

text \<open>C31: in a schema built by the operations, with at most 32768 attributes, looking a name up returns for every name the position
  of an attribute of that name, or -1 when there is none, whether the names are scanned or hashed. Removing the name takes that
  attribute, and no other, out of the list, and succeeds unless a pointer attribute would have to move to the static part;
  inserting a column at any position puts its name there and moves the later ones.\<close>

theorem schema_lookup_exact:
  assumes "schema_reach s" "length (m_dAttrs s) \<le> 0x8000"
  shows "\<exists>i. GetAttrIndex sName s = Some i \<and>
    (if sName \<in> m_sName ` set (m_dAttrs s)
     then 0 \<le> i \<and> nat i < length (m_dAttrs s) \<and> m_sName (m_dAttrs s ! nat i) = sName \<and> GetAttr_name sName s = Some (Some (m_dAttrs s ! nat i)) \<and>
       (bDynamic \<or> \<not> list_ex IsDataPtr (m_dAttrs s) \<longrightarrow> (\<exists>s'. CSphSchema_RemoveAttr sName bDynamic s = Some s' \<and>
         map m_sName (m_dAttrs s') = list_remove (nat i) (map m_sName (m_dAttrs s))))
     else i = -1 \<and> GetAttr_name sName s = Some None \<and> CSphSchema_RemoveAttr sName bDynamic s = Some s) \<and>
    (\<forall>s' iPos tCol. CSphSchema_InsertAttr iPos tCol bDynamic s = Some s' \<longrightarrow>
      map m_sName (m_dAttrs s') = list_insert (nat iPos) (m_sName tCol) (map m_sName (m_dAttrs s)))"
proof -
  note h = reach_hash[OF assms(1)]
  obtain i where i: "GetAttrIndex sName s = Some i" "i = -1 \<and> sName \<notin> m_sName ` set (m_dAttrs s) \<or>
    0 \<le> i \<and> nat i < length (m_dAttrs s) \<and> m_sName (m_dAttrs s ! nat i) = sName" using GetAttrIndex_exact[OF h assms(2)] by blast
  have rem: "\<exists>s'. CSphSchema_RemoveAttr sName bDynamic s = Some s' \<and> map m_sName (m_dAttrs s') = list_remove (nat i) (map m_sName (m_dAttrs s))"
    if pos: "0 \<le> i" and dyn: "bDynamic \<or> \<not> list_ex IsDataPtr (m_dAttrs s)"
    using i(1) pos
  proof (rule RemoveAttr_stages)
    fix t assume t: "m_dAttrs t = []" "m_dBuckets t = m_dBuckets s"
      "CSphSchema_RemoveAttr sName bDynamic s = add_attrs (\<lambda>_. bDynamic) (list_remove (nat i) (m_dAttrs s)) t"
    have "\<forall>c\<in>set (list_remove (nat i) (m_dAttrs s)). m_eAttrType c \<noteq> SPH_ATTR_NONE \<and> (IsDataPtr c \<longrightarrow> bDynamic)"
      using dyn layout_cols[OF reach_layout[OF assms(1)]]
      by (auto simp: list_remove_def col_ok_def list_ex_iff dest: in_set_takeD in_set_dropD)
    from add_attrs_progress[OF this] obtain s' where s': "add_attrs (\<lambda>_. bDynamic) (list_remove (nat i) (m_dAttrs s)) t = Some s'" by blast
    have "hash_ok t" using t(1,2) h by (intro hash_ok_small) (simp_all add: hash_ok_def)
    from add_attrs_hash[OF this s'] have "map m_sName (m_dAttrs s') = list_remove (nat i) (map m_sName (m_dAttrs s))"
      using t(1) by (simp add: list_remove_def take_map drop_map)
    then show ?thesis using s' t(3) by simp
  qed
  have ins: "\<forall>s' iPos tCol. CSphSchema_InsertAttr iPos tCol bDynamic s = Some s' \<longrightarrow>
      map m_sName (m_dAttrs s') = list_insert (nat iPos) (m_sName tCol) (map m_sName (m_dAttrs s))" using InsertAttr_hash[OF h] by blast
  from i(2) show ?thesis
  proof
    assume a: "i = -1 \<and> sName \<notin> m_sName ` set (m_dAttrs s)"
    have "GetAttr_name sName s = Some None" "CSphSchema_RemoveAttr sName bDynamic s = Some s"
      using i(1) a by (simp_all add: GetAttr_name_def CSphSchema_RemoveAttr_def)
    then show ?thesis using i(1) a ins by (intro exI[of _ i]) (simp only: if_False simp_thms)
  next
    assume a: "0 \<le> i \<and> nat i < length (m_dAttrs s) \<and> m_sName (m_dAttrs s ! nat i) = sName"
    then have m: "sName \<in> m_sName ` set (m_dAttrs s)" by (metis imageI nth_mem)
    have "GetAttr_name sName s = Some (Some (m_dAttrs s ! nat i))" using i(1) a by (simp add: GetAttr_name_def)
    then show ?thesis using i(1) a m rem ins by (intro exI[of _ i]) (simp only: if_True simp_thms, blast)
  qed
qed

definition many_cols :: "CSphColumnInfo list" where
  "many_cols = map (\<lambda>k. CSphColumnInfo_new (replicate k CHR ''a'') SPH_ATTR_INTEGER) [1..<40]"

lemma lower_letters: "sphColumnToLowercase (replicate k CHR ''a'') = replicate k CHR ''a''"
proof -
  have "lower_loop False (replicate k CHR ''a'') = replicate k CHR ''a''" by (induction k) (simp_all add: char_lower_def Let_def)
  then show ?thesis by (simp add: sphColumnToLowercase_def)
qed

theorem schema_lookup_exact_witness:
  "\<exists>s i. add_attrs (\<lambda>_. False) many_cols CSphSchema_new = Some s \<and> length (m_dAttrs s) = 39 \<and>
    GetAttrIndex ''aaa'' s = Some i \<and> 0 \<le> i \<and> m_sName (m_dAttrs s ! nat i) = ''aaa'' \<and> GetAttrIndex ''b'' s = Some (-1)"
proof -
  have ok: "list_all col_ok many_cols" "\<forall>c\<in>set many_cols. m_eAttrType c \<noteq> SPH_ATTR_NONE \<and> (IsDataPtr c \<longrightarrow> False)"
    by (auto simp: list_all_iff many_cols_def col_ok_def CSphColumnInfo_new_def IsDataPtr_def sphIsDataPtrAttr_def)
  obtain s where s: "add_attrs (\<lambda>_. False) many_cols CSphSchema_new = Some s" using add_attrs_progress[OF ok(2)] by blast
  have reach: "schema_reach s" by (rule add_attrs_reach[OF schema_reach.new ok(1) s])
  have nm: "map m_sName (m_dAttrs s) = map (\<lambda>k. replicate k CHR ''a'') [1..<40]"
    using add_attrs_hash[OF reach_hash[OF schema_reach.new] s] lower_letters
    by (simp add: CSphSchema_new_def many_cols_def CSphColumnInfo_new_def comp_def del: upt_rec_numeral)
  have len: "length (m_dAttrs s) = 39" using arg_cong[OF nm, of length] by (simp del: upt_rec_numeral)
  have names: "m_sName ` set (m_dAttrs s) = (\<lambda>k. replicate k CHR ''a'') ` {1..<40}" using arg_cong[OF nm, of set] by (simp del: upt_rec_numeral)
  have "replicate 3 CHR ''a'' \<in> m_sName ` set (m_dAttrs s)" unfolding names by (rule imageI) simp
  then have "''aaa'' \<in> m_sName ` set (m_dAttrs s)" by (simp add: numeral_3_eq_3)
  moreover have "''b'' \<notin> m_sName ` set (m_dAttrs s)"
  proof
    assume "''b'' \<in> m_sName ` set (m_dAttrs s)"
    then obtain k where "''b'' = replicate k CHR ''a''" unfolding names by blast
    then show False by (cases k) auto
  qed
  ultimately show ?thesis using schema_lookup_exact[OF reach, of "''aaa''" True] schema_lookup_exact[OF reach, of "''b''" True] s len by auto
qed

end
