(* ===== verification/Blob_Row.thy ===== *)
theory Blob_Row
  imports Bytes Schema_Layout
begin

text \<open>
  Rows of blob attributes, \<^verbatim>\<open>src/src/attribute.cpp\<close>: a byte with the width of the lengths, the cumulative lengths of the
  attributes and their bytes one after the other, kept in a pool at the offset a row attribute holds. A pointer into
  the pool is a position in its list of bytes; a failed assertion and a read outside the pool are None. Shown: every
  attribute is read back from the row built for it, and adding or removing an attribute leaves the others as they were.
\<close>

section \<open>Model\<close>

definition BLOB_ROW_LEN_BYTE :: byte where
  "BLOB_ROW_LEN_BYTE = 0"

definition BLOB_ROW_LEN_WORD :: byte where
  "BLOB_ROW_LEN_WORD = 1"

definition BLOB_ROW_LEN_DWORD :: byte where
  "BLOB_ROW_LEN_DWORD = 2"

definition CalcBlobRowFlags :: "dword \<Rightarrow> byte" where
  "CalcBlobRowFlags uTotalLen = (if uTotalLen < 0xFF then BLOB_ROW_LEN_BYTE else if uTotalLen < 0xFFFF then BLOB_ROW_LEN_WORD else BLOB_ROW_LEN_DWORD)"

definition RowFlagsToLen :: "byte \<Rightarrow> nat option" where
  "RowFlagsToLen uFlags =
    (if uFlags = BLOB_ROW_LEN_BYTE then Some 1 else if uFlags = BLOB_ROW_LEN_WORD then Some 2
     else if uFlags = BLOB_ROW_LEN_DWORD then Some 4 else None)"

definition pool_slice :: "byte list \<Rightarrow> nat \<Rightarrow> nat \<Rightarrow> byte list option" where
  "pool_slice d p n = (if p + n \<le> length d then Some (take n (drop p d)) else None)"

subsection \<open>Building\<close>

text \<open>The loop over the attributes that writes the cumulative lengths, in the width of the flags.\<close>

fun blob_lens :: "nat \<Rightarrow> dword \<Rightarrow> dword list \<Rightarrow> byte list" where
  "blob_lens n uTotalLen [] = []"
| "blob_lens n uTotalLen (l # ls) = le_bytes n (uTotalLen + l) @ blob_lens n (uTotalLen + l) ls"

definition data_lens :: "byte list list \<Rightarrow> dword list" where
  "data_lens dAttrs = map (\<lambda>a. of_nat (length a)) dAttrs"

definition BlobRowBuilder_Mem_Flush :: "byte list list \<Rightarrow> byte list \<Rightarrow> ((nat \<times> nat) \<times> byte list) option" where
  "BlobRowBuilder_Mem_Flush dAttrs dPool = do {
     let tRowOffset = length dPool;
     let uFlags = CalcBlobRowFlags (sum_list (data_lens dAttrs));
     n \<leftarrow> RowFlagsToLen uFlags;
     let dPool = dPool @ uFlags # blob_lens n 0 (data_lens dAttrs) @ concat dAttrs;
     Some ((tRowOffset, length dPool - tRowOffset), dPool)
   }"

subsection \<open>Reading\<close>

text \<open>The difference of two lengths, in C an int for the narrow widths and an unsigned number cut to an int for the widest: the same number.\<close>

definition blob_len_at :: "nat \<Rightarrow> nat \<Rightarrow> byte list \<Rightarrow> nat \<Rightarrow> (dword \<times> int) option" where
  "blob_len_at n iBlobAttrId d pRow = do {
     uLen1 \<leftarrow> read_at n d (pRow + n * iBlobAttrId);
     uLen0 \<leftarrow> (if iBlobAttrId > 0 then read_at n d (pRow + n * (iBlobAttrId - 1)) else Some 0);
     Some (uLen0, sint (uLen1 - uLen0 :: dword))
   }"

definition GetBlobAttr_T :: "nat \<Rightarrow> nat \<Rightarrow> nat \<Rightarrow> byte list \<Rightarrow> nat \<Rightarrow> byte list option" where
  "GetBlobAttr_T n iBlobAttrId nBlobAttrs d pRow = do {
     (uLen0, iLengthBytes) \<leftarrow> blob_len_at n iBlobAttrId d pRow;
     if iLengthBytes < 0 then None
     else if iLengthBytes = 0 then Some []
     else pool_slice d (pRow + n * nBlobAttrs + unat uLen0) (nat iLengthBytes)
   }"

definition blob_width :: "byte list \<Rightarrow> nat \<Rightarrow> nat option" where
  "blob_width d pRow = (if pRow < length d then RowFlagsToLen (d ! pRow) else None)"

definition GetBlobAttr :: "byte list \<Rightarrow> nat \<Rightarrow> nat \<Rightarrow> nat \<Rightarrow> byte list option" where
  "GetBlobAttr d pRow iBlobAttrId nBlobAttrs = do { n \<leftarrow> blob_width d pRow; GetBlobAttr_T n iBlobAttrId nBlobAttrs d (pRow + 1) }"

definition sphGetBlobAttrLen :: "byte list \<Rightarrow> nat \<Rightarrow> nat \<Rightarrow> int option" where
  "sphGetBlobAttrLen d pRow iBlobAttrId = do { n \<leftarrow> blob_width d pRow; map_option snd (blob_len_at n iBlobAttrId d (pRow + 1)) }"

text \<open>The length of a whole row; rows have at least one attribute.\<close>

definition sphGetBlobTotalLen :: "byte list \<Rightarrow> nat \<Rightarrow> nat \<Rightarrow> dword option" where
  "sphGetBlobTotalLen d pRow nBlobAttrs = do {
     n \<leftarrow> blob_width d pRow;
     if nBlobAttrs = 0 then None
     else do {
       uLen \<leftarrow> read_at n d (pRow + 1 + n * (nBlobAttrs - 1));
       Some (uLen + of_nat (nBlobAttrs * n) + 1)
     }
   }"

definition GetBlobRowOffset :: "CSphRowitem list \<Rightarrow> int \<Rightarrow> nat option" where
  "GetBlobRowOffset pDocinfo iBlobRowOffset = map_option unat (row_pair pDocinfo (2 * iBlobRowOffset))"

definition sphGetBlobAttr :: "CSphRowitem list \<Rightarrow> CSphAttrLocator \<Rightarrow> byte list \<Rightarrow> byte list option" where
  "sphGetBlobAttr pDocinfo tLocator pBlobPool = do {
     iOffset \<leftarrow> GetBlobRowOffset pDocinfo (m_iBlobRowOffset tLocator);
     if m_iBlobAttrId tLocator < 0 then None
     else GetBlobAttr pBlobPool iOffset (nat (m_iBlobAttrId tLocator)) (nat (m_nBlobAttrs tLocator))
   }"

definition sphCopyBlobRow :: "byte list \<Rightarrow> byte list \<Rightarrow> nat \<Rightarrow> nat \<Rightarrow> (nat \<times> byte list) option" where
  "sphCopyBlobRow dDstPool dSrcPool iOffset nBlobs = do {
     iBlobLen \<leftarrow> sphGetBlobTotalLen dSrcPool iOffset nBlobs;
     row \<leftarrow> pool_slice dSrcPool iOffset (unat iBlobLen);
     Some (length dDstPool, dDstPool @ row)
   }"

subsection \<open>Adding and removing an attribute\<close>

definition AddAttrToBlobRowNoData :: "byte list \<Rightarrow> nat \<Rightarrow> nat \<Rightarrow> byte list option" where
  "AddAttrToBlobRowNoData pPool pOldRow iNumBlobs = do {
     uOldBlobLen \<leftarrow> sphGetBlobTotalLen pPool pOldRow iNumBlobs;
     uLenSize \<leftarrow> blob_width pPool pOldRow;
     let uAttrLengthSize = uLenSize * iNumBlobs + 1;
     head \<leftarrow> pool_slice pPool pOldRow uAttrLengthSize;
     len \<leftarrow> pool_slice pPool (pOldRow + uAttrLengthSize - uLenSize) uLenSize;
     tail \<leftarrow> pool_slice pPool (pOldRow + uAttrLengthSize) (unat (uOldBlobLen - of_nat uAttrLengthSize));
     Some (head @ len @ tail)
   }"

fun collect_some :: "'a option list \<Rightarrow> 'a list option" where
  "collect_some [] = Some []"
| "collect_some (x # xs) = do { y \<leftarrow> x; ys \<leftarrow> collect_some xs; Some (y # ys) }"

definition attr_lengths :: "byte list \<Rightarrow> nat \<Rightarrow> nat list \<Rightarrow> dword list option" where
  "attr_lengths pPool pOldRow ids = collect_some (map (\<lambda>i. map_option word_of_int (sphGetBlobAttrLen pPool pOldRow i)) ids)"

text \<open>A buffer of the given size written from its start; what is not written is what the memory held.\<close>

definition written_buffer :: "(nat \<Rightarrow> byte) \<Rightarrow> nat \<Rightarrow> byte list \<Rightarrow> byte list option" where
  "written_buffer mem iSize bytes = (if length bytes \<le> iSize then Some (bytes @ map mem [length bytes..<iSize]) else None)"

definition AddAttrToBlobRowWithData :: "(nat \<Rightarrow> byte) \<Rightarrow> byte list \<Rightarrow> nat \<Rightarrow> nat \<Rightarrow> byte list \<Rightarrow> byte list option" where
  "AddAttrToBlobRowWithData mem pPool pOldRow iNumBlobs pData = do {
     dAttrLengths \<leftarrow> attr_lengths pPool pOldRow [0..<iNumBlobs];
     let dAttrLengths = dAttrLengths @ [of_nat (length pData)];
     let uTotalLength = sum_list dAttrLengths;
     let uNewFlags = CalcBlobRowFlags uTotalLength;
     n \<leftarrow> RowFlagsToLen uNewFlags;
     old \<leftarrow> collect_some (map (\<lambda>i. GetBlobAttr pPool pOldRow i iNumBlobs) [0..<iNumBlobs]);
     written_buffer mem (1 + (iNumBlobs + 1) * n + unat uTotalLength) (uNewFlags # blob_lens n 0 dAttrLengths @ concat old @ pData)
   }"

definition AddAttrToBlobRowFirst :: "byte list \<Rightarrow> byte list option" where
  "AddAttrToBlobRowFirst pData = do {
     let uFlags = CalcBlobRowFlags (of_nat (length pData));
     uLenSize \<leftarrow> RowFlagsToLen uFlags;
     Some (uFlags # le_bytes uLenSize (of_nat (length pData) :: dword) @ pData)
   }"

definition row_offset :: "CSphRowitem list \<Rightarrow> CSphAttrLocator \<Rightarrow> nat option" where
  "row_offset pDocinfo tLoc = map_option unat (sphGetRowAttr pDocinfo tLoc)"

definition sphAddAttrToBlobRow ::
  "(nat \<Rightarrow> byte) \<Rightarrow> CSphRowitem list \<Rightarrow> byte list \<Rightarrow> nat \<Rightarrow> CSphAttrLocator option \<Rightarrow> byte list option \<Rightarrow> byte list option" where
  "sphAddAttrToBlobRow mem pDocinfo pPool iNumBlobs pOldBlobRowLoc pData =
    (if iNumBlobs \<noteq> 0 then do {
       tLoc \<leftarrow> pOldBlobRowLoc;
       pOldRow \<leftarrow> row_offset pDocinfo tLoc;
       case pData of
         Some data \<Rightarrow> AddAttrToBlobRowWithData mem pPool pOldRow iNumBlobs data
       | None \<Rightarrow> AddAttrToBlobRowNoData pPool pOldRow iNumBlobs
     } else AddAttrToBlobRowFirst (case pData of Some data \<Rightarrow> data | None \<Rightarrow> []))"

definition sphRemoveAttrFromBlobRow ::
  "(nat \<Rightarrow> byte) \<Rightarrow> CSphRowitem list \<Rightarrow> byte list \<Rightarrow> nat \<Rightarrow> nat \<Rightarrow> CSphAttrLocator \<Rightarrow> byte list option" where
  "sphRemoveAttrFromBlobRow mem pDocinfo pPool nBlobs iBlobAttrId tBlobRowLoc =
    (if nBlobs \<le> 1 then Some []
     else do {
       pOldRow \<leftarrow> row_offset pDocinfo tBlobRowLoc;
       let ids = filter (\<lambda>i. i \<noteq> iBlobAttrId) [0..<nBlobs];
       uLenSize \<leftarrow> blob_width pPool pOldRow;
       dAttrLengths \<leftarrow> attr_lengths pPool pOldRow ids;
       let uTotalLength = sum_list dAttrLengths;
       let uNewFlags = CalcBlobRowFlags uTotalLength;
       n \<leftarrow> RowFlagsToLen uNewFlags;
       old \<leftarrow> collect_some (map (\<lambda>i. GetBlobAttr pPool pOldRow i nBlobs) ids);
       written_buffer mem (1 + (nBlobs - 1) * uLenSize + unat uTotalLength) (uNewFlags # blob_lens n 0 dAttrLengths @ concat old)
     })"

section \<open>Images of rows\<close>

definition width_flags :: "nat \<Rightarrow> byte" where
  "width_flags n = (if n = 1 then BLOB_ROW_LEN_BYTE else if n = 2 then BLOB_ROW_LEN_WORD else BLOB_ROW_LEN_DWORD)"

definition row_image :: "nat \<Rightarrow> byte list list \<Rightarrow> byte list" where
  "row_image n as = width_flags n # blob_lens n 0 (data_lens as) @ concat as"

definition total_len :: "byte list list \<Rightarrow> nat" where
  "total_len as = sum_list (map length as)"

text \<open>A width in which the lengths of the attributes fit.\<close>

definition fits_width :: "nat \<Rightarrow> byte list list \<Rightarrow> bool" where
  "fits_width n as \<longleftrightarrow> n \<in> {1, 2, 4} \<and> total_len as < 2 ^ (8 * n) - 1 \<and> total_len as < 2 ^ 31"

definition row_at :: "byte list \<Rightarrow> nat \<Rightarrow> nat \<Rightarrow> byte list list \<Rightarrow> bool" where
  "row_at d p n as \<longleftrightarrow> (\<exists>post. drop p d = row_image n as @ post)"

lemma flags_width [simp]: "n \<in> {1, 2, 4} \<Longrightarrow> RowFlagsToLen (width_flags n) = Some n"
  by (auto simp: RowFlagsToLen_def width_flags_def BLOB_ROW_LEN_BYTE_def BLOB_ROW_LEN_WORD_def BLOB_ROW_LEN_DWORD_def)

lemma length_blob_lens [simp]: "length (blob_lens n c ls) = n * length ls"
  by (induction n c ls rule: blob_lens.induct) simp_all

lemma length_data_lens [simp]: "length (data_lens as) = length as"
  by (simp add: data_lens_def)

lemma length_concat_total: "length (concat as) = total_len as"
  by (simp add: total_len_def length_concat)

lemma length_row_image: "length (row_image n as) = 1 + n * length as + total_len as"
  by (simp add: row_image_def length_concat_total)

lemma total_len_take: "k \<le> length as \<Longrightarrow> total_len (take k as) \<le> total_len as"
proof -
  have "total_len (take k as @ drop k as) = total_len (take k as) + total_len (drop k as)" by (simp only: total_len_def map_append sum_list_append)
  then show ?thesis by simp
qed

lemma le_word_narrow: "unat w < 2 ^ (8 * n) \<Longrightarrow> le_word (le_bytes n w) = (w :: dword)"
proof -
  assume "unat w < 2 ^ (8 * n)"
  then have "take_bit (8 * n) w = w" by (rule take_bit_ge_length)
  moreover have "le_word (le_bytes n w) = take_bit (8 * n) w" by (rule bit_eqI) (simp add: bit_le_word_bytes bit_take_bit_iff)
  ultimately show ?thesis by simp
qed

lemma blob_lens_nth:
  assumes "k < length ls"
  shows "take n (drop (n * k) (blob_lens n c ls)) = le_bytes n (c + sum_list (take (Suc k) ls))"
  using assms
proof (induction n c ls arbitrary: k rule: blob_lens.induct)
  case (2 n c l ls)
  show ?case
  proof (cases k)
    case (Suc j)
    have "drop (n * Suc j) (le_bytes n (c + l) @ blob_lens n (c + l) ls) = drop (n * j) (blob_lens n (c + l) ls)" by simp
    then show ?thesis using 2 Suc by (simp add: add.assoc)
  qed simp
qed simp

lemma sum_data_lens: "sum_list (data_lens as) = of_nat (total_len as)"
  by (induction as) (simp_all add: data_lens_def total_len_def)

lemma unat_total: "total_len as < 2 ^ 31 \<Longrightarrow> unat (of_nat (total_len as) :: dword) = total_len as"
  by (simp add: unat_of_nat take_bit_nat_eq_self)

text \<open>The cumulative length stored for an attribute.\<close>

lemma row_length_at:
  assumes "row_at d p n as" "fits_width n as" "k < length as"
  shows "read_at n d (p + 1 + n * k) = Some (of_nat (total_len (take (Suc k) as)) :: dword)"
proof -
  obtain post where post: "drop p d = row_image n as @ post" using assms(1) by (auto simp: row_at_def)
  have n: "n \<noteq> 0" using assms(2) by (auto simp: fits_width_def)
  have le: "n * k + n \<le> n * length as" using assms(3) by (metis Suc_leI mult_Suc_right add.commute mult_le_mono2)
  have "length (drop p d) = 1 + n * length as + total_len as + length post" using post length_row_image by simp
  then have len: "p + 1 + n * k + n \<le> length d" using le by simp
  have "take n (drop (p + 1 + n * k) d) = take n (drop (n * k) (drop 1 (drop p d)))" by (simp add: add.commute add.left_commute)
  also have "drop 1 (drop p d) = blob_lens n 0 (data_lens as) @ concat as @ post" by (simp only: post row_image_def) simp
  also have "take n (drop (n * k) (blob_lens n 0 (data_lens as) @ concat as @ post)) = take n (drop (n * k) (blob_lens n 0 (data_lens as)))"
    using le by simp
  also have "\<dots> = le_bytes n (sum_list (take (Suc k) (data_lens as)))" using blob_lens_nth[of k "data_lens as" n 0] assms(3) by simp
  also have "take (Suc k) (data_lens as) = data_lens (take (Suc k) as)" by (simp add: data_lens_def take_map)
  finally have bytes: "take n (drop (p + 1 + n * k) d) = le_bytes n (of_nat (total_len (take (Suc k) as)) :: dword)" by (simp add: sum_data_lens)
  have "total_len (take (Suc k) as) \<le> total_len as" using assms(3) by (intro total_len_take) simp
  then have "unat (of_nat (total_len (take (Suc k) as)) :: dword) < 2 ^ (8 * n)"
    using assms(2) unat_total[of "take (Suc k) as"] by (simp add: fits_width_def) linarith
  then show ?thesis using bytes len le_word_narrow by (simp add: read_at_def)
qed

lemma row_width: "row_at d p n as \<Longrightarrow> fits_width n as \<Longrightarrow> blob_width d p = Some n"
proof -
  assume r: "row_at d p n as" "fits_width n as"
  then obtain post where post: "drop p d = width_flags n # post" by (auto simp: row_at_def row_image_def)
  then have "p < length d" using drop_eq_Nil[of p d] by (cases "p < length d") auto
  moreover from this have "d ! p = width_flags n" using post by (simp add: Cons_nth_drop_Suc[symmetric])
  ultimately show ?thesis using r(2) by (simp add: blob_width_def fits_width_def)
qed

lemma total_len_Suc: "k < length as \<Longrightarrow> total_len (take (Suc k) as) = total_len (take k as) + length (as ! k)"
  by (simp add: total_len_def take_Suc_conv_app_nth)

lemma row_len_diff:
  assumes "row_at d p n as" "fits_width n as" "k < length as"
  shows "blob_len_at n k d (p + 1) = Some (of_nat (total_len (take k as)), int (length (as ! k)))"
proof -
  have u0: "(if k > 0 then read_at n d (p + 1 + n * (k - 1)) else Some 0) = Some (of_nat (total_len (take k as)) :: dword)"
    using row_length_at[OF assms(1,2), of "k - 1"] assms(3) by (cases k) (auto simp: total_len_def)
  have "total_len (take (Suc k) as) \<le> total_len as" using assms(3) by (intro total_len_take) simp
  then have l: "length (as ! k) < 2 ^ 31" using total_len_Suc[OF assms(3)] assms(2) by (simp add: fits_width_def)
  have "(of_nat (total_len (take (Suc k) as)) - of_nat (total_len (take k as)) :: dword) = of_nat (length (as ! k))"
    using total_len_Suc[OF assms(3)] by simp
  moreover have "sint (of_nat (length (as ! k)) :: dword) = int (length (as ! k))"
    using l by (simp add: signed_of_nat signed_take_bit_int_eq_self)
  ultimately show ?thesis unfolding blob_len_at_def using row_length_at[OF assms] u0 by simp
qed

lemma concat_slice: "k < length as \<Longrightarrow> take (length (as ! k)) (drop (total_len (take k as)) (concat as)) = as ! k"
proof (induction as arbitrary: k)
  case (Cons a as)
  then show ?case by (cases k) (auto simp: total_len_def)
qed simp

lemma slice_at:
  assumes "drop p d = a @ b @ c" "a \<noteq> []" "length a = i" "length b = n"
  shows "pool_slice d (p + i) n = Some b"
proof -
  have "p < length d" using assms(1,2) by (metis append_is_Nil_conv drop_all not_less)
  then have "length d = p + i + n + length c" using arg_cong[OF assms(1), of length] assms(3,4) by simp
  moreover have "drop (p + i) d = b @ c" using arg_cong[OF assms(1), of "drop i"] assms(3) by (simp add: add.commute)
  ultimately show ?thesis using assms(4) by (simp add: pool_slice_def)
qed

lemma slice_start:
  assumes "drop p d = b @ c" "b \<noteq> []" "length b = n"
  shows "pool_slice d p n = Some b"
proof -
  have "p < length d" using assms(1,2) by (metis append_is_Nil_conv drop_all not_less)
  then have "length d = p + n + length c" using arg_cong[OF assms(1), of length] assms(3) by simp
  then show ?thesis using assms(1,3) by (simp add: pool_slice_def)
qed

text \<open>Every attribute of a row is read as it is.\<close>

lemma row_get:
  assumes "row_at d p n as" "fits_width n as" "k < length as"
  shows "GetBlobAttr d p k (length as) = Some (as ! k)"
proof (cases "as ! k = []")
  case True
  then show ?thesis using row_width[OF assms(1,2)] row_len_diff[OF assms] by (simp add: GetBlobAttr_def GetBlobAttr_T_def)
next
  case False
  obtain post where post: "drop p d = row_image n as @ post" using assms(1) by (auto simp: row_at_def)
  let ?t = "total_len (take k as)"
  have "?t + length (as ! k) \<le> total_len as" using total_len_Suc[OF assms(3)] total_len_take[of "Suc k" as] assms(3) by simp
  moreover have c: "concat as = take ?t (concat as) @ as ! k @ drop (length (as ! k)) (drop ?t (concat as))"
    using concat_slice[OF assms(3)] append_take_drop_id by metis
  moreover have l: "length (take ?t (concat as)) = ?t" using calculation(1) by (simp add: length_concat_total)
  ultimately have "drop p d = (width_flags n # blob_lens n 0 (data_lens as) @ take ?t (concat as)) @ as ! k @ drop (length (as ! k)) (drop ?t (concat as)) @ post"
    using post by (simp add: row_image_def)
  from slice_at[OF this, of "1 + n * length as + ?t" "length (as ! k)"]
  have "pool_slice d (p + 1 + n * length as + ?t) (length (as ! k)) = Some (as ! k)" using l by (simp add: add.assoc)
  moreover have "unat (of_nat ?t :: dword) = ?t" using assms(2) total_len_take[of k as] assms(3) by (intro unat_total) (simp add: fits_width_def)
  ultimately show ?thesis using row_width[OF assms(1,2)] row_len_diff[OF assms] False by (simp add: GetBlobAttr_def GetBlobAttr_T_def)
qed

lemma row_get_len:
  assumes "row_at d p n as" "fits_width n as" "k < length as"
  shows "sphGetBlobAttrLen d p k = Some (int (length (as ! k)))"
  using row_width[OF assms(1,2)] row_len_diff[OF assms] by (simp add: sphGetBlobAttrLen_def)

lemma row_total:
  assumes "row_at d p n as" "fits_width n as" "as \<noteq> []"
  shows "sphGetBlobTotalLen d p (length as) = Some (of_nat (length (row_image n as)))"
proof -
  have "read_at n d (p + 1 + n * (length as - 1)) = Some (of_nat (total_len as) :: dword)"
    using row_length_at[OF assms(1,2), of "length as - 1"] assms(3) by simp
  then show ?thesis using row_width[OF assms(1,2)] assms(3) by (simp add: sphGetBlobTotalLen_def length_row_image algebra_simps)
qed

lemma row_slice: "row_at d p n as \<Longrightarrow> pool_slice d p (length (row_image n as)) = Some (row_image n as)"
  by (auto simp: row_at_def row_image_def intro!: slice_start)

lemma row_at_append: "row_at d p n as \<Longrightarrow> row_at (d @ e) p n as"
proof -
  assume "row_at d p n as"
  then obtain post where "drop p d = row_image n as @ post" by (auto simp: row_at_def)
  moreover have "p \<le> length d" using calculation by (cases "p \<le> length d") (auto simp: row_image_def)
  ultimately show ?thesis by (auto simp: row_at_def)
qed

lemma row_at_end: "row_at (d @ row_image n as @ post) (length d) n as"
  by (auto simp: row_at_def)

text \<open>The width chosen for a row holds its lengths.\<close>

lemma chosen_width:
  assumes "total_len as < 2 ^ 31"
  obtains n where "RowFlagsToLen (CalcBlobRowFlags (of_nat (total_len as))) = Some n" "CalcBlobRowFlags (of_nat (total_len as)) = width_flags n"
    "fits_width n as"
proof -
  have u: "(of_nat (total_len as) :: dword) < w \<longleftrightarrow> total_len as < unat w" for w by (simp add: word_less_nat_alt unat_total[OF assms])
  consider "total_len as < 0xFF" | "\<not> total_len as < 0xFF" "total_len as < 0xFFFF" | "\<not> total_len as < 0xFFFF" by linarith
  then show thesis
  proof cases
    case 1
    then show thesis using that[of 1] assms u[of "0xFF"] by (simp add: CalcBlobRowFlags_def RowFlagsToLen_def width_flags_def fits_width_def)
  next
    case 2
    then show thesis using that[of 2] assms u[of "0xFF"] u[of "0xFFFF"]
      by (simp add: CalcBlobRowFlags_def RowFlagsToLen_def width_flags_def fits_width_def BLOB_ROW_LEN_BYTE_def BLOB_ROW_LEN_WORD_def)
  next
    case 3
    then show thesis using that[of 4] assms u[of "0xFF"] u[of "0xFFFF"]
      by (simp add: CalcBlobRowFlags_def RowFlagsToLen_def width_flags_def fits_width_def BLOB_ROW_LEN_BYTE_def BLOB_ROW_LEN_WORD_def BLOB_ROW_LEN_DWORD_def)
  qed
qed

lemma Flush_row:
  assumes "total_len as < 2 ^ 31"
  shows "\<exists>n. fits_width n as \<and> BlobRowBuilder_Mem_Flush as d = Some ((length d, length (row_image n as)), d @ row_image n as)"
  using assms
proof (rule chosen_width)
  fix n assume "RowFlagsToLen (CalcBlobRowFlags (of_nat (total_len as))) = Some n" "CalcBlobRowFlags (of_nat (total_len as)) = width_flags n" "fits_width n as"
  then show ?thesis by (intro exI[of _ n]) (simp add: BlobRowBuilder_Mem_Flush_def sum_data_lens row_image_def fits_width_def)
qed

section \<open>Changing a row\<close>

text \<open>A row of the pool with the given attributes, whose size a dword can hold.\<close>

definition holds_blobs :: "byte list \<Rightarrow> nat \<Rightarrow> byte list list \<Rightarrow> bool" where
  "holds_blobs d p as \<longleftrightarrow> (\<exists>n. fits_width n as \<and> row_at d p n as)"

lemma blob_lens_append: "blob_lens n c (ls @ [l]) = blob_lens n c ls @ le_bytes n (c + sum_list ls + l)"
  by (induction n c ls rule: blob_lens.induct) (simp_all add: add.assoc)

lemma collect_some_map: "(\<And>i. i \<in> set is \<Longrightarrow> f i = Some (g i)) \<Longrightarrow> collect_some (map f is) = Some (map g is)"
  by (induction "is") auto

lemma row_lengths:
  assumes "row_at d p n as" "fits_width n as" "set is \<subseteq> {..<length as}"
  shows "attr_lengths d p is = Some (data_lens (map ((!) as) is))"
    "collect_some (map (\<lambda>i. GetBlobAttr d p i (length as)) is) = Some (map ((!) as) is)"
proof -
  have "collect_some (map (\<lambda>i. map_option word_of_int (sphGetBlobAttrLen d p i)) is) = Some (map (\<lambda>i. of_nat (length (as ! i)) :: dword) is)"
    by (rule collect_some_map) (use row_get_len[OF assms(1,2)] assms(3) in auto)
  then show "attr_lengths d p is = Some (data_lens (map ((!) as) is))" by (simp add: attr_lengths_def data_lens_def comp_def)
  show "collect_some (map (\<lambda>i. GetBlobAttr d p i (length as)) is) = Some (map ((!) as) is)"
    by (rule collect_some_map) (use row_get[OF assms(1,2)] assms(3) in auto)
qed

lemma total_len_append: "total_len (as @ bs) = total_len as + total_len bs"
  by (simp add: total_len_def)

lemma AddNoData_row:
  assumes "row_at d p n as" "fits_width n as" "as \<noteq> []" "length (row_image n as) < 2 ^ 32"
  shows "AddAttrToBlobRowNoData d p (length as) = Some (row_image n (as @ [[]]))"
proof -
  obtain post where post: "drop p d = row_image n as @ post" using assms(1) by (auto simp: row_at_def)
  let ?ls = "data_lens as" and ?sz = "n * length as + 1"
  obtain ms m where ms: "?ls = ms @ [m]" "length ms = length as - 1" using assms(3) length_data_lens[of as]
    by (metis append_butlast_last_id length_butlast length_0_conv)
  have img: "row_image n as = (width_flags n # blob_lens n 0 ms) @ le_bytes n (sum_list ?ls) @ concat as"
    by (simp add: row_image_def ms blob_lens_append)
  have new: "row_image n (as @ [[]]) = (width_flags n # blob_lens n 0 ?ls) @ le_bytes n (sum_list ?ls) @ concat as"
  proof -
    have "data_lens (as @ [[]]) = ?ls @ [0]" by (simp add: data_lens_def)
    then show ?thesis by (simp add: row_image_def blob_lens_append)
  qed
  have dp: "drop p d = (width_flags n # blob_lens n 0 ?ls) @ concat as @ post" using post by (simp add: row_image_def)
  have head: "pool_slice d p ?sz = Some (width_flags n # blob_lens n 0 ?ls)" "pool_slice d (p + ?sz) (total_len as) = Some (concat as)"
    using slice_start[OF dp, of ?sz] slice_at[OF dp, of ?sz "total_len as"] by (simp_all add: length_concat_total)
  have "n * (length as - 1) + n = n * length as" using assms(3) by (cases "length as") auto
  then have i: "p + ?sz - n = p + (1 + n * (length as - 1))" by linarith
  have "pool_slice d (p + ?sz - n) n = Some (le_bytes n (sum_list ?ls))" unfolding i
    by (rule slice_at[of p d "width_flags n # blob_lens n 0 ms" _ "concat as @ post"]) (use post img ms in simp_all)
  moreover have "unat (of_nat (length (row_image n as)) - of_nat ?sz :: dword) = total_len as"
    using assms(4) unat_total[of as] assms(2) by (simp add: length_row_image fits_width_def)
  ultimately show ?thesis using row_total[OF assms(1,2,3)] row_width[OF assms(1,2)] head new
    by (simp add: AddAttrToBlobRowNoData_def Let_def)
qed

lemma AddWithData_row:
  assumes "row_at d p n as" "fits_width n as" "total_len as + length x < 2 ^ 31"
  shows "\<exists>m. fits_width m (as @ [x]) \<and> AddAttrToBlobRowWithData mem d p (length as) x = Some (row_image m (as @ [x]))"
proof -
  have t: "total_len (as @ [x]) < 2 ^ 31" using assms(3) by (simp add: total_len_def)
  have old: "attr_lengths d p [0..<length as] = Some (data_lens as)" "collect_some (map (\<lambda>i. GetBlobAttr d p i (length as)) [0..<length as]) = Some as"
    using row_lengths[OF assms(1,2), of "[0..<length as]"] by (simp_all add: map_nth subset_iff)
  have dl: "data_lens as @ [of_nat (length x)] = data_lens (as @ [x])" by (simp add: data_lens_def)
  from t show ?thesis
  proof (rule chosen_width)
    fix m assume m: "RowFlagsToLen (CalcBlobRowFlags (of_nat (total_len (as @ [x])))) = Some m"
      "CalcBlobRowFlags (of_nat (total_len (as @ [x]))) = width_flags m" "fits_width m (as @ [x])"
    have "length (row_image m (as @ [x])) = 1 + (length as + 1) * m + total_len (as @ [x])" by (simp add: length_row_image algebra_simps)
    moreover have "AddAttrToBlobRowWithData mem d p (length as) x = written_buffer mem (1 + (length as + 1) * m + total_len (as @ [x])) (row_image m (as @ [x]))"
      unfolding AddAttrToBlobRowWithData_def old bind.bind_lunit Let_def dl sum_data_lens m(2) m(1)[unfolded m(2)] unat_total[OF t] row_image_def by simp
    ultimately have "AddAttrToBlobRowWithData mem d p (length as) x = Some (row_image m (as @ [x]))" by (simp add: written_buffer_def)
    then show ?thesis using m(3) by blast
  qed
qed

lemma AddFirst_row:
  assumes "length x < 2 ^ 31"
  shows "\<exists>m. fits_width m [x] \<and> AddAttrToBlobRowFirst x = Some (row_image m [x])"
proof -
  have t: "total_len [x] = length x" by (simp add: total_len_def)
  then have "total_len [x] < 2 ^ 31" using assms by simp
  then show ?thesis
  proof (rule chosen_width)
    fix m assume "RowFlagsToLen (CalcBlobRowFlags (of_nat (total_len [x]))) = Some m"
      "CalcBlobRowFlags (of_nat (total_len [x])) = width_flags m" "fits_width m [x]"
    then show ?thesis by (intro exI[of _ m]) (simp add: AddAttrToBlobRowFirst_def t row_image_def data_lens_def)
  qed
qed

lemma narrower_width:
  assumes "fits_width n as" "fits_width m bs" "CalcBlobRowFlags (of_nat (total_len bs)) = width_flags m" "total_len bs \<le> total_len as"
  shows "m \<le> n"
proof -
  have "(of_nat (total_len bs) :: dword) < w \<longleftrightarrow> total_len bs < unat w" for w
    using assms(2) by (simp add: word_less_nat_alt unat_total fits_width_def)
  note u = this[of "0xFF"] this[of "0xFFFF"]
  show ?thesis using assms u
    by (auto simp: fits_width_def CalcBlobRowFlags_def width_flags_def BLOB_ROW_LEN_BYTE_def BLOB_ROW_LEN_WORD_def BLOB_ROW_LEN_DWORD_def split: if_splits)
qed

lemma filter_ids: "k < m \<Longrightarrow> filter (\<lambda>i. i \<noteq> k) [0..<m] = [0..<k] @ [Suc k..<m]"
proof -
  assume "k < m"
  then have "[0..<m] = [0..<k] @ k # [Suc k..<m]" by (metis le_add1 less_imp_le_nat plus_nat.add_0 upt_add_eq_append upt_conv_Cons le_Suc_ex)
  moreover have "filter (\<lambda>i. i \<noteq> k) [0..<k] = [0..<k]" "filter (\<lambda>i. i \<noteq> k) [Suc k..<m] = [Suc k..<m]" by (auto intro: filter_True)
  ultimately show ?thesis by simp
qed

lemma kept_attrs: "k < length as \<Longrightarrow> map ((!) as) (filter (\<lambda>i. i \<noteq> k) [0..<length as]) = list_remove k as"
  by (simp add: filter_ids list_remove_def) (simp add: list_eq_iff_nth_eq)

lemma total_len_remove: "k < length as \<Longrightarrow> total_len (list_remove k as) + length (as ! k) = total_len as"
proof -
  assume k: "k < length as"
  then have "total_len (take k as @ as ! k # drop (Suc k) as) = total_len (list_remove k as) + length (as ! k)"
    by (simp add: total_len_def list_remove_def)
  then show ?thesis using id_take_nth_drop[OF k] by simp
qed

lemma Remove_row:
  assumes "row_at d p n as" "fits_width n as" "k < length as" "1 < length as" "row_offset doc loc = Some p"
  shows "\<exists>m junk. fits_width m (list_remove k as) \<and>
    sphRemoveAttrFromBlobRow mem doc d (length as) k loc = Some (row_image m (list_remove k as) @ junk)"
proof -
  let ?bs = "list_remove k as"
  have le: "total_len ?bs \<le> total_len as" using total_len_remove[OF assms(3)] by simp
  have t: "total_len ?bs < 2 ^ 31" using le assms(2) by (simp add: fits_width_def)
  from t show ?thesis
  proof (rule chosen_width)
    fix m assume m: "RowFlagsToLen (CalcBlobRowFlags (of_nat (total_len ?bs))) = Some m"
      "CalcBlobRowFlags (of_nat (total_len ?bs)) = width_flags m" "fits_width m ?bs"
    have l: "length ?bs = length as - 1" using assms(3) by (simp add: list_remove_def)
    have "m \<le> n" by (rule narrower_width[OF assms(2) m(3,2) le])
    then have "length (row_image m ?bs) \<le> 1 + (length as - 1) * n + total_len ?bs" by (simp add: length_row_image l mult.commute)
    moreover have "set (filter (\<lambda>i. i \<noteq> k) [0..<length as]) \<subseteq> {..<length as}" by auto
    note old = row_lengths[OF assms(1,2) this, unfolded kept_attrs[OF assms(3)]]
    have "\<not> length as \<le> 1" using assms(4) by simp
    then have "sphRemoveAttrFromBlobRow mem doc d (length as) k loc = written_buffer mem (1 + (length as - 1) * n + total_len ?bs) (row_image m ?bs)"
      unfolding sphRemoveAttrFromBlobRow_def assms(5) row_width[OF assms(1,2)] bind.bind_lunit Let_def old sum_data_lens m(2) m(1)[unfolded m(2)] unat_total[OF t] row_image_def
      by simp
    ultimately show ?thesis using m(3) by (auto simp: written_buffer_def)
  qed
qed

section \<open>Properties\<close>

text \<open>The attributes of the row at a position of a pool, as the readers see them.\<close>

definition reads_blobs :: "byte list \<Rightarrow> nat \<Rightarrow> byte list list \<Rightarrow> bool" where
  "reads_blobs d p as \<longleftrightarrow> (\<forall>k<length as. GetBlobAttr d p k (length as) = Some (as ! k) \<and> sphGetBlobAttrLen d p k = Some (int (length (as ! k))))"

lemma holds_reads: "holds_blobs d p as \<Longrightarrow> reads_blobs d p as"
  by (auto simp: holds_blobs_def reads_blobs_def row_get row_get_len)

lemma holds_image: "fits_width n as \<Longrightarrow> holds_blobs (pre @ row_image n as @ post) (length pre) as"
  using row_at_end by (auto simp: holds_blobs_def)

lemma holds_image_start: "fits_width n as \<Longrightarrow> holds_blobs (row_image n as @ post) 0 as"
  using holds_image[of n as "[]" post] by simp

text \<open>The attributes and their cumulative lengths fit a dword.\<close>

definition blobs_small :: "byte list list \<Rightarrow> bool" where
  "blobs_small as \<longleftrightarrow> 4 * length as + total_len as < 2 ^ 31 - 4"

lemma small_image: "fits_width n as \<Longrightarrow> blobs_small as \<Longrightarrow> length (row_image n as) < 2 ^ 32"
  by (auto simp: length_row_image fits_width_def blobs_small_def)

lemma AddAttr_holds:
  assumes "holds_blobs d p as" "blobs_small (as @ [case x of Some y \<Rightarrow> y | None \<Rightarrow> []])" "as \<noteq> []" "row_offset doc loc = Some p"
  shows "\<exists>row. sphAddAttrToBlobRow mem doc d (length as) (Some loc) x = Some row \<and> holds_blobs row 0 (as @ [case x of Some y \<Rightarrow> y | None \<Rightarrow> []])"
proof -
  obtain n where n: "fits_width n as" "row_at d p n as" using assms(1) by (auto simp: holds_blobs_def)
  have small: "blobs_small as" using assms(2) by (simp add: blobs_small_def total_len_append)
  show ?thesis
  proof (cases x)
    case None
    have "fits_width n (as @ [[]])" using n(1) by (simp add: fits_width_def total_len_def)
    then show ?thesis
      using AddNoData_row[OF n(2,1) assms(3) small_image[OF n(1) small]] None assms(3,4) holds_image_start[of n "as @ [[]]" "[]"]
      by (simp add: sphAddAttrToBlobRow_def)
  next
    case (Some y)
    have "total_len as + length y < 2 ^ 31" using assms(2) Some by (simp add: blobs_small_def total_len_def)
    from AddWithData_row[OF n(2,1) this, of mem] obtain m where "fits_width m (as @ [y])"
      "AddAttrToBlobRowWithData mem d p (length as) y = Some (row_image m (as @ [y]))" by blast
    then show ?thesis using Some assms(3,4) holds_image_start[of m "as @ [y]" "[]"] by (simp add: sphAddAttrToBlobRow_def)
  qed
qed

lemma AddFirst_holds:
  assumes "blobs_small [case x of Some y \<Rightarrow> y | None \<Rightarrow> []]"
  shows "\<exists>row. sphAddAttrToBlobRow mem doc d 0 loc x = Some row \<and> holds_blobs row 0 [case x of Some y \<Rightarrow> y | None \<Rightarrow> []]"
proof -
  let ?y = "case x of Some y \<Rightarrow> y | None \<Rightarrow> []"
  have "length ?y < 2 ^ 31" using assms by (simp add: blobs_small_def total_len_def)
  from AddFirst_row[OF this] obtain m where "fits_width m [?y]" "AddAttrToBlobRowFirst ?y = Some (row_image m [?y])" by blast
  then show ?thesis using holds_image_start[of m "[?y]" "[]"] by (simp add: sphAddAttrToBlobRow_def)
qed

lemma Remove_holds:
  assumes "holds_blobs d p as" "k < length as" "1 < length as" "row_offset doc loc = Some p"
  shows "\<exists>row. sphRemoveAttrFromBlobRow mem doc d (length as) k loc = Some row \<and> holds_blobs row 0 (list_remove k as)"
proof -
  obtain n where n: "fits_width n as" "row_at d p n as" using assms(1) by (auto simp: holds_blobs_def)
  obtain m junk where "fits_width m (list_remove k as)" "sphRemoveAttrFromBlobRow mem doc d (length as) k loc = Some (row_image m (list_remove k as) @ junk)"
    using Remove_row[OF n(2,1) assms(2,3,4)] by blast
  then show ?thesis using holds_image_start by blast
qed

lemma holds_append: "holds_blobs d p as \<Longrightarrow> holds_blobs (d @ e) p as"
  by (auto simp: holds_blobs_def intro: row_at_append)

lemma holds_shift: "holds_blobs d p as \<Longrightarrow> holds_blobs (e @ d) (length e + p) as"
  by (auto simp: holds_blobs_def row_at_def)

text \<open>C32: the row built for any attributes of at most 2 gigabytes in all is put after what the pool holds, and every attribute and
  its length are read back from it, also when the pool grows or the row is copied to another pool. Adding an attribute to the row,
  empty or with data, keeps all others and puts the new one last; removing one keeps all others.\<close>

theorem blob_rows_exact:
  assumes "blobs_small (as @ [x])" "row_offset doc loc = Some (length d)" "k < length as"
  shows "\<exists>len d' dst' row1 row2. BlobRowBuilder_Mem_Flush as d = Some ((length d, len), d') \<and> take (length d) d' = d \<and> length d' = length d + len \<and>
    reads_blobs (d' @ rest) (length d) as \<and>
    sphCopyBlobRow dst d' (length d) (length as) = Some (length dst, dst') \<and> take (length dst) dst' = dst \<and> reads_blobs dst' (length dst) as \<and>
    sphAddAttrToBlobRow mem doc d' (length as) (Some loc) (Some x) = Some row1 \<and> reads_blobs row1 0 (as @ [x]) \<and>
    sphAddAttrToBlobRow mem doc d' (length as) (Some loc) None = Some row2 \<and> reads_blobs row2 0 (as @ [[]]) \<and>
    (1 < length as \<longrightarrow> (\<exists>row3. sphRemoveAttrFromBlobRow mem doc d' (length as) k loc = Some row3 \<and> reads_blobs row3 0 (list_remove k as)))"
proof -
  have as: "as \<noteq> []" using assms(3) by auto
  have small: "blobs_small as" "blobs_small (as @ [[]])" using assms(1) by (auto simp: blobs_small_def total_len_def)
  then have "total_len as < 2 ^ 31" by (simp add: blobs_small_def)
  from Flush_row[OF this, of d] obtain n where n: "fits_width n as"
    "BlobRowBuilder_Mem_Flush as d = Some ((length d, length (row_image n as)), d @ row_image n as)" by blast
  let ?d = "d @ row_image n as"
  have h: "holds_blobs (?d @ e) (length d) as" for e using holds_image[OF n(1), of d e] by simp
  have at: "row_at ?d (length d) n as" using row_at_end[of d n as "[]"] by simp
  have copy: "sphCopyBlobRow dst ?d (length d) (length as) = Some (length dst, dst @ row_image n as)"
    using row_total[OF at n(1) as] row_slice[OF at] small_image[OF n(1) small(1)] by (simp add: sphCopyBlobRow_def unat_of_nat take_bit_nat_eq_self)
  obtain row1 where r1: "sphAddAttrToBlobRow mem doc ?d (length as) (Some loc) (Some x) = Some row1" "holds_blobs row1 0 (as @ [x])"
    using AddAttr_holds[OF h[of "[]", simplified], of "Some x" doc loc mem] assms(1,2) as by auto
  obtain row2 where r2: "sphAddAttrToBlobRow mem doc ?d (length as) (Some loc) None = Some row2" "holds_blobs row2 0 (as @ [[]])"
    using AddAttr_holds[OF h[of "[]", simplified], of None doc loc mem] small(2) assms(2) as by auto
  have "1 < length as \<longrightarrow> (\<exists>row3. sphRemoveAttrFromBlobRow mem doc ?d (length as) k loc = Some row3 \<and> reads_blobs row3 0 (list_remove k as))"
    using Remove_holds[OF h[of "[]", simplified] assms(3) _ assms(2), of mem] holds_reads by blast
  then show ?thesis
    using n(2) copy r1(1) r2(1) holds_reads[OF h] holds_reads[OF r1(2)] holds_reads[OF r2(2)] holds_reads[OF holds_image[OF n(1), of dst "[]"]]
    by (intro exI[of _ "length (row_image n as)"] exI[of _ ?d] exI[of _ "dst @ row_image n as"] exI[of _ row1] exI[of _ row2]) simp
qed

theorem blob_rows_exact_witness:
  "\<exists>d' row. BlobRowBuilder_Mem_Flush [[7], [8, 9]] [1, 2] = Some ((2, 6), d') \<and> GetBlobAttr d' 2 1 2 = Some [8, 9] \<and>
    sphAddAttrToBlobRow (\<lambda>_. 0) [0, 0, 2, 0] d' 2 (Some (loc_at 64 64)) (Some [5]) = Some row \<and> GetBlobAttr row 0 2 3 = Some [5]"
proof -
  have "row_offset [0, 0, 2, 0] (loc_at 64 64) = Some (length [1, 2 :: byte])"
    by (simp add: row_offset_def sphGetRowAttr_def row_pair_def row_item_def ROWITEM_BITS_def)
  moreover have "blobs_small ([[7], [8, 9]] @ [[5]])" by (simp add: blobs_small_def total_len_def)
  ultimately have "\<exists>len d' dst' row1 row2. BlobRowBuilder_Mem_Flush [[7], [8, 9]] [1, 2] = Some ((length [1, 2 :: byte], len), d') \<and> length d' = length [1, 2 :: byte] + len \<and>
    reads_blobs (d' @ []) (length [1, 2 :: byte]) [[7], [8, 9]] \<and>
    sphAddAttrToBlobRow (\<lambda>_. 0) [0, 0, 2, 0] d' (length [[7 :: byte], [8, 9]]) (Some (loc_at 64 64)) (Some [5]) = Some row1 \<and> reads_blobs row1 0 ([[7], [8, 9]] @ [[5]])"
    using blob_rows_exact[where as = "[[7], [8, 9]]" and x = "[5]" and k = 1 and rest = "[]" and dst = "[]" and mem = "\<lambda>_. 0"] by fastforce
  then obtain len d' row where r: "BlobRowBuilder_Mem_Flush [[7], [8, 9]] [1, 2] = Some ((2, len), d')" "length d' = 2 + len"
    "reads_blobs d' 2 [[7], [8, 9]]" "sphAddAttrToBlobRow (\<lambda>_. 0) [0, 0, 2, 0] d' 2 (Some (loc_at 64 64)) (Some [5]) = Some row"
    "reads_blobs row 0 [[7], [8, 9], [5]]"
    by (auto simp: numeral_2_eq_2)
  have "len = 6" using r(1,2)
    by (auto simp: BlobRowBuilder_Mem_Flush_def data_lens_def CalcBlobRowFlags_def RowFlagsToLen_def)
  moreover have "GetBlobAttr d' 2 1 2 = Some [8, 9]" "GetBlobAttr row 0 2 3 = Some [5]"
    using r(3)[unfolded reads_blobs_def, rule_format, of 1] r(5)[unfolded reads_blobs_def, rule_format, of 2] by (simp_all add: numeral_2_eq_2 numeral_3_eq_3)
  ultimately show ?thesis using r(1,4) by blast
qed

end
