(* ===== verification/Spec2Isabelle.thy ===== *)
theory Spec2Isabelle
  imports Prelude Zip Binary_Search Heap_Order Sph_Queue Timeout_Queue Bit_Vec Bytes File_Writer Docid_Lookup
    Docid_Lookup_File Docid_Format Uuid_Lookup Dead_Row_Map Kill_List Cached_Iterator Rowid_Iterators Docid_Filter
    Row_Attr Filter_Eval Sph_Sort String_Tags Utf8 Wildcard
    Crc32 Schema Schema_Layout Schema_Hash Blob_Row
begin

text \<open>
  Verification of the storage and search primitives of Manticore Search (C++, \<^verbatim>\<open>src/src\<close>).

  \<^bold>\<open>The program.\<close> A search daemon keeps tables as indexes: disk chunks and RAM segments of rows. A row has a number
  (\<^verbatim>\<open>RowID_t\<close>) and a document id (\<^verbatim>\<open>DocID_t\<close>); the docid lookup of an index maps one to the other, the dead row map marks rows
  that were deleted or replaced, kill lists of newer data are merged with the lookups of older data to mark them, and
  queries on document ids are answered by iterators over the lookup. The attributes of a row are packed into 32-bit
  items that a schema lays out, with variable-length attributes in blob rows; filters test them. Below these parts lie
  integer codecs, searches, sorts, queues, bit vectors, a buffered file writer, checksums and string routines.

  \<^bold>\<open>Conventions.\<close> A class is a record with the fields of the class, a method \<^verbatim>\<open>C::f\<close> the function \<open>C_f\<close> (or \<open>f\<close>) that takes
  and returns the record. Words keep their width (\<open>dword\<close>, \<open>qword\<close>) wherever the code relies on it. A failed assertion, a
  read or write outside a buffer and undefined behaviour are \<^const>\<open>None\<close>; a result that the code reports is a value. A loop that need not end
  is a \<^theory_text>\<open>partial_function (option)\<close> and shown to return; the other loops are total functions with a measure, so that no
  fuel is needed anywhere except in \<open>read_all\<close>, which reads an iterator to its end: there one call more than there
  are rows is shown to be enough. Code outside the sources is a parameter (the watcher of \<^verbatim>\<open>CheckThenKillMulti\<close>, the contents of memory
  before it is initialised, whether the device accepts writes, whether a rename succeeds).

  \<^bold>\<open>Base library.\<close> \<open>Prelude\<close> and \<open>Bytes\<close>: machine types, little-endian access, shared lemmas. \<open>Zip\<close>: the septet codecs of
  \<^verbatim>\<open>std/zip_impl.h\<close>; round trips, agreement of the unrolled decoders with the reference loops, exact and minimal lengths. \<open>Binary_Search\<close>:
  \<^verbatim>\<open>std/binarysearch_impl.h\<close>; what the three searches return. \<open>Heap_Order\<close>: heaps over a strict weak order (a locale), used by
  \<open>Sph_Queue\<close> (\<^verbatim>\<open>std/queue_impl.h\<close>; the bounded queue keeps the best entries and drains them in order), \<open>Timeout_Queue\<close>
  (\<^verbatim>\<open>timeout_queue.cpp\<close>; minimal root and exact positions in every reachable state) and \<open>Sph_Sort\<close> (\<^verbatim>\<open>std/sort_impl.h\<close>, \<^verbatim>\<open>uniq_impl.h\<close>; the
  sort ends within its stack of 32 parts for fewer than \<open>2^36\<close> elements and sorts). \<open>Bit_Vec\<close>: \<^verbatim>\<open>std/bitvec_impl.h\<close>; refinement
  of sets of bit numbers, \<^verbatim>\<open>Scan\<close> and \<^verbatim>\<open>BitCount\<close> as long as no bit past the end is set, and that \<^verbatim>\<open>Set\<close> breaks this. \<open>Crc32\<close>:
  \<^verbatim>\<open>std/crc32.cpp\<close>; the table is the one of the polynomial. \<open>String_Tags\<close>: \<^verbatim>\<open>std/fnv64.cpp\<close>, the splitters of \<^verbatim>\<open>sphinxutils.cpp\<close> and the string
  tags of \<^verbatim>\<open>sphinxfilter.cpp\<close>. \<open>Utf8\<close>: the codec of \<^verbatim>\<open>sphinxint.h\<close>. \<open>Wildcard\<close>: \<^verbatim>\<open>sphWildcardMatch\<close> of \<^verbatim>\<open>sphinxutils.cpp\<close> against the
  language of a pattern.

  \<^bold>\<open>Docid lookup.\<close> \<open>File_Writer\<close>: \<^verbatim>\<open>CSphWriter\<close> of \<^verbatim>\<open>fileio.cpp\<close> over a file image. \<open>Docid_Lookup\<close>: writer, reader and iterator of
  \<^verbatim>\<open>docidlookup.h\<close> and \<^verbatim>\<open>docidlookup.cpp\<close> on the bytes of the file. \<open>Docid_Lookup_File\<close>: the layout; the writer produces it, the
  readers serve it, \<^verbatim>\<open>Find\<close> inverts the writer. \<open>Docid_Format\<close>: format check, detection and upgrade. \<open>Uuid_Lookup\<close>: the
  uuid entries of the file.

  \<^bold>\<open>Killing rows.\<close> \<open>Dead_Row_Map\<close>: \<^verbatim>\<open>killlist.cpp\<close>; a set of rows with a cached flag and count. \<open>Kill_List\<close>: \<^verbatim>\<open>Intersect\<close> and
  its clients, over a locale of docid readers that the lookup iterator and plain lists implement. This theory: that
  \<^verbatim>\<open>KillDupes\<close> and \<^verbatim>\<open>KillMulti\<close> together leave no row of a killed docid.

  \<^bold>\<open>Querying document ids.\<close> \<open>Cached_Iterator\<close>, \<open>Docid_Filter\<close>: the iterators of \<^verbatim>\<open>docidlookup.cpp\<close> for values and ranges and their
  factory. \<open>Rowid_Iterators\<close>: the iterator interface as a locale and the intersection of \<^verbatim>\<open>secondaryindex.cpp\<close> over it.

  \<^bold>\<open>Rows.\<close> \<open>Row_Attr\<close>: locators and the accessors of \<^verbatim>\<open>CSphMatch\<close>. \<open>Schema\<close>, \<open>Schema_Layout\<close>, \<open>Schema_Hash\<close>: \<^verbatim>\<open>schema/schema.cpp\<close> and
  \<^verbatim>\<open>schema/helper.cpp\<close>; every reachable schema gives each attribute bits of its own, and lookup by name is exact. \<open>Blob_Row\<close>: the
  blob rows of \<^verbatim>\<open>attribute.cpp\<close>. \<open>Filter_Eval\<close>: the tests of \<^verbatim>\<open>sphinxfilter.h\<close>.

  \<^bold>\<open>Conditions to know.\<close> The docids of a lookup ascend. \<^verbatim>\<open>Find\<close>, the uuid lookup and the equality of \<^verbatim>\<open>CheckThenKillMulti\<close> and
  \<^verbatim>\<open>KillMulti\<close> are shown for docids that do not repeat (\<open>docid_sorted\<close>); the kill operations and the docid filters also for docids that
  repeat, if none continues across a checkpoint (\<open>docid_blocks\<close>), since \<^verbatim>\<open>HintDocID\<close> loses rows there, as \<open>kill_multi_misses_straddling\<close>
  shows. \<open>lookup_fits\<close> bounds the number of docids by 32 bits and the file by 64. Counters that the code keeps as \<^verbatim>\<open>int\<close> or
  \<^verbatim>\<open>int64_t\<close> and that count rows, checkpoints or bytes of a file are naturals or integers; they agree below \<open>2^31\<close> (\<open>2^63\<close>). The bit
  vector is the 32-bit instance. String hashes are assumed not to collide where a theorem says so.

  \<^bold>\<open>Not modelled.\<close> Network, threads and coroutines, replication, the SQL, DDL and JSON front ends (generated parsers), full-text
  evaluation and ranking, expressions (floating point and calendar), sorters and grouping, tokenizers, dictionaries and
  morphology, document storage, snippets, percolate queries and query cache, the wrappers of the columnar, secondary
  index and KNN libraries (not part of the sources), the construction of filter trees, the altering of index files, and the
  driving code of indexes and tools around the modelled operations.
\<close>

section \<open>Killing duplicates and killing by docid\<close>

text \<open>Rows are known by their position.\<close>

lemma row_position:
  assumes "distinct (map m_tRowID ps)" "i < length ps" "J \<subseteq> {j. j < length ps}"
  shows "unat (row ps i) \<in> (\<lambda>j. unat (row ps j)) ` J \<longleftrightarrow> i \<in> J"
proof
  assume "unat (row ps i) \<in> (\<lambda>j. unat (row ps j)) ` J"
  then obtain j where j: "j \<in> J" "row ps i = row ps j" by (auto simp: word_unat_eq_iff)
  then have "map m_tRowID ps ! i = map m_tRowID ps ! j" using assms(2,3) by auto
  then have "i = j" using nth_eq_iff_index_eq[OF assms(1), of i j] assms(2,3) j(1) by auto
  then show "i \<in> J" using j(1) by simp
qed auto

text \<open>C6: the two ways of killing rows work together. On a lookup file with ascending docids that may repeat (but do not continue
  across a checkpoint, and are not 0), \<^verbatim>\<open>KillDupes\<close> and then \<^verbatim>\<open>KillMulti\<close> with an ascending list without repetitions succeed, and
  the row of an entry is alive afterwards exactly when it was alive before, is the first row of its docid and the list does
  not name its docid. So no row of a listed docid survives, although \<^verbatim>\<open>KillMulti\<close> alone kills only one row of a docid.\<close>

theorem kill_after_dupes:
  assumes "0 < n" "ps \<noteq> []" "docid_blocks 64 ps" "lookup_fits 71 64 ps" "WriteDocidLookup n ps = Some (ok, pLookup)"
    and "sorted dKlist" "distinct dKlist" "dead_inv (k_tDeadRowMap k)" "\<forall>p \<in> set ps. m_tRowID p < m_uRows (k_tDeadRowMap k)"
    and "distinct (map m_tRowID ps)" "\<forall>p \<in> set ps. m_tDocID p \<noteq> 0"
  shows "\<exists>c k1 d k2. KillDupes pLookup 71 k = Some (c, k1) \<and> KillMulti bHook pLookup 71 dKlist k1 = Some (d, k2) \<and>
    (\<forall>i < length ps. unat (row ps i) \<notin> dead_rows (k_tDeadRowMap k2) \<longleftrightarrow>
      unat (row ps i) \<notin> dead_rows (k_tDeadRowMap k) \<and> (\<forall>j < i. doc ps j \<noteq> doc ps i) \<and> doc ps i \<notin> set dKlist)"
proof -
  define dups where "dups = {j. j < length ps \<and> (\<exists>i < j. doc ps i = doc ps j)}"
  define firsts where "firsts = {i. i < length ps \<and> doc ps i \<in> set dKlist \<and> (\<forall>j < i. doc ps j \<noteq> doc ps i)}"
  obtain k1 where k1: "KillDupes pLookup 71 k = Some (int (card dups), k1)" "dead_inv (k_tDeadRowMap k1)"
    "dead_rows (k_tDeadRowMap k1) = dead_rows (k_tDeadRowMap k) \<union> (\<lambda>j. unat (row ps j)) ` dups"
    "m_uRows (k_tDeadRowMap k1) = m_uRows (k_tDeadRowMap k)"
    using KillDupes_spec[OF assms(1,2) docid_blocks_asc[OF assms(3)] assms(4,5,8,9,11) dups_def] by blast
  have "\<forall>p \<in> set ps. m_tRowID p < m_uRows (k_tDeadRowMap k1)" using assms(9) k1(4) by simp
  from KillMulti_spec[OF assms(1-6) k1(2) this assms(10) refl, of bHook] obtain d k2 where
    k2: "KillMulti bHook pLookup 71 dKlist k1 = Some (d, k2)"
    "dead_rows (k_tDeadRowMap k2) = dead_rows (k_tDeadRowMap k1) \<union> hit_rows ps dKlist" by auto
  have h: "hit_rows ps dKlist = (\<lambda>j. unat (row ps j)) ` firsts"
    unfolding hit_rows_first[OF assms(7)] first_rows_with_def firsts_def by auto
  have sub: "dups \<subseteq> {j. j < length ps}" "firsts \<subseteq> {j. j < length ps}" by (auto simp: dups_def firsts_def)
  have "unat (row ps i) \<notin> dead_rows (k_tDeadRowMap k2) \<longleftrightarrow>
      unat (row ps i) \<notin> dead_rows (k_tDeadRowMap k) \<and> (\<forall>j < i. doc ps j \<noteq> doc ps i) \<and> doc ps i \<notin> set dKlist" if i: "i < length ps" for i
  proof -
    have "unat (row ps i) \<in> dead_rows (k_tDeadRowMap k2) \<longleftrightarrow> unat (row ps i) \<in> dead_rows (k_tDeadRowMap k) \<or> i \<in> dups \<or> i \<in> firsts"
      unfolding k2(2) k1(3) h using row_position[OF assms(10) i sub(1)] row_position[OF assms(10) i sub(2)] by blast
    moreover have "i \<in> dups \<or> i \<in> firsts \<longleftrightarrow> \<not> ((\<forall>j < i. doc ps j \<noteq> doc ps i) \<and> doc ps i \<notin> set dKlist)"
      using i by (auto simp: dups_def firsts_def)
    ultimately show ?thesis by blast
  qed
  with k1(1) k2(1) show ?thesis by blast
qed

text \<open>Of the rows 1 (docid 3), 0 and 2 (docid 9) only row 1 is alive after the list with docid 9 was applied.\<close>

theorem kill_after_dupes_witness:
  "\<exists>f c k1 d k2. WriteDocidLookup 16 dup_docs = Some (True, f) \<and> KillDupes f 71 killable = Some (c, k1) \<and>
    KillMulti False f 71 [9] k1 = Some (d, k2) \<and> 1 \<notin> dead_rows (k_tDeadRowMap k2) \<and> {0, 2} \<subseteq> dead_rows (k_tDeadRowMap k2)"
proof -
  have w: "WriteDocidLookup 16 dup_docs = Some (True, lookup_image 71 64 0 dup_docs)"
    by (rule WriteDocidLookup_image[OF _ _ docid_blocks_asc[OF dup_docs_facts(1)]]) simp_all
  obtain c k1 d k2 where k: "KillDupes (lookup_image 71 64 0 dup_docs) 71 killable = Some (c, k1)"
    "KillMulti False (lookup_image 71 64 0 dup_docs) 71 [9] k1 = Some (d, k2)"
    and r: "\<forall>i < length dup_docs. unat (row dup_docs i) \<notin> dead_rows (k_tDeadRowMap k2) \<longleftrightarrow>
      unat (row dup_docs i) \<notin> dead_rows (k_tDeadRowMap killable) \<and> (\<forall>j < i. doc dup_docs j \<noteq> doc dup_docs i) \<and> doc dup_docs i \<notin> set [9]"
    using kill_after_dupes[OF _ _ dup_docs_facts(1,2) w, of "[9]" killable False] by (auto simp: killable_facts)
  have "1 \<notin> dead_rows (k_tDeadRowMap k2)" "0 \<in> dead_rows (k_tDeadRowMap k2)" "2 \<in> dead_rows (k_tDeadRowMap k2)"
    using r[rule_format, of 0] r[rule_format, of 1] r[rule_format, of 2] by (auto simp: killable_facts)
  with w k show ?thesis by blast
qed

end
